(* ===== verification/Nano_Prelude.thy ===== *)
theory Nano_Prelude
  imports Main "HOL-Library.Word" "HOL-Library.Monad_Syntax" "HOL-Library.Code_Target_Nat"
begin

text \<open>
  Shared vocabulary of the nano-os development: the machine integer types, Rust's checked
  arithmetic, slices, and the generic list, option and bit lemmas that the component theories
  use.

  Conventions. A Rust computation that can panic returns \<open>'a option\<close>, with \<open>None\<close> for the
  panic (the kernel is built with the dev profile, so integer overflow, slice bounds and
  \<open>unwrap\<close> all panic). A Rust \<open>Result\<close> is a sum, \<open>Inl\<close> for \<open>Err\<close>. A \<open>usize\<close> that is an
  address, an index or a size is a \<open>nat\<close> whose arithmetic is written with the checked
  operations below; a \<open>usize\<close> that is a bit pattern (page table entry, register) is a
  \<open>64 word\<close>.
\<close>

unbundle bit_operations_syntax

section \<open>Machine integers\<close>

type_synonym u8 = "8 word"
type_synonym u16 = "16 word"
type_synonym u32 = "32 word"
type_synonym u64 = "64 word"
type_synonym usize = nat

named_theorems checked_simps \<open>unfolding rules of the checked arithmetic\<close>

definition usize_bound :: nat where
  "usize_bound = 2 ^ 64"

definition uadd :: "usize \<Rightarrow> usize \<Rightarrow> usize option" where
  "uadd a b = (if a + b < usize_bound then Some (a + b) else None)"

definition usub :: "usize \<Rightarrow> usize \<Rightarrow> usize option" where
  "usub a b = (if b \<le> a then Some (a - b) else None)"

definition umul :: "usize \<Rightarrow> usize \<Rightarrow> usize option" where
  "umul a b = (if a * b < usize_bound then Some (a * b) else None)"

definition udiv :: "usize \<Rightarrow> usize \<Rightarrow> usize option" where
  "udiv a b = (if b \<noteq> 0 then Some (a div b) else None)"

definition umod :: "usize \<Rightarrow> usize \<Rightarrow> usize option" where
  "umod a b = (if b \<noteq> 0 then Some (a mod b) else None)"

definition unot :: "usize \<Rightarrow> usize" where
  "unot x = usize_bound - 1 - x"

definition guard_assert :: "bool \<Rightarrow> unit option" where
  "guard_assert b = (if b then Some () else None)"

text \<open>Checked arithmetic on \<open>u32\<close>.\<close>

definition u32_add :: "u32 \<Rightarrow> u32 \<Rightarrow> u32 option" where
  "u32_add a b = (if unat a + unat b < 2 ^ 32 then Some (a + b) else None)"

definition u32_sub :: "u32 \<Rightarrow> u32 \<Rightarrow> u32 option" where
  "u32_sub a b = (if b \<le> a then Some (a - b) else None)"

definition u32_mul :: "u32 \<Rightarrow> u32 \<Rightarrow> u32 option" where
  "u32_mul a b = (if unat a * unat b < 2 ^ 32 then Some (a * b) else None)"

definition u32_div :: "u32 \<Rightarrow> u32 \<Rightarrow> u32 option" where
  "u32_div a b = (if b \<noteq> 0 then Some (a div b) else None)"

definition u32_mod :: "u32 \<Rightarrow> u32 \<Rightarrow> u32 option" where
  "u32_mod a b = (if b \<noteq> 0 then Some (a mod b) else None)"

lemmas checked_defs [checked_simps] =
  uadd_def usub_def umul_def udiv_def umod_def guard_assert_def

lemma usize_bound_eq: "usize_bound = 18446744073709551616"
  by (simp add: usize_bound_def)

lemma uadd_SomeD: "uadd a b = Some c \<Longrightarrow> c = a + b \<and> a + b < usize_bound"
  by (simp add: uadd_def split: if_splits)

lemma usub_SomeD: "usub a b = Some c \<Longrightarrow> c + b = a \<and> b \<le> a"
  by (auto simp: usub_def split: if_splits)

lemma umul_SomeD: "umul a b = Some c \<Longrightarrow> c = a * b \<and> a * b < usize_bound"
  by (simp add: umul_def split: if_splits)

lemma uadd_ok [simp]: "a + b < usize_bound \<Longrightarrow> uadd a b = Some (a + b)"
  by (simp add: uadd_def)

lemma usub_ok [simp]: "b \<le> a \<Longrightarrow> usub a b = Some (a - b)"
  by (simp add: usub_def)

lemma umul_ok [simp]: "a * b < usize_bound \<Longrightarrow> umul a b = Some (a * b)"
  by (simp add: umul_def)

lemma umod_ok [simp]: "b \<noteq> 0 \<Longrightarrow> umod a b = Some (a mod b)"
  by (simp add: umod_def)

lemma udiv_ok [simp]: "b \<noteq> 0 \<Longrightarrow> udiv a b = Some (a div b)"
  by (simp add: udiv_def)

lemma guard_assert_eq_Some [simp]: "guard_assert b = Some u \<longleftrightarrow> b"
  by (simp add: guard_assert_def)

lemma guard_assert_True [simp]: "guard_assert True = Some ()"
  by (simp add: guard_assert_def)

subsection \<open>Masks and alignment\<close>

lemma nat_bit_bound: "(a::nat) < 2 ^ m \<Longrightarrow> bit a n \<Longrightarrow> n < m"
  by (metis bit_take_bit_iff take_bit_nat_eq_self)

lemma unot_mask:
  assumes "k \<le> 64"
  shows "unot (2 ^ k - 1) = push_bit k (mask (64 - k))"
proof -
  have "push_bit k (mask (64 - k)) = (2 ^ (64 - k) - 1) * (2::nat) ^ k"
    by (simp add: push_bit_eq_mult mask_eq_exp_minus_1)
  also have "\<dots> = 2 ^ 64 - 2 ^ k"
    using assms by (simp add: diff_mult_distrib flip: power_add)
  finally show ?thesis
    by (simp add: unot_def usize_bound_def)
qed

lemma and_unot_mask:
  assumes "a < usize_bound" and "k \<le> 64"
  shows "a AND unot (2 ^ k - 1) = a div 2 ^ k * 2 ^ k"
proof -
  have "a AND push_bit k (mask (64 - k)) = push_bit k (drop_bit k a)"
  proof (rule bit_eqI)
    fix n
    have "bit a n \<Longrightarrow> n < 64"
      using assms(1) nat_bit_bound unfolding usize_bound_def by blast
    then show "bit (a AND push_bit k (mask (64 - k))) n = bit (push_bit k (drop_bit k a)) n"
      using assms(2) by (auto simp: bit_simps)
  qed
  then show ?thesis
    by (simp only: unot_mask[OF assms(2)] push_bit_eq_mult drop_bit_eq_div)
qed

lemma and_mask_mod: "(a::nat) AND (2 ^ k - 1) = a mod 2 ^ k"
  by (metis mask_eq_exp_minus_1 take_bit_eq_mask take_bit_eq_mod)

lemma round_up_props:
  fixes a k :: nat
  assumes "0 < k"
  defines "r \<equiv> (a + k - 1) div k * k"
  shows "a \<le> r" and "r < a + k" and "k dvd r"
proof -
  have "r + (a + k - 1) mod k = a + k - 1"
    by (simp add: r_def)
  moreover have "(a + k - 1) mod k < k"
    using assms(1) by simp
  ultimately show "a \<le> r" and "r < a + k"
    using assms(1) by linarith+
  show "k dvd r"
    by (simp add: r_def)
qed

lemma dvd_gap:
  fixes a b k :: nat
  assumes "k dvd a" "k dvd b" "a < b"
  shows "a + k \<le> b"
proof -
  from assms obtain x y where "a = k * x" "b = k * y"
    by (auto elim!: dvdE)
  with assms(3) have "k * Suc x \<le> k * y"
    by (metis Suc_leI mult_le_mono2 mult_less_cancel1)
  then show ?thesis
    by (simp add: \<open>a = k * x\<close> \<open>b = k * y\<close>)
qed

section \<open>Slices\<close>

text \<open>\<open>&xs[i..j]\<close> and \<open>xs[i..].copy_from_slice(ys)\<close>, which panic when out of range.\<close>

definition slice :: "'a list \<Rightarrow> nat \<Rightarrow> nat \<Rightarrow> 'a list option" where
  "slice xs i j = (if i \<le> j \<and> j \<le> length xs then Some (take (j - i) (drop i xs)) else None)"

definition slice_write :: "'a list \<Rightarrow> nat \<Rightarrow> 'a list \<Rightarrow> 'a list option" where
  "slice_write xs i ys =
     (if i + length ys \<le> length xs then Some (take i xs @ ys @ drop (i + length ys) xs) else None)"

definition list_get :: "'a list \<Rightarrow> nat \<Rightarrow> 'a option" where
  "list_get xs i = (if i < length xs then Some (xs ! i) else None)"

lemma slice_ok [simp]: "i \<le> j \<Longrightarrow> j \<le> length xs \<Longrightarrow> slice xs i j = Some (take (j - i) (drop i xs))"
  by (simp add: slice_def)

lemma slice_SomeD:
  "slice xs i j = Some ys \<Longrightarrow> ys = take (j - i) (drop i xs) \<and> i \<le> j \<and> j \<le> length xs"
  by (simp add: slice_def split: if_splits)

lemma slice_length: "slice xs i j = Some ys \<Longrightarrow> length ys = j - i"
  by (auto dest!: slice_SomeD)

lemma slice_write_ok [simp]:
  "i + length ys \<le> length xs \<Longrightarrow>
   slice_write xs i ys = Some (take i xs @ ys @ drop (i + length ys) xs)"
  by (simp add: slice_write_def)

lemma slice_write_length: "slice_write xs i ys = Some zs \<Longrightarrow> length zs = length xs"
  by (auto simp: slice_write_def split: if_splits)

lemma slice_write_nth:
  assumes "slice_write xs i ys = Some zs" and "j < length xs"
  shows "zs ! j = (if i \<le> j \<and> j < i + length ys then ys ! (j - i) else xs ! j)"
  using assms by (auto simp: slice_write_def nth_append min_def split: if_splits)

lemma list_get_ok [simp]: "i < length xs \<Longrightarrow> list_get xs i = Some (xs ! i)"
  by (simp add: list_get_def)

lemma list_get_SomeD: "list_get xs i = Some x \<Longrightarrow> i < length xs \<and> x = xs ! i"
  by (simp add: list_get_def split: if_splits)

section \<open>Options and loops\<close>

text \<open>A \<open>for\<close> loop whose body may panic: fold in the option monad.\<close>

fun ofold :: "('a \<Rightarrow> 's \<Rightarrow> 's option) \<Rightarrow> 'a list \<Rightarrow> 's \<Rightarrow> 's option" where
  "ofold f [] s = Some s"
| "ofold f (x # xs) s = Option.bind (f x s) (ofold f xs)"

lemma ofold_append [simp]: "ofold f (xs @ ys) s = Option.bind (ofold f xs s) (ofold f ys)"
  by (induction xs arbitrary: s) (auto split: Option.bind_splits)

lemma ofold_invariant:
  assumes "ofold f xs s = Some t" and "P s"
    and "\<And>x a b. x \<in> set xs \<Longrightarrow> P a \<Longrightarrow> f x a = Some b \<Longrightarrow> P b"
  shows "P t"
  using assms
proof (induction xs arbitrary: s)
  case (Cons x xs)
  then obtain u where "f x s = Some u" "ofold f xs u = Some t"
    by (auto simp: bind_eq_Some_conv)
  with Cons show ?case by auto
qed simp

lemma ofold_total:
  assumes "P s" and "\<And>x a. x \<in> set xs \<Longrightarrow> P a \<Longrightarrow> \<exists>b. f x a = Some b \<and> P b"
  shows "\<exists>t. ofold f xs s = Some t \<and> P t"
  using assms
proof (induction xs arbitrary: s)
  case (Cons x xs)
  then obtain u where "f x s = Some u" "P u"
    by force
  with Cons show ?case by auto
qed simp

text \<open>The operator \<open>?\<close>: an error value ends the computation, a panic stays a panic.\<close>

definition try_bind :: "('e + 'a) option \<Rightarrow> ('a \<Rightarrow> ('e + 'b) option) \<Rightarrow> ('e + 'b) option" where
  "try_bind m f = Option.bind m (\<lambda>r. case r of Inl e \<Rightarrow> Some (Inl e) | Inr a \<Rightarrow> f a)"

lemma try_bind_simps [simp]:
  "try_bind None f = None" "try_bind (Some (Inl e)) f = Some (Inl e)" "try_bind (Some (Inr a)) f = f a"
  by (simp_all add: try_bind_def)

lemma try_bind_eq_Inr:
  "try_bind m f = Some (Inr b) \<longleftrightarrow> (\<exists>a. m = Some (Inr a) \<and> f a = Some (Inr b))"
  by (cases m; cases "the m") auto

lemma try_bind_mono [partial_function_mono]:
  assumes "mono_option B" "\<And>y. mono_option (\<lambda>f. C y f)"
  shows "mono_option (\<lambda>f. try_bind (B f) (\<lambda>y. C y f))"
proof -
  have "mono_option (\<lambda>f. case r of Inl e \<Rightarrow> Some (Inl e) | Inr a \<Rightarrow> C a f)" for r
    using assms(2) by (cases r) (simp_all add: option.const_mono)
  then show ?thesis unfolding try_bind_def using assms(1) by (intro bind_mono) auto
qed

text \<open>\<open>Result::map_err\<close>.\<close>

definition map_err :: "('e \<Rightarrow> 'f) \<Rightarrow> ('e + 'a) option \<Rightarrow> ('f + 'a) option" where
  "map_err g m = map_option (map_sum g id) m"

lemma map_err_simps [simp]:
  "map_err g None = None" "map_err g (Some (Inl e)) = Some (Inl (g e))" "map_err g (Some (Inr a)) = Some (Inr a)"
  by (simp_all add: map_err_def)

text \<open>\<open>Iterator::position\<close>.\<close>

fun position :: "('a \<Rightarrow> bool) \<Rightarrow> 'a list \<Rightarrow> nat option" where
  "position p [] = None"
| "position p (x # xs) = (if p x then Some 0 else map_option Suc (position p xs))"

lemma position_None_iff [simp]: "position p xs = None \<longleftrightarrow> (\<forall>x \<in> set xs. \<not> p x)"
  by (induction xs) auto

lemma position_SomeD:
  "position p xs = Some i \<Longrightarrow> i < length xs \<and> p (xs ! i) \<and> (\<forall>j < i. \<not> p (xs ! j))"
proof (induction xs arbitrary: i)
  case (Cons x xs)
  show ?case
  proof (cases "p x")
    case False
    with Cons.prems obtain k where k: "position p xs = Some k" "i = Suc k" by auto
    with Cons.IH[OF k(1)] False show ?thesis
      by (auto simp: nth_Cons split: nat.splits)
  qed (use Cons.prems in auto)
qed simp

text \<open>A computation that branches on a result and completes took one of the two branches.\<close>

lemma case_sum_eq_Some:
  "(case q of Inl e \<Rightarrow> f e | Inr x \<Rightarrow> g x) = Some r \<longleftrightarrow> (\<exists>e. q = Inl e \<and> f e = Some r) \<or> (\<exists>x. q = Inr x \<and> g x = Some r)"
  by (cases q) auto

lemma case_option_eq_Some:
  "(case q of None \<Rightarrow> a | Some x \<Rightarrow> g x) = Some r \<longleftrightarrow> (q = None \<and> a = Some r) \<or> (\<exists>x. q = Some x \<and> g x = Some r)"
  by (cases q) auto

lemmas branch_Some = bind_eq_Some_conv case_sum_eq_Some case_option_eq_Some

end
