(* ===== verification/Bytes.thy ===== *)
theory Bytes
  imports Nano_Prelude
begin

text \<open>
  Little-endian integers in byte slices (\<open>src/src/bytes.rs\<close>) and in byte-addressed memory. The
  memory is a total function from addresses to bytes; the kernel's raw pointer accesses are
  \<open>load\<close> and \<open>store\<close> of a given width, and the lemmas say when one sees the other.
\<close>

section \<open>Little-endian encoding\<close>

fun to_le :: "nat \<Rightarrow> nat \<Rightarrow> u8 list" where
  "to_le 0 v = []"
| "to_le (Suc n) v = word_of_nat (v mod 256) # to_le n (v div 256)"

fun le_nat :: "u8 list \<Rightarrow> nat" where
  "le_nat [] = 0"
| "le_nat (b # bs) = unat b + 256 * le_nat bs"

lemma to_le_length [simp]: "length (to_le n v) = n"
  by (induction n arbitrary: v) auto

lemma unat_byte: "unat (word_of_nat (v mod 256) :: u8) = v mod 256"
  by (simp add: unat_of_nat)

lemma u8_less: "unat (b :: u8) < 256"
  using unsigned_less[of b, where ?'a = nat] by simp

lemma le_nat_to_le: "v < 256 ^ n \<Longrightarrow> le_nat (to_le n v) = v"
proof (induction n arbitrary: v)
  case (Suc n)
  then have "v div 256 < 256 ^ n"
    by (simp add: less_mult_imp_div_less mult.commute)
  with Suc.IH show ?case by (simp add: unat_byte)
qed simp

lemma le_nat_less: "le_nat bs < 256 ^ length bs"
proof (induction bs)
  case (Cons b bs)
  with u8_less[of b] show ?case by simp
qed simp

lemma to_le_le_nat: "to_le (length bs) (le_nat bs) = bs"
proof (induction bs)
  case (Cons b bs)
  have "(unat b + 256 * le_nat bs) mod 256 = unat b" "(unat b + 256 * le_nat bs) div 256 = le_nat bs"
    using u8_less[of b] by simp_all
  with Cons show ?case by simp
qed simp

section \<open>Reading integers from slices\<close>

definition read_u16_le :: "u8 list \<Rightarrow> usize \<Rightarrow> u16 option" where
  "read_u16_le self offset = do {
     e \<leftarrow> uadd offset 2;
     bs \<leftarrow> slice self offset e;
     Some (word_of_nat (le_nat bs))
   }"

definition read_u32_le :: "u8 list \<Rightarrow> usize \<Rightarrow> u32 option" where
  "read_u32_le self offset = do {
     e \<leftarrow> uadd offset 4;
     bs \<leftarrow> slice self offset e;
     Some (word_of_nat (le_nat bs))
   }"

lemma read_u32_le_ok:
  "offset + 4 \<le> length d \<Longrightarrow> length d < usize_bound \<Longrightarrow>
   read_u32_le d offset = Some (word_of_nat (le_nat (take 4 (drop offset d))))"
  by (simp add: read_u32_le_def)

lemma read_u16_le_ok:
  "offset + 2 \<le> length d \<Longrightarrow> length d < usize_bound \<Longrightarrow>
   read_u16_le d offset = Some (word_of_nat (le_nat (take 2 (drop offset d))))"
  by (simp add: read_u16_le_def)

lemma read_u32_le_None_iff:
  "length d < usize_bound \<Longrightarrow> read_u32_le d offset = None \<longleftrightarrow> length d < offset + 4"
  by (auto simp: read_u32_le_def slice_def uadd_def bind_eq_None_conv split: if_splits)

lemma read_u16_le_None_iff:
  "length d < usize_bound \<Longrightarrow> read_u16_le d offset = None \<longleftrightarrow> length d < offset + 2"
  by (auto simp: read_u16_le_def slice_def uadd_def bind_eq_None_conv split: if_splits)

section \<open>Byte memory\<close>

type_synonym mem = "nat \<Rightarrow> u8"

definition load_bytes :: "nat \<Rightarrow> mem \<Rightarrow> nat \<Rightarrow> u8 list" where
  "load_bytes n m a = map (\<lambda>i. m (a + i)) [0..<n]"

definition store_bytes :: "u8 list \<Rightarrow> mem \<Rightarrow> nat \<Rightarrow> mem" where
  "store_bytes bs m a = (\<lambda>x. if a \<le> x \<and> x < a + length bs then bs ! (x - a) else m x)"

definition load :: "nat \<Rightarrow> mem \<Rightarrow> nat \<Rightarrow> nat" where
  "load n m a = le_nat (load_bytes n m a)"

definition store :: "nat \<Rightarrow> mem \<Rightarrow> nat \<Rightarrow> nat \<Rightarrow> mem" where
  "store n m a v = store_bytes (to_le n v) m a"

lemma load_bytes_length [simp]: "length (load_bytes n m a) = n"
  by (simp add: load_bytes_def)

lemma load_bytes_nth [simp]: "i < n \<Longrightarrow> load_bytes n m a ! i = m (a + i)"
  by (simp add: load_bytes_def)

lemma load_bytes_cong:
  "(\<And>x. a \<le> x \<Longrightarrow> x < a + n \<Longrightarrow> m x = m' x) \<Longrightarrow> load_bytes n m a = load_bytes n m' a"
  by (simp add: load_bytes_def)

lemma load_store_bytes [simp]: "length bs = n \<Longrightarrow> load_bytes n (store_bytes bs m a) a = bs"
  by (rule nth_equalityI) (auto simp: store_bytes_def)

lemma load_cong: "(\<And>x. a \<le> x \<Longrightarrow> x < a + n \<Longrightarrow> m x = m' x) \<Longrightarrow> load n m a = load n m' a"
  by (simp add: load_def load_bytes_cong[of a n m m'])

lemma load_less: "load n m a < 256 ^ n"
  using le_nat_less[of "load_bytes n m a"] by (simp add: load_def)

lemma load_store_same: "v < 256 ^ n \<Longrightarrow> load n (store n m a v) a = v"
  by (simp add: load_def store_def le_nat_to_le)

lemma store_other: "x < a \<or> a + n \<le> x \<Longrightarrow> store n m a v x = m x"
  by (auto simp: store_def store_bytes_def)

lemma load_store_disjoint:
  "a + n \<le> b \<or> b + k \<le> a \<Longrightarrow> load k (store n m a v) b = load k m b"
  by (rule load_cong) (auto intro!: store_other)

end
