(* ===== verification/Memory_Regions.thy ===== *)
theory Memory_Regions
  imports Nano_Prelude "HOL-Library.Multiset"
begin

text \<open>
  Model of \<open>src/src/memory.rs\<close>: page rounding and the computation of the usable RAM regions.
  The four passes of \<open>compute_usable_regions\<close> (clip, exchange sort, merge, carve) are four
  definitions over the bounded vectors of \<open>heapless\<close>; the lemmas follow the passes and end in
  the statement that the carved regions are exactly the RAM that is not reserved.
\<close>

unbundle bit_operations_syntax

section \<open>Pages\<close>

definition PAGE_SIZE :: usize where
  "PAGE_SIZE = 4096"

definition align_down :: "usize \<Rightarrow> usize" where
  "align_down addr = addr AND unot (PAGE_SIZE - 1)"

definition align_up :: "usize \<Rightarrow> usize option" where
  "align_up addr = do {
     a \<leftarrow> uadd addr PAGE_SIZE;
     b \<leftarrow> usub a 1;
     Some (b AND unot (PAGE_SIZE - 1))
   }"

lemma PAGE_SIZE_exp: "PAGE_SIZE = 2 ^ 12"
  by (simp add: PAGE_SIZE_def)

lemma and_unot_page: "a < usize_bound \<Longrightarrow> a AND unot 4095 = a div 4096 * 4096"
  using and_unot_mask[of a 12] by simp

lemma align_down_eq: "a < usize_bound \<Longrightarrow> align_down a = a div 4096 * 4096"
  by (simp add: align_down_def PAGE_SIZE_def and_unot_page)

lemma align_up_Some_iff:
  "align_up a = Some r \<longleftrightarrow> a + 4096 < usize_bound \<and> r = (a + 4095) div 4096 * 4096"
  using and_unot_page[of "a + 4095"]
  by (auto simp: align_up_def PAGE_SIZE_def uadd_def usub_def add.commute[of 4095])

lemma align_up_bounds:
  assumes "align_up a = Some r"
  shows "a \<le> r" and "r < a + 4096" and "4096 dvd r"
  using assms round_up_props[of 4096 a] by (auto simp: align_up_Some_iff)

lemma align_down_bounds:
  assumes "a < usize_bound"
  shows "align_down a \<le> a" and "a < align_down a + 4096" and "4096 dvd align_down a"
  using assms by (simp_all add: align_down_eq)

section \<open>Regions and bounded vectors\<close>

record region =
  r_start :: usize
  r_end :: usize

text \<open>\<open>let _ = v.push(x)\<close> on a \<open>heapless::Vec\<close> of capacity \<open>cap\<close>: a full vector is left as it is.\<close>

definition hpush :: "nat \<Rightarrow> 'a \<Rightarrow> 'a list \<Rightarrow> 'a list" where
  "hpush cap x v = (if length v < cap then v @ [x] else v)"

definition clip_regions :: "nat \<Rightarrow> region \<Rightarrow> region list \<Rightarrow> region list" where
  "clip_regions cap ram reserved = fold (\<lambda>r clipped.
     let s = max (r_start r) (r_start ram); e = min (r_end r) (r_end ram)
     in if s < e then hpush cap \<lparr>r_start = s, r_end = e\<rparr> clipped else clipped) reserved []"

definition swap_at :: "'a list \<Rightarrow> nat \<Rightarrow> nat \<Rightarrow> 'a list" where
  "swap_at v i j = v[i := v ! j, j := v ! i]"

definition sort_step :: "nat \<Rightarrow> nat \<Rightarrow> region list \<Rightarrow> region list" where
  "sort_step i j c = (if r_start (c ! j) < r_start (c ! i) then swap_at c i j else c)"

definition sort_inner :: "nat \<Rightarrow> region list \<Rightarrow> region list" where
  "sort_inner i c = fold (sort_step i) [i + 1..<length c] c"

definition sort_regions :: "region list \<Rightarrow> region list" where
  "sort_regions c = fold sort_inner [0..<length c] c"

definition merge_step :: "nat \<Rightarrow> region \<Rightarrow> region list \<Rightarrow> region list" where
  "merge_step cap r merged =
     (if merged \<noteq> [] \<and> r_start r \<le> r_end (last merged)
      then if r_end r > r_end (last merged)
           then butlast merged @ [(last merged)\<lparr>r_end := r_end r\<rparr>]
           else merged
      else hpush cap r merged)"

definition merge_regions :: "nat \<Rightarrow> region list \<Rightarrow> region list" where
  "merge_regions cap c = fold (merge_step cap) c []"

definition carve_step :: "nat \<Rightarrow> region \<Rightarrow> usize \<times> region list \<Rightarrow> usize \<times> region list" where
  "carve_step ucap r st = (case st of (cursor, usable) \<Rightarrow>
     (max cursor (r_end r),
      if r_start r > cursor then hpush ucap \<lparr>r_start = cursor, r_end = r_start r\<rparr> usable
      else usable))"

definition carve_regions :: "nat \<Rightarrow> region \<Rightarrow> region list \<Rightarrow> region list \<Rightarrow> region list" where
  "carve_regions ucap ram merged usable =
     (case fold (carve_step ucap) merged (r_start ram, usable) of (cursor, usable') \<Rightarrow>
        if cursor < r_end ram then hpush ucap \<lparr>r_start = cursor, r_end = r_end ram\<rparr> usable'
        else usable')"

definition compute_usable_regions ::
  "nat \<Rightarrow> nat \<Rightarrow> region \<Rightarrow> region list \<Rightarrow> region list \<Rightarrow> region list" where
  "compute_usable_regions rcap ucap ram reserved usable =
     carve_regions ucap ram (merge_regions rcap (sort_regions (clip_regions rcap ram reserved)))
       usable"

section \<open>Coverage\<close>

definition cover :: "region list \<Rightarrow> usize set" where
  "cover rs = (\<Union>r \<in> set rs. {r_start r..<r_end r})"

abbreviation nonempty :: "region \<Rightarrow> bool" where
  "nonempty r \<equiv> r_start r < r_end r"

abbreviation separated :: "region list \<Rightarrow> bool" where
  "separated \<equiv> sorted_wrt (\<lambda>a b. r_end a < r_start b)"

lemma cover_Nil [simp]: "cover [] = {}"
  by (simp add: cover_def)

lemma cover_Cons [simp]: "cover (r # rs) = {r_start r..<r_end r} \<union> cover rs"
  by (simp add: cover_def)

lemma cover_append [simp]: "cover (xs @ ys) = cover xs \<union> cover ys"
  by (simp add: cover_def)

lemma cover_cong_mset: "mset xs = mset ys \<Longrightarrow> cover xs = cover ys"
  by (auto simp: cover_def dest: mset_eq_setD)

lemma cover_mem: "x \<in> set rs \<Longrightarrow> {r_start x..<r_end x} \<subseteq> cover rs"
  by (auto simp: cover_def)

lemma hpush_room [simp]: "length v < cap \<Longrightarrow> hpush cap x v = v @ [x]"
  by (simp add: hpush_def)

lemma hpush_length: "length v \<le> cap \<Longrightarrow> length (hpush cap x v) \<le> cap"
  by (simp add: hpush_def)

subsection \<open>Clipping\<close>

lemma clip_regions_spec:
  assumes "length rs \<le> cap"
  shows "length (clip_regions cap ram rs) \<le> length rs"
    and "cover (clip_regions cap ram rs) = cover rs \<inter> {r_start ram..<r_end ram}"
    and "\<forall>r \<in> set (clip_regions cap ram rs). nonempty r \<and> r_start ram \<le> r_start r \<and> r_end r \<le> r_end ram"
proof -
  let ?P = "\<lambda>done c. length c \<le> length done \<and>
      cover c = cover done \<inter> {r_start ram..<r_end ram} \<and>
      (\<forall>r \<in> set c. nonempty r \<and> r_start ram \<le> r_start r \<and> r_end r \<le> r_end ram)"
  have "length xs \<le> cap \<Longrightarrow> ?P xs (clip_regions cap ram xs)" for xs
  proof (induction xs rule: rev_induct)
    case Nil
    then show ?case by (simp add: clip_regions_def)
  next
    case (snoc r xs)
    define c s e where "c = clip_regions cap ram xs" and "s = max (r_start r) (r_start ram)"
      and "e = min (r_end r) (r_end ram)"
    have IH: "?P xs c" using snoc unfolding c_def by simp
    have step: "clip_regions cap ram (xs @ [r]) =
        (if s < e then hpush cap \<lparr>r_start = s, r_end = e\<rparr> c else c)"
      by (simp add: clip_regions_def Let_def c_def s_def e_def)
    have room: "length c < cap" using IH snoc.prems by simp
    have le: "r_start ram \<le> s" "e \<le> r_end ram"
      unfolding s_def e_def by simp_all
    have cov: "cover (xs @ [r]) \<inter> {r_start ram..<r_end ram} = cover c \<union> {s..<e}"
      using IH by (simp add: Int_Un_distrib2 s_def e_def)
    have len: "length c \<le> length xs"
      and all: "\<forall>r \<in> set c. nonempty r \<and> r_start ram \<le> r_start r \<and> r_end r \<le> r_end ram"
      using IH by blast+
    show ?case
      unfolding step cov using len all room le by (cases "s < e") simp_all
  qed
  from this[OF assms] show "length (clip_regions cap ram rs) \<le> length rs"
    and "cover (clip_regions cap ram rs) = cover rs \<inter> {r_start ram..<r_end ram}"
    and "\<forall>r \<in> set (clip_regions cap ram rs). nonempty r \<and> r_start ram \<le> r_start r \<and> r_end r \<le> r_end ram"
    by blast+
qed

subsection \<open>The exchange sort\<close>

definition below_upto :: "nat \<Rightarrow> region list \<Rightarrow> bool" where
  "below_upto k c \<longleftrightarrow> (\<forall>a b. a < k \<longrightarrow> a < b \<longrightarrow> b < length c \<longrightarrow> r_start (c ! a) \<le> r_start (c ! b))"

lemma swap_at_mset: "i < length v \<Longrightarrow> j < length v \<Longrightarrow> mset (swap_at v i j) = mset v"
  by (simp add: swap_at_def mset_swap)

lemma swap_at_length [simp]: "length (swap_at v i j) = length v"
  by (simp add: swap_at_def)

lemma below_upto_swap:
  assumes "below_upto i c" "i < j" "j < length c"
  shows "below_upto i (swap_at c i j)"
  unfolding below_upto_def
proof (intro allI impI)
  fix a b assume ab: "a < i" "a < b" "b < length (swap_at c i j)"
  have le: "r_start (c ! a) \<le> r_start (c ! k)" if "a < k" "k < length c" for k
    using assms(1) ab(1) that by (simp add: below_upto_def)
  have "swap_at c i j ! a = c ! a" and "swap_at c i j ! b \<in> {c ! b, c ! i, c ! j}"
    using assms(2,3) ab by (auto simp: swap_at_def nth_list_update)
  then show "r_start (swap_at c i j ! a) \<le> r_start (swap_at c i j ! b)"
    using le[of b] le[of i] le[of j] assms(2,3) ab by auto
qed

definition least_upto :: "nat \<Rightarrow> nat \<Rightarrow> region list \<Rightarrow> bool" where
  "least_upto i m c \<longleftrightarrow> (\<forall>b. i < b \<longrightarrow> b < m \<longrightarrow> r_start (c ! i) \<le> r_start (c ! b))"

lemma least_upto_step:
  assumes "least_upto i m c" "i < m" "m < length c"
  shows "least_upto i (Suc m) (sort_step i m c)"
  unfolding least_upto_def
proof (intro allI impI)
  fix b assume b: "i < b" "b < Suc m"
  have "r_start (c ! i) \<le> r_start (c ! b)" if "b \<noteq> m"
    using assms(1) b that by (simp add: least_upto_def)
  then show "r_start (sort_step i m c ! i) \<le> r_start (sort_step i m c ! b)"
    using assms(2,3) b by (cases "b = m") (auto simp: sort_step_def swap_at_def nth_list_update)
qed

lemma sort_inner_prefix:
  assumes "i < m" "m \<le> length c" "below_upto i c"
  shows "length (fold (sort_step i) [i + 1..<m] c) = length c \<and>
    mset (fold (sort_step i) [i + 1..<m] c) = mset c \<and>
    below_upto i (fold (sort_step i) [i + 1..<m] c) \<and>
    least_upto i m (fold (sort_step i) [i + 1..<m] c)"
  using assms(1,2)
proof (induction m)
  case (Suc m)
  show ?case
  proof (cases "i = m")
    case True
    then show ?thesis using assms(3) by (simp add: least_upto_def)
  next
    case False
    with Suc.prems have im: "i < m" and ml: "m < length c" by auto
    define d where "d = fold (sort_step i) [i + 1..<m] c"
    have IH: "length d = length c" "mset d = mset c" "below_upto i d" "least_upto i m d"
      using Suc.IH[OF im] ml unfolding d_def by auto
    have step: "fold (sort_step i) [i + 1..<Suc m] c = sort_step i m d"
      using im by (simp add: d_def)
    have "least_upto i (Suc m) (sort_step i m d)"
      using least_upto_step[OF IH(4) im] IH(1) ml by simp
    moreover have "length (sort_step i m d) = length c" "mset (sort_step i m d) = mset c"
      "below_upto i (sort_step i m d)"
      using IH im ml by (simp_all add: sort_step_def swap_at_mset below_upto_swap)
    ultimately show ?thesis
      unfolding step by blast
  qed
qed simp

lemma sort_inner_spec:
  assumes "i < length c" "below_upto i c"
  shows "length (sort_inner i c) = length c" "mset (sort_inner i c) = mset c"
    "below_upto (Suc i) (sort_inner i c)"
  using sort_inner_prefix[OF assms(1) order_refl assms(2)]
  by (auto simp: sort_inner_def below_upto_def least_upto_def less_Suc_eq)

lemma sort_regions_spec:
  shows "mset (sort_regions c) = mset c" and "sorted (map r_start (sort_regions c))"
proof -
  have inv: "n \<le> length c \<Longrightarrow> length (fold sort_inner [0..<n] c) = length c \<and>
      mset (fold sort_inner [0..<n] c) = mset c \<and> below_upto n (fold sort_inner [0..<n] c)" for n
  proof (induction n)
    case 0
    then show ?case by (simp add: below_upto_def)
  next
    case (Suc n)
    then have IH: "length (fold sort_inner [0..<n] c) = length c"
      "mset (fold sort_inner [0..<n] c) = mset c" "below_upto n (fold sort_inner [0..<n] c)"
      by simp_all
    have "n < length (fold sort_inner [0..<n] c)"
      using Suc.prems IH(1) by simp
    from sort_inner_spec[OF this IH(3)] IH show ?case
      by simp
  qed
  from inv[of "length c"] show "mset (sort_regions c) = mset c"
    by (simp add: sort_regions_def)
  from inv[of "length c"] show "sorted (map r_start (sort_regions c))"
    by (auto simp: sort_regions_def below_upto_def sorted_iff_nth_mono_less)
qed

subsection \<open>Merging\<close>

text \<open>The merge keeps a separated list whose last start is at most the next region's start.\<close>

lemma separated_snoc:
  assumes "\<forall>r \<in> set (xs @ [l]). nonempty r"
  shows "separated (xs @ [l, r]) \<longleftrightarrow> separated (xs @ [l]) \<and> r_end l < r_start r"
  using assms by (fastforce simp: sorted_wrt_append)

lemma merge_step_spec:
  assumes "separated m" "\<forall>x \<in> set m. nonempty x" "nonempty r" "length m < cap"
    and "m \<noteq> [] \<Longrightarrow> r_start (last m) \<le> r_start r"
  shows "separated (merge_step cap r m)" "\<forall>x \<in> set (merge_step cap r m). nonempty x"
    and "cover (merge_step cap r m) = cover m \<union> {r_start r..<r_end r}"
    and "length (merge_step cap r m) \<le> Suc (length m)"
    and "merge_step cap r m \<noteq> []" "r_start (last (merge_step cap r m)) \<le> r_start r"
proof -
  have "separated (merge_step cap r m) \<and> (\<forall>x \<in> set (merge_step cap r m). nonempty x) \<and>
    cover (merge_step cap r m) = cover m \<union> {r_start r..<r_end r} \<and>
    length (merge_step cap r m) \<le> Suc (length m) \<and> merge_step cap r m \<noteq> [] \<and>
    r_start (last (merge_step cap r m)) \<le> r_start r"
  proof (cases m rule: rev_cases)
    case Nil
    then show ?thesis using assms(3,4) by (simp add: merge_step_def)
  next
    case (snoc xs l)
    have l: "nonempty l" "r_start l \<le> r_start r" "separated (xs @ [l])"
      "\<forall>x \<in> set (xs @ [l]). nonempty x"
      using assms snoc by auto
    consider (append) "r_end l < r_start r" | (extend) "r_start r \<le> r_end l" "r_end l < r_end r"
      | (inside) "r_start r \<le> r_end l" "r_end r \<le> r_end l" by linarith
    then show ?thesis
    proof cases
      case append
      then have "merge_step cap r m = xs @ [l, r]"
        using assms(4) by (simp add: merge_step_def snoc)
      then show ?thesis
        using append l assms(3) separated_snoc[OF l(4), of r] snoc by auto
    next
      case extend
      then have "merge_step cap r m = xs @ [l\<lparr>r_end := r_end r\<rparr>]"
        by (simp add: merge_step_def snoc)
      moreover have "separated (xs @ [l\<lparr>r_end := r_end r\<rparr>])"
        using l(3) by (simp add: sorted_wrt_append)
      moreover have "{r_start l..<r_end r} = {r_start l..<r_end l} \<union> {r_start r..<r_end r}"
        using extend l by auto
      ultimately show ?thesis
        using extend l snoc by auto
    next
      case inside
      then have "merge_step cap r m = m"
        by (simp add: merge_step_def snoc)
      moreover have "{r_start r..<r_end r} \<subseteq> {r_start l..<r_end l}"
        using inside l by auto
      ultimately show ?thesis
        using l snoc by auto
    qed
  qed
  then show "separated (merge_step cap r m)" "\<forall>x \<in> set (merge_step cap r m). nonempty x"
    and "cover (merge_step cap r m) = cover m \<union> {r_start r..<r_end r}"
    and "length (merge_step cap r m) \<le> Suc (length m)"
    and "merge_step cap r m \<noteq> []" "r_start (last (merge_step cap r m)) \<le> r_start r"
    by blast+
qed

lemma merge_regions_spec:
  assumes "sorted (map r_start c)" "\<forall>x \<in> set c. nonempty x" "length c \<le> cap"
  shows "separated (merge_regions cap c)" "\<forall>x \<in> set (merge_regions cap c). nonempty x"
    and "cover (merge_regions cap c) = cover c" "length (merge_regions cap c) \<le> length c"
proof -
  have "separated (merge_regions cap c) \<and> (\<forall>x \<in> set (merge_regions cap c). nonempty x) \<and>
    cover (merge_regions cap c) = cover c \<and> length (merge_regions cap c) \<le> length c \<and>
    (merge_regions cap c \<noteq> [] \<longrightarrow> c \<noteq> [] \<and> r_start (last (merge_regions cap c)) \<le> r_start (last c))"
    using assms
  proof (induction c rule: rev_induct)
    case Nil
    then show ?case by (simp add: merge_regions_def)
  next
    case (snoc r c)
    define m where "m = merge_regions cap c"
    have IH: "separated m" "\<forall>x \<in> set m. nonempty x" "cover m = cover c" "length m \<le> length c"
      "m \<noteq> [] \<longrightarrow> c \<noteq> [] \<and> r_start (last m) \<le> r_start (last c)"
      using snoc unfolding m_def by (simp_all add: sorted_append)
    have "c \<noteq> [] \<Longrightarrow> r_start (last c) \<le> r_start r"
      using snoc.prems(1) by (simp add: sorted_append)
    then have "m \<noteq> [] \<Longrightarrow> r_start (last m) \<le> r_start r"
      using IH(5) le_trans by blast
    from merge_step_spec[OF IH(1,2) _ _ this, of cap] snoc.prems IH(3,4)
    show ?case
      by (simp add: merge_regions_def m_def[unfolded merge_regions_def, symmetric] Un_commute)
  qed
  then show "separated (merge_regions cap c)" "\<forall>x \<in> set (merge_regions cap c). nonempty x"
    and "cover (merge_regions cap c) = cover c" "length (merge_regions cap c) \<le> length c"
    by blast+
qed

subsection \<open>Carving\<close>

text \<open>
  After the reserved regions \<open>m\<close> the cursor is past all of them, and the carved regions are the
  part of \<open>[start, cursor)\<close> they leave.
\<close>

definition carved :: "usize \<Rightarrow> region list \<Rightarrow> usize \<times> region list \<Rightarrow> bool" where
  "carved start m st \<longleftrightarrow> (case st of (cursor, us) \<Rightarrow>
     start \<le> cursor \<and> cursor = (if m = [] then start else r_end (last m)) \<and>
     cover us = {start..<cursor} - cover m \<and> separated us \<and>
     (\<forall>u \<in> set us. nonempty u \<and> r_end u \<le> cursor \<and> (m \<noteq> [] \<longrightarrow> r_end u < cursor)) \<and>
     length us \<le> length m)"

lemma cover_below: "\<forall>x \<in> set m. r_end x \<le> b \<Longrightarrow> cover m \<subseteq> {..<b}"
  by (fastforce simp: cover_def)

lemma carve_step_spec:
  assumes "carved start m (cursor, us)" "separated (m @ [r])" "\<forall>x \<in> set (m @ [r]). nonempty x"
    and "start \<le> r_start r" "length m < ucap"
  shows "carved start (m @ [r]) (carve_step ucap r (cursor, us))"
proof -
  note st = assms(1)[unfolded carved_def prod.case]
  have cur: "cursor \<le> r_start r" "m \<noteq> [] \<Longrightarrow> cursor < r_start r"
    using st assms(2,4) by (cases m rule: rev_cases; simp add: sorted_wrt_append)+
  have r: "nonempty r" using assms(3) by simp
  have end': "max cursor (r_end r) = r_end r" using cur r by simp
  have "\<forall>x \<in> set m. r_end x \<le> cursor"
    using st assms(2,3) by (cases m rule: rev_cases) (fastforce simp: sorted_wrt_append)+
  then have below: "cover m \<subseteq> {..<cursor}" by (rule cover_below)
  have split: "{start..<r_end r} - cover (m @ [r]) = ({start..<cursor} - cover m) \<union> {cursor..<r_start r}"
    using st cur r below by auto
  show ?thesis
  proof (cases "r_start r > cursor")
    case True
    have "separated (us @ [\<lparr>r_start = cursor, r_end = r_start r\<rparr>])"
      using st by (cases "m = []") (auto simp: sorted_wrt_append)
    then show ?thesis
      unfolding carved_def carve_step_def prod.case split end'
      using True st r assms(5) by (fastforce simp: end')
  next
    case False
    then have m: "m = []" "r_start r = cursor" using cur by auto
    then show ?thesis
      unfolding carved_def carve_step_def prod.case split end'
      using st r assms(4) by (auto simp: end')
  qed
qed

lemma carve_fold_spec:
  assumes "separated m" "\<forall>x \<in> set m. nonempty x \<and> start \<le> r_start x" "length m \<le> ucap"
  shows "carved start m (fold (carve_step ucap) m (start, []))"
  using assms
proof (induction m rule: rev_induct)
  case Nil
  then show ?case by (simp add: carved_def)
next
  case (snoc r m)
  obtain cursor us where eq: "fold (carve_step ucap) m (start, []) = (cursor, us)"
    by fastforce
  have "carved start m (cursor, us)"
    using snoc eq by (simp add: sorted_wrt_append)
  then show ?case
    using carve_step_spec[of start m cursor us r ucap] snoc.prems eq by simp
qed

lemma carved_ends:
  assumes "carved start m (cursor, us)" "separated m" "\<forall>x \<in> set m. nonempty x"
  shows "cover m \<subseteq> {..<cursor}" and "m \<noteq> [] \<Longrightarrow> \<exists>x \<in> set m. cursor = r_end x"
proof -
  have last: "m \<noteq> [] \<Longrightarrow> cursor = r_end (last m)"
    using assms(1) by (simp add: carved_def)
  have "\<forall>x \<in> set m. r_end x \<le> cursor"
  proof (cases m rule: rev_cases)
    case (snoc xs l)
    then have "cursor = r_end l" "nonempty l" "\<forall>x \<in> set xs. r_end x < r_start l"
      using last assms(2,3) by (simp_all add: sorted_wrt_append)
    then show ?thesis using snoc by fastforce
  qed simp
  then show "cover m \<subseteq> {..<cursor}" by (rule cover_below)
  show "m \<noteq> [] \<Longrightarrow> \<exists>x \<in> set m. cursor = r_end x"
    using last last_in_set by blast
qed

lemma carved_unfold:
  assumes "carved start m (cursor, us)"
  shows "start \<le> cursor" "m = [] \<Longrightarrow> cursor = start" "cover us = {start..<cursor} - cover m"
    "separated us" "\<forall>u \<in> set us. nonempty u" "length us \<le> length m"
    "m \<noteq> [] \<Longrightarrow> u \<in> set us \<Longrightarrow> r_end u < cursor"
  using assms by (auto simp: carved_def)

lemma carve_regions_spec:
  assumes "separated m" "length m < ucap"
    and "\<forall>x \<in> set m. nonempty x \<and> r_start ram \<le> r_start x \<and> r_end x \<le> r_end ram"
  shows "cover (carve_regions ucap ram m []) = {r_start ram..<r_end ram} - cover m"
    and "separated (carve_regions ucap ram m [])"
    and "\<forall>u \<in> set (carve_regions ucap ram m []). nonempty u"
proof -
  obtain cursor us where eq: "fold (carve_step ucap) m (r_start ram, []) = (cursor, us)"
    by fastforce
  have st: "carved (r_start ram) m (cursor, us)"
    using carve_fold_spec[of m "r_start ram" ucap] assms eq by auto
  note st' = carved_unfold[OF st]
  have cur: "m \<noteq> [] \<Longrightarrow> cursor \<le> r_end ram"
    using carved_ends(2)[OF st assms(1)] assms(3) by auto
  have below: "cover m \<subseteq> {..<cursor}"
    using carved_ends(1)[OF st assms(1)] assms(3) by simp
  let ?res = "if cursor < r_end ram then us @ [\<lparr>r_start = cursor, r_end = r_end ram\<rparr>] else us"
  have res: "carve_regions ucap ram m [] = ?res"
    using st'(6) assms(2) by (simp add: carve_regions_def eq)
  have "cover ?res = {r_start ram..<r_end ram} - cover m"
  proof (cases "cursor < r_end ram")
    case True
    have "{r_start ram..<r_end ram} - cover m =
        ({r_start ram..<cursor} - cover m) \<union> {cursor..<r_end ram}"
      using True st'(1) below by auto
    then show ?thesis using True st'(3) by simp
  next
    case False
    then have "{r_start ram..<r_end ram} - cover m = {r_start ram..<cursor} - cover m"
      using st'(2) cur by (cases "m = []") auto
    then show ?thesis using False st'(3) by simp
  qed
  moreover have "separated ?res"
    using st'(4,6,7) by (cases "m = []") (auto simp: sorted_wrt_append)
  moreover have "\<forall>u \<in> set ?res. nonempty u"
    using st'(5) by simp
  ultimately show "cover (carve_regions ucap ram m []) = {r_start ram..<r_end ram} - cover m"
    and "separated (carve_regions ucap ram m [])"
    and "\<forall>u \<in> set (carve_regions ucap ram m []). nonempty u"
    unfolding res by blast+
qed

subsection \<open>Endpoints\<close>

text \<open>Every endpoint of a usable region is an endpoint of the RAM or of a reserved region.\<close>

abbreviation ends_in :: "usize set \<Rightarrow> region \<Rightarrow> bool" where
  "ends_in E r \<equiv> r_start r \<in> E \<and> r_end r \<in> E"

lemma fold_all:
  assumes "Q s" "\<And>x s. x \<in> set xs \<Longrightarrow> Q s \<Longrightarrow> Q (f x s)"
  shows "Q (fold f xs s)"
  using assms by (induction xs arbitrary: s) auto

lemma clip_regions_ends:
  assumes "ends_in E ram" "\<forall>r \<in> set rs. ends_in E r"
  shows "\<forall>r \<in> set (clip_regions cap ram rs). ends_in E r"
  unfolding clip_regions_def
  by (rule fold_all) (use assms in \<open>auto simp: Let_def max_def min_def hpush_def split: if_splits\<close>)

lemma merge_regions_ends:
  assumes "\<forall>r \<in> set rs. ends_in E r"
  shows "\<forall>r \<in> set (merge_regions cap rs). ends_in E r"
  unfolding merge_regions_def
proof (rule fold_all)
  fix r m assume r: "r \<in> set rs" and m: "\<forall>x \<in> set m. ends_in E x"
  have "\<forall>x \<in> set (butlast m). ends_in E x" using m by (auto dest: in_set_butlastD)
  moreover have "m \<noteq> [] \<Longrightarrow> ends_in E (last m)" using m by simp
  moreover have "ends_in E r" using assms r by blast
  ultimately show "\<forall>x \<in> set (merge_step cap r m). ends_in E x"
    unfolding merge_step_def using m by (auto simp: hpush_def split: if_splits)
qed simp

lemma carve_regions_ends:
  assumes "ends_in E ram" "\<forall>r \<in> set m. ends_in E r"
  shows "\<forall>r \<in> set (carve_regions cap ram m []). ends_in E r"
proof -
  have "(\<lambda>st. fst st \<in> E \<and> (\<forall>r \<in> set (snd st). ends_in E r)) (fold (carve_step cap) m (r_start ram, []))"
    by (rule fold_all) (use assms in \<open>auto simp: carve_step_def max_def hpush_def split: if_splits\<close>)
  then show ?thesis
    using assms(1) by (cases "fold (carve_step cap) m (r_start ram, [])")
      (auto simp: carve_regions_def hpush_def split: if_splits)
qed

lemma usable_regions_ends:
  assumes "ends_in E ram" "\<forall>r \<in> set reserved. ends_in E r"
  shows "\<forall>u \<in> set (compute_usable_regions rcap ucap ram reserved []). ends_in E u"
  unfolding compute_usable_regions_def
proof (rule carve_regions_ends[OF assms(1)], rule merge_regions_ends)
  show "\<forall>r \<in> set (sort_regions (clip_regions rcap ram reserved)). ends_in E r"
    using clip_regions_ends[OF assms, of rcap] sort_regions_spec(1)[THEN mset_eq_setD] by simp
qed

section \<open>Properties\<close>

lemma usable_regions_spec:
  assumes "length reserved \<le> rcap" "rcap < ucap"
  shows "cover (compute_usable_regions rcap ucap ram reserved []) =
      {r_start ram..<r_end ram} - cover reserved"
    and "separated (compute_usable_regions rcap ucap ram reserved [])"
    and "\<forall>u \<in> set (compute_usable_regions rcap ucap ram reserved []). nonempty u"
proof -
  define c where "c = clip_regions rcap ram reserved"
  define s where "s = sort_regions c"
  define m where "m = merge_regions rcap s"
  note c = clip_regions_spec[OF assms(1), of ram, folded c_def]
  have s: "sorted (map r_start s)" "mset s = mset c"
    by (simp_all add: s_def sort_regions_spec)
  then have sc: "set s = set c" "length s = length c" "cover s = cover c"
    by (auto dest: mset_eq_setD mset_eq_length cover_cong_mset)
  have "\<forall>x \<in> set s. nonempty x" "length s \<le> rcap"
    using c sc assms by auto
  note m = merge_regions_spec[OF s(1) this, folded m_def]
  have within: "\<forall>x \<in> set m. r_start ram \<le> r_start x \<and> r_end x \<le> r_end ram"
  proof
    fix x assume x: "x \<in> set m"
    have "{r_start x..<r_end x} \<subseteq> {r_start ram..<r_end ram}"
      using cover_mem[OF x] m(3) c(2) sc(3) by blast
    then show "r_start ram \<le> r_start x \<and> r_end x \<le> r_end ram"
      using x m(2) by auto
  qed
  have "length m < ucap" using m(4) sc(2) c(1) assms by linarith
  from carve_regions_spec[OF m(1) this] within m(2,3) sc(3) c(2)
  show "cover (compute_usable_regions rcap ucap ram reserved []) =
      {r_start ram..<r_end ram} - cover reserved"
    and "separated (compute_usable_regions rcap ucap ram reserved [])"
    and "\<forall>u \<in> set (compute_usable_regions rcap ucap ram reserved []). nonempty u"
    by (auto simp: compute_usable_regions_def m_def s_def c_def)
qed

text \<open>
  C1: with at most \<open>R\<close> reserved regions and \<open>U > R\<close> result slots, \<open>compute_usable_regions\<close> fills an
  empty result vector with exactly the RAM addresses that no reserved region contains, as
  non-empty regions in increasing order with a gap between any two.
\<close>

theorem compute_usable_regions_correct:
  assumes "length reserved \<le> rcap" "rcap < ucap"
  shows "cover (compute_usable_regions rcap ucap ram reserved []) =
      {r_start ram..<r_end ram} - cover reserved \<and>
    separated (compute_usable_regions rcap ucap ram reserved []) \<and>
    (\<forall>u \<in> set (compute_usable_regions rcap ucap ram reserved []). nonempty u)"
  using usable_regions_spec[OF assms] by blast

theorem compute_usable_regions_correct_witness:
  "let ram = \<lparr>r_start = 0x80000000, r_end = 0x88000000\<rparr>;
       reserved = [\<lparr>r_start = 0x87f00000, r_end = 0x87f02000\<rparr>,
         \<lparr>r_start = 0x80000000, r_end = 0x80200000\<rparr>, \<lparr>r_start = 0x80200000, r_end = 0x80400000\<rparr>];
       usable = compute_usable_regions 16 17 ram reserved []
   in cover usable = {0x80000000..<0x88000000} - cover reserved \<and>
      usable = [\<lparr>r_start = 0x80400000, r_end = 0x87f00000\<rparr>, \<lparr>r_start = 0x87f02000, r_end = 0x88000000\<rparr>]"
proof -
  have sort3: "sort_regions [x, y, z] =
      sort_step 1 2 (sort_step 0 2 (sort_step 0 1 [x, y, z]))" for x y z
    by (simp add: sort_regions_def sort_inner_def upt_conv_Cons sort_step_def swap_at_def)
  show ?thesis
    unfolding Let_def
    using compute_usable_regions_correct[of "[\<lparr>r_start = 0x87f00000, r_end = 0x87f02000\<rparr>,
        \<lparr>r_start = 0x80000000, r_end = 0x80200000\<rparr>, \<lparr>r_start = 0x80200000, r_end = 0x80400000\<rparr>]"
        16 17 "\<lparr>r_start = 0x80000000, r_end = 0x88000000\<rparr>"]
    by (simp add: compute_usable_regions_def clip_regions_def sort3 sort_step_def swap_at_def
        merge_regions_def merge_step_def carve_regions_def carve_step_def)
qed

end
