(* ===== verification/Page_Allocator.thy ===== *)
theory Page_Allocator
  imports Bytes Memory_Regions
begin

text \<open>
  Model of \<open>src/src/page_allocator.rs\<close>. The free list lives in the free pages themselves: a
  \<open>PageNode\<close> at the start of a block holds the next pointer (8 bytes, 0 for \<open>None\<close>) and the page
  count (8 bytes). Allocation takes the last page of the first block. The machine state is the
  byte memory and the allocator's static; the invariant relates the chain of nodes to the set of
  free frames.
\<close>

unbundle bit_operations_syntax

section \<open>State and operations\<close>

record page_allocator =
  pa_head :: "usize option"
  free_pages :: usize
  total_pages :: usize

record machine =
  mmem :: mem
  mpa :: page_allocator

definition node_next :: "mem \<Rightarrow> usize \<Rightarrow> usize option" where
  "node_next m node = (let v = load 8 m node in if v = 0 then None else Some v)"

definition set_node_next :: "mem \<Rightarrow> usize \<Rightarrow> usize option \<Rightarrow> mem" where
  "set_node_next m node nx = store 8 m node (case nx of None \<Rightarrow> 0 | Some a \<Rightarrow> a)"

definition node_count :: "mem \<Rightarrow> usize \<Rightarrow> usize" where
  "node_count m node = load 8 m (node + 8)"

definition set_node_count :: "mem \<Rightarrow> usize \<Rightarrow> usize \<Rightarrow> mem" where
  "set_node_count m node n = store 8 m (node + 8) n"

definition pa_new :: page_allocator where
  "pa_new = \<lparr>pa_head = None, free_pages = 0, total_pages = 0\<rparr>"

definition alloc :: "machine \<Rightarrow> (machine \<times> usize option) option" where
  "alloc st = (case pa_head (mpa st) of
     None \<Rightarrow> Some (st, None)
   | Some node \<Rightarrow> do {
       pc \<leftarrow> usub (node_count (mmem st) node) 1;
       let m1 = set_node_count (mmem st) node pc;
       off \<leftarrow> umul pc PAGE_SIZE;
       addr \<leftarrow> uadd node off;
       let (hd', m2) = (if pc = 0 then (node_next m1 node, set_node_next m1 node None)
                        else (Some node, m1));
       fp \<leftarrow> usub (free_pages (mpa st)) 1;
       Some (\<lparr>mmem = m2, mpa = (mpa st)\<lparr>pa_head := hd', free_pages := fp\<rparr>\<rparr>, Some addr)
     })"

definition dealloc :: "machine \<Rightarrow> usize \<Rightarrow> usize \<Rightarrow> machine option" where
  "dealloc st ptr page_count = do {
     fp \<leftarrow> uadd (free_pages (mpa st)) page_count;
     let m1 = set_node_next (mmem st) ptr (pa_head (mpa st));
     let m2 = set_node_count m1 ptr page_count;
     Some \<lparr>mmem = m2, mpa = (mpa st)\<lparr>pa_head := Some ptr, free_pages := fp\<rparr>\<rparr>
   }"

definition pa_init_region :: "region \<Rightarrow> machine \<Rightarrow> machine option" where
  "pa_init_region r st = do {
     guard_assert (r_start r AND (PAGE_SIZE - 1) = 0);
     guard_assert (r_end r AND (PAGE_SIZE - 1) = 0);
     len \<leftarrow> usub (r_end r) (r_start r);
     page_count \<leftarrow> udiv len PAGE_SIZE;
     s \<leftarrow> umod (r_start r) PAGE_SIZE;
     guard_assert (s = 0);
     e \<leftarrow> umod (r_end r) PAGE_SIZE;
     guard_assert (e = 0);
     dealloc st (r_start r) page_count
   }"

definition pa_init :: "region list \<Rightarrow> machine \<Rightarrow> machine option" where
  "pa_init usable_memory st = do {
     st' \<leftarrow> ofold pa_init_region usable_memory
              (st\<lparr>mpa := (mpa st)\<lparr>pa_head := None, free_pages := 0\<rparr>\<rparr>);
     Some (st'\<lparr>mpa := (mpa st')\<lparr>total_pages := free_pages (mpa st')\<rparr>\<rparr>)
   }"

definition MAX_RESERVED_MEMORY :: nat where
  "MAX_RESERVED_MEMORY = 16"

definition MAX_USABLE_MEMORY :: nat where
  "MAX_USABLE_MEMORY = MAX_RESERVED_MEMORY + 1"

text \<open>
  \<open>init\<close>: the memory map and the reserved regions come from the device tree, here as the
  arguments \<open>memory\<close> and \<open>reserved\<close> (the vector that \<open>collect_memory_map\<close> filled), with the tree's
  \<open>total_size\<close>.
\<close>

definition init_reserved ::
  "usize \<Rightarrow> usize \<Rightarrow> usize \<Rightarrow> region \<Rightarrow> region list \<Rightarrow> region list option" where
  "init_reserved dtb_ptr total_size image_phys_end memory reserved = do {
     image_end \<leftarrow> align_up image_phys_end;
     let r1 = hpush MAX_RESERVED_MEMORY \<lparr>r_start = r_start memory, r_end = image_end\<rparr> reserved;
     dtb_e \<leftarrow> uadd dtb_ptr total_size;
     dtb_end \<leftarrow> align_up dtb_e;
     Some (hpush MAX_RESERVED_MEMORY \<lparr>r_start = align_down dtb_ptr, r_end = dtb_end\<rparr> r1)
   }"

definition page_allocator_init ::
  "usize \<Rightarrow> usize \<Rightarrow> usize \<Rightarrow> region \<Rightarrow> region list \<Rightarrow> machine \<Rightarrow> (machine \<times> region) option" where
  "page_allocator_init dtb_ptr total_size image_phys_end memory reserved st = do {
     rs \<leftarrow> init_reserved dtb_ptr total_size image_phys_end memory reserved;
     let usable = compute_usable_regions MAX_RESERVED_MEMORY MAX_USABLE_MEMORY memory rs [];
     st' \<leftarrow> pa_init usable st;
     Some (st', memory)
   }"

section \<open>Frames and the invariant\<close>

definition block_frames :: "usize \<times> nat \<Rightarrow> usize set" where
  "block_frames b = (\<lambda>k. fst b + 4096 * k) ` {..<snd b}"

definition frames :: "(usize \<times> nat) list \<Rightarrow> usize set" where
  "frames bs = (\<Union>b \<in> set bs. block_frames b)"

definition bytes_of :: "usize set \<Rightarrow> usize set" where
  "bytes_of F = (\<Union>f \<in> F. {f..<f + 4096})"

definition block_ok :: "usize \<times> nat \<Rightarrow> bool" where
  "block_ok b \<longleftrightarrow> 4096 dvd fst b \<and> 0 < fst b \<and> 0 < snd b \<and> fst b + 4096 * snd b < usize_bound"

fun blocks_ok :: "(usize \<times> nat) list \<Rightarrow> bool" where
  "blocks_ok [] \<longleftrightarrow> True"
| "blocks_ok (b # bs) \<longleftrightarrow> block_ok b \<and> block_frames b \<inter> frames bs = {} \<and> blocks_ok bs"

fun chain :: "mem \<Rightarrow> usize option \<Rightarrow> (usize \<times> nat) list \<Rightarrow> bool" where
  "chain m h [] \<longleftrightarrow> h = None"
| "chain m h (b # bs) \<longleftrightarrow> h = Some (fst b) \<and> node_count m (fst b) = snd b \<and>
     chain m (node_next m (fst b)) bs"

definition pa_blocks :: "machine \<Rightarrow> (usize \<times> nat) list \<Rightarrow> bool" where
  "pa_blocks st bs \<longleftrightarrow> chain (mmem st) (pa_head (mpa st)) bs \<and> blocks_ok bs \<and>
     free_pages (mpa st) = sum_list (map snd bs)"

text \<open>The allocator owns exactly the free frames \<open>F\<close>.\<close>

definition pa_inv :: "machine \<Rightarrow> usize set \<Rightarrow> bool" where
  "pa_inv st F \<longleftrightarrow> (\<exists>bs. pa_blocks st bs \<and> F = frames bs)"

lemma frames_Nil [simp]: "frames [] = {}"
  by (simp add: frames_def)

lemma frames_Cons [simp]: "frames (b # bs) = block_frames b \<union> frames bs"
  by (simp add: frames_def)

lemma block_frames_finite [simp]: "finite (block_frames b)"
  by (simp add: block_frames_def)

lemma frames_finite [simp]: "finite (frames bs)"
  by (simp add: frames_def)

lemma bytes_of_Un [simp]: "bytes_of (A \<union> B) = bytes_of A \<union> bytes_of B"
  by (simp add: bytes_of_def)

lemma bytes_of_mono: "A \<subseteq> B \<Longrightarrow> bytes_of A \<subseteq> bytes_of B"
  by (auto simp: bytes_of_def)

lemma block_frames_card: "card (block_frames b) = snd b"
  by (simp add: block_frames_def card_image inj_on_def)

lemma block_frames_dvd: "block_ok b \<Longrightarrow> f \<in> block_frames b \<Longrightarrow> 4096 dvd f"
  by (auto simp: block_ok_def block_frames_def)

lemma block_frames_bounds:
  assumes "block_ok b" "f \<in> block_frames b"
  shows "4096 \<le> f" "f + 4096 < usize_bound"
proof -
  obtain k where k: "f = fst b + 4096 * k" "k < snd b"
    using assms(2) by (auto simp: block_frames_def)
  have "4096 \<le> fst b" using assms(1) by (auto simp: block_ok_def dest: dvd_imp_le)
  then show "4096 \<le> f" using k by simp
  show "f + 4096 < usize_bound" using k assms(1) by (simp add: block_ok_def)
qed

lemma block_start_frame: "block_ok b \<Longrightarrow> fst b \<in> block_frames b"
  by (force simp: block_ok_def block_frames_def image_iff)

lemma frames_props:
  assumes "blocks_ok bs" "f \<in> frames bs"
  shows "4096 dvd f" "4096 \<le> f" "f + 4096 < usize_bound"
  using assms block_frames_dvd block_frames_bounds by (induction bs) auto

lemma frames_card: "blocks_ok bs \<Longrightarrow> card (frames bs) = sum_list (map snd bs)"
  by (induction bs) (simp_all add: card_Un_disjoint block_frames_card)

text \<open>Different frames do not share a byte.\<close>

lemma frame_bytes_disjoint:
  assumes "4096 dvd (f::nat)" "4096 dvd g" "f \<noteq> g"
  shows "{f..<f + 4096} \<inter> {g..<g + 4096} = {}"
  using dvd_gap[OF assms(1,2)] dvd_gap[OF assms(2,1)] assms(3) by (cases "f < g") auto

lemma bytes_of_disjoint:
  assumes "\<forall>f \<in> A \<union> B. 4096 dvd f" "A \<inter> B = {}"
  shows "bytes_of A \<inter> bytes_of B = {}"
proof -
  have "{f..<f + 4096} \<inter> {g..<g + 4096} = {}" if "f \<in> A" "g \<in> B" for f g
    using frame_bytes_disjoint[of f g] assms that by blast
  then show ?thesis unfolding bytes_of_def by blast
qed

lemma chain_cong:
  assumes "blocks_ok bs" "\<forall>x \<in> bytes_of (frames bs). m x = m' x" "chain m h bs"
  shows "chain m' h bs"
  using assms
proof (induction bs arbitrary: h)
  case (Cons b bs)
  have sub: "{fst b..<fst b + 4096} \<subseteq> bytes_of (frames (b # bs))"
    using block_start_frame[of b] Cons.prems(1) by (auto simp: bytes_of_def)
  have "m x = m' x" if "fst b \<le> x" "x < fst b + 16" for x
  proof -
    have "x \<in> {fst b..<fst b + 4096}" using that by simp
    with sub Cons.prems(2) show ?thesis by blast
  qed
  then have "node_count m (fst b) = node_count m' (fst b)" "node_next m (fst b) = node_next m' (fst b)"
    unfolding node_count_def node_next_def
    using load_cong[of "fst b + 8" 8 m m'] load_cong[of "fst b" 8 m m'] by auto
  then show ?case using Cons by auto
qed simp

section \<open>Allocation\<close>

lemma node_count_set: "n < usize_bound \<Longrightarrow> node_count (set_node_count m a n) a = n"
  by (simp add: node_count_def set_node_count_def load_store_same usize_bound_def)

lemma node_next_set_count [simp]: "node_next (set_node_count m a n) a = node_next m a"
  by (simp add: node_next_def set_node_count_def load_store_disjoint)

lemma set_node_count_other: "x < a \<or> a + 16 \<le> x \<Longrightarrow> set_node_count m a n x = m x"
  by (auto simp: set_node_count_def store_other)

lemma set_node_next_other: "x < a \<or> a + 8 \<le> x \<Longrightarrow> set_node_next m a n x = m x"
  by (simp add: set_node_next_def store_other)

lemma node_next_set:
  "nx \<noteq> Some 0 \<Longrightarrow> (\<And>a. nx = Some a \<Longrightarrow> a < usize_bound) \<Longrightarrow> node_next (set_node_next m a nx) a = nx"
  by (cases nx) (simp_all add: node_next_def set_node_next_def load_store_same usize_bound_def)

lemma block_frames_Suc: "block_frames (a, Suc n) = insert (a + 4096 * n) (block_frames (a, n))"
  by (auto simp: block_frames_def lessThan_Suc)

lemma block_last_fresh: "a + 4096 * n \<notin> block_frames (a, n)"
  by (auto simp: block_frames_def)

lemma blocks_ok_Cons_bytes:
  assumes "blocks_ok (b # bs)"
  shows "bytes_of (block_frames b) \<inter> bytes_of (frames bs) = {}"
proof (rule bytes_of_disjoint)
  show "\<forall>f \<in> block_frames b \<union> frames bs. 4096 dvd f"
    using assms block_frames_dvd[of b] frames_props(1)[of bs] by auto
qed (use assms in simp)

text \<open>Writes inside the first block leave the rest of the chain as it is.\<close>

lemma chain_rest:
  assumes "blocks_ok (b # bs)" "chain m h bs" "\<And>x. x < fst b \<or> fst b + 16 \<le> x \<Longrightarrow> m' x = m x"
  shows "chain m' h bs"
proof (rule chain_cong)
  show "blocks_ok bs" using assms(1) by simp
  have "{fst b..<fst b + 4096} \<subseteq> bytes_of (block_frames b)"
    using block_start_frame[of b] assms(1) by (auto simp: bytes_of_def)
  then have "{fst b..<fst b + 4096} \<inter> bytes_of (frames bs) = {}"
    using blocks_ok_Cons_bytes[OF assms(1)] by blast
  moreover have "x \<in> {fst b..<fst b + 4096}" if "\<not> (x < fst b \<or> fst b + 16 \<le> x)" for x
    using that by simp
  ultimately show "\<forall>x \<in> bytes_of (frames bs). m x = m' x"
    using assms(3) by (metis disjoint_iff)
qed (fact assms(2))

lemma alloc_nonempty:
  assumes "pa_blocks st ((a, Suc n) # bs)"
  obtains st' where "alloc st = Some (st', Some (a + 4096 * n))"
    "pa_blocks st' (if n = 0 then bs else (a, n) # bs)"
    "\<forall>x. x < a \<or> a + 16 \<le> x \<longrightarrow> mmem st' x = mmem st x"
    "total_pages (mpa st') = total_pages (mpa st)"
proof -
  have h: "pa_head (mpa st) = Some a" "node_count (mmem st) a = Suc n"
    "chain (mmem st) (node_next (mmem st) a) bs" "blocks_ok ((a, Suc n) # bs)"
    "free_pages (mpa st) = Suc n + sum_list (map snd bs)"
    using assms by (simp_all add: pa_blocks_def)
  have ok: "a + 4096 * Suc n < usize_bound" "0 < a" "4096 dvd a"
    using h(4) by (simp_all add: block_ok_def)
  define m1 where "m1 = set_node_count (mmem st) a n"
  define m2 where "m2 = (if n = 0 then set_node_next m1 a None else m1)"
  define st' where "st' = \<lparr>mmem = m2, mpa = (mpa st)\<lparr>pa_head := if n = 0 then node_next m1 a else Some a,
      free_pages := n + sum_list (map snd bs)\<rparr>\<rparr>"
  have m2: "m2 x = mmem st x" if "x < a \<or> a + 16 \<le> x" for x
    using that by (auto simp: m2_def m1_def set_node_next_other set_node_count_other)
  have rest: "chain m2 (node_next (mmem st) a) bs"
    by (rule chain_rest[OF h(4,3)]) (use m2 in simp)
  have "pa_blocks st' (if n = 0 then bs else (a, n) # bs)"
  proof (cases "n = 0")
    case True
    then show ?thesis
      using rest h(4) by (simp add: pa_blocks_def st'_def m1_def)
  next
    case False
    have "node_count m2 a = n" "node_next m2 a = node_next (mmem st) a"
      using False ok by (simp_all add: m2_def m1_def node_count_set)
    moreover have "blocks_ok ((a, n) # bs)"
      using h(4) False ok by (auto simp: block_ok_def block_frames_Suc)
    ultimately show ?thesis
      using False rest by (simp add: pa_blocks_def st'_def)
  qed
  moreover have "alloc st = Some (st', Some (a + 4096 * n))"
    using h ok by (simp add: alloc_def PAGE_SIZE_def Let_def st'_def m2_def m1_def mult.commute)
  ultimately show thesis
    using that m2 by (simp add: st'_def)
qed

section \<open>The frame allocator interface\<close>

text \<open>
  What the users of the allocator rely on. \<open>inv st F\<close> says that the allocator of state \<open>st\<close> owns the
  frames \<open>F\<close>: they are page aligned, allocation takes one of them and touches only memory of free
  frames, and memory outside \<open>F\<close> is the users' own.
\<close>

fun alloc_many :: "(machine \<Rightarrow> (machine \<times> usize option) option) \<Rightarrow> nat \<Rightarrow> machine \<Rightarrow>
    (machine \<times> usize list) option" where
  "alloc_many op 0 st = Some (st, [])"
| "alloc_many op (Suc n) st = do {
     (st1, p) \<leftarrow> op st;
     a \<leftarrow> p;
     (st2, ps) \<leftarrow> alloc_many op n st1;
     Some (st2, a # ps)
   }"

locale frame_allocator =
  fixes inv :: "machine \<Rightarrow> usize set \<Rightarrow> bool"
    and alloc_op :: "machine \<Rightarrow> (machine \<times> usize option) option"
  assumes inv_frame: "inv st F \<Longrightarrow> f \<in> F \<Longrightarrow> 4096 dvd f \<and> 4096 \<le> f \<and> f + 4096 < usize_bound"
    and inv_finite: "inv st F \<Longrightarrow> finite F"
    and alloc_empty: "inv st {} \<Longrightarrow> alloc_op st = Some (st, None)"
    and alloc_some: "inv st F \<Longrightarrow> F \<noteq> {} \<Longrightarrow> \<exists>st' f. alloc_op st = Some (st', Some f) \<and> f \<in> F \<and>
        inv st' (F - {f}) \<and> (\<forall>x. x \<notin> bytes_of F \<longrightarrow> mmem st' x = mmem st x)"
    and inv_mem: "inv st F \<Longrightarrow> (\<And>x. x \<in> bytes_of F \<Longrightarrow> m x = mmem st x) \<Longrightarrow> inv (st\<lparr>mmem := m\<rparr>) F"
begin

lemma alloc_ok:
  assumes "inv st F"
  shows "\<exists>st' p. alloc_op st = Some (st', p) \<and> (p = None \<longleftrightarrow> F = {})"
  using alloc_some[OF assms] alloc_empty assms by (cases "F = {}") auto

lemma alloc_many_distinct:
  assumes "inv st F" "n \<le> card F"
  shows "\<exists>st' ps. alloc_many alloc_op n st = Some (st', ps) \<and> length ps = n \<and> distinct ps \<and>
    set ps \<subseteq> F \<and> inv st' (F - set ps) \<and> (\<forall>x. x \<notin> bytes_of F \<longrightarrow> mmem st' x = mmem st x)"
  using assms
proof (induction n arbitrary: st F)
  case (Suc n)
  then have "F \<noteq> {}" by auto
  then obtain st1 f where 1: "alloc_op st = Some (st1, Some f)" "f \<in> F" "inv st1 (F - {f})"
    "\<forall>x. x \<notin> bytes_of F \<longrightarrow> mmem st1 x = mmem st x"
    using alloc_some[OF Suc.prems(1)] by blast
  have "n \<le> card (F - {f})"
    using Suc.prems inv_finite[OF Suc.prems(1)] 1(2) by simp
  then obtain st2 ps where 2: "alloc_many alloc_op n st1 = Some (st2, ps)" "length ps = n" "distinct ps"
    "set ps \<subseteq> F - {f}" "inv st2 (F - {f} - set ps)"
    "\<forall>x. x \<notin> bytes_of (F - {f}) \<longrightarrow> mmem st2 x = mmem st1 x"
    using Suc.IH[OF 1(3)] by blast
  have "F - {f} - set ps = F - set (f # ps)" by auto
  moreover have "bytes_of (F - {f}) \<subseteq> bytes_of F" by (rule bytes_of_mono) auto
  ultimately show ?case
    using 1 2 by (intro exI[of _ st2] exI[of _ "f # ps"]) auto
qed (auto simp: inv_finite)

end

lemma pa_inv_alloc_some:
  assumes "pa_inv st F" "F \<noteq> {}"
  shows "\<exists>st' f. alloc st = Some (st', Some f) \<and> f \<in> F \<and> pa_inv st' (F - {f}) \<and>
    (\<forall>x. x \<notin> bytes_of F \<longrightarrow> mmem st' x = mmem st x)"
proof -
  obtain bs where bs: "pa_blocks st bs" "F = frames bs" using assms(1) by (auto simp: pa_inv_def)
  then obtain a k cs where cons: "bs = (a, k) # cs" using assms(2) by (cases bs) auto
  have ok: "blocks_ok bs" using bs(1) by (simp add: pa_blocks_def)
  then obtain n where k: "k = Suc n" using cons by (cases k) (auto simp: block_ok_def)
  obtain st' where st': "alloc st = Some (st', Some (a + 4096 * n))"
    "pa_blocks st' (if n = 0 then cs else (a, n) # cs)"
    "\<forall>x. x < a \<or> a + 16 \<le> x \<longrightarrow> mmem st' x = mmem st x"
    using alloc_nonempty[of st a n cs] bs(1) cons k by blast
  have F: "F = insert (a + 4096 * n) (block_frames (a, n)) \<union> frames cs"
    using bs(2) cons k by (simp add: block_frames_Suc)
  moreover have "a + 4096 * n \<notin> frames cs"
    using ok cons k by (auto simp: block_frames_Suc)
  ultimately have diff: "F - {a + 4096 * n} = frames (if n = 0 then cs else (a, n) # cs)"
    using block_last_fresh[of a n] by (auto simp: block_frames_def)
  have "a \<in> F" using block_start_frame[of "(a, k)"] ok bs(2) cons by simp
  then have "{a..<a + 16} \<subseteq> bytes_of F" by (force simp: bytes_of_def)
  then have "\<forall>x. x \<notin> bytes_of F \<longrightarrow> mmem st' x = mmem st x"
    using st'(3) by (metis atLeastLessThan_iff in_mono leI)
  moreover have "pa_inv st' (F - {a + 4096 * n})"
    using st'(2) diff by (auto simp: pa_inv_def)
  ultimately show ?thesis using st'(1) F by blast
qed

interpretation frames: frame_allocator pa_inv alloc
proof
  fix st F f m
  show "pa_inv st F \<Longrightarrow> f \<in> F \<Longrightarrow> 4096 dvd f \<and> 4096 \<le> f \<and> f + 4096 < usize_bound"
    using frames_props by (auto simp: pa_inv_def pa_blocks_def)
  show "pa_inv st F \<Longrightarrow> finite F" by (auto simp: pa_inv_def)
  show "pa_inv st {} \<Longrightarrow> alloc st = Some (st, None)"
  proof -
    assume "pa_inv st {}"
    then obtain bs where bs: "pa_blocks st bs" "frames bs = {}" by (auto simp: pa_inv_def)
    then have "bs = []"
      using block_start_frame by (cases bs) (auto simp: pa_blocks_def)
    then show ?thesis using bs(1) by (simp add: pa_blocks_def alloc_def)
  qed
  show "pa_inv st F \<Longrightarrow> F \<noteq> {} \<Longrightarrow> \<exists>st' f. alloc st = Some (st', Some f) \<and> f \<in> F \<and>
      pa_inv st' (F - {f}) \<and> (\<forall>x. x \<notin> bytes_of F \<longrightarrow> mmem st' x = mmem st x)"
    by (rule pa_inv_alloc_some)
  show "pa_inv st F \<Longrightarrow> (\<And>x. x \<in> bytes_of F \<Longrightarrow> m x = mmem st x) \<Longrightarrow> pa_inv (st\<lparr>mmem := m\<rparr>) F"
    using chain_cong[of _ "mmem st" m] by (fastforce simp: pa_inv_def pa_blocks_def)
qed

section \<open>Deallocation and initialisation\<close>

lemma pa_inv_card: "pa_inv st F \<Longrightarrow> free_pages (mpa st) = card F"
  by (auto simp: pa_inv_def pa_blocks_def frames_card)

lemma blocks_ok_count: "blocks_ok bs \<Longrightarrow> sum_list (map snd bs) < usize_bound"
proof -
  assume ok: "blocks_ok bs"
  have "frames bs \<subseteq> (\<lambda>k. 4096 * k) ` {..<2 ^ 52}"
  proof
    fix f assume f: "f \<in> frames bs"
    obtain k where "f = 4096 * k" using frames_props(1)[OF ok f] by (auto elim: dvdE)
    moreover have "k < 2 ^ 52"
      using frames_props(3)[OF ok f] calculation by (simp add: usize_bound_def)
    ultimately show "f \<in> (\<lambda>k. 4096 * k) ` {..<2 ^ 52}" by simp
  qed
  from card_mono[OF _ this] have "card (frames bs) \<le> card ((\<lambda>k::nat. 4096 * k) ` {..<2 ^ 52})" by simp
  also have "\<dots> = 2 ^ 52" by (simp add: card_image inj_on_def)
  finally show ?thesis using frames_card[OF ok] by (simp add: usize_bound_def)
qed

lemma dealloc_spec:
  assumes "pa_inv st F" "block_ok (ptr, n)" "block_frames (ptr, n) \<inter> F = {}"
  obtains st' where "dealloc st ptr n = Some st'" "pa_inv st' (block_frames (ptr, n) \<union> F)"
    "\<forall>x. x < ptr \<or> ptr + 16 \<le> x \<longrightarrow> mmem st' x = mmem st x"
proof -
  obtain bs where bs: "pa_blocks st bs" "F = frames bs" using assms(1) by (auto simp: pa_inv_def)
  have ok: "blocks_ok ((ptr, n) # bs)" using bs assms by (simp add: pa_blocks_def)
  define m2 where "m2 = set_node_count (set_node_next (mmem st) ptr (pa_head (mpa st))) ptr n"
  define st' where "st' = \<lparr>mmem = m2,
      mpa = (mpa st)\<lparr>pa_head := Some ptr, free_pages := sum_list (map snd bs) + n\<rparr>\<rparr>"
  have other: "m2 x = mmem st x" if "x < ptr \<or> ptr + 16 \<le> x" for x
    using that by (auto simp: m2_def set_node_next_other set_node_count_other)
  have head: "pa_head (mpa st) \<noteq> Some 0" "\<And>a. pa_head (mpa st) = Some a \<Longrightarrow> a < usize_bound"
    using bs(1) by (cases bs; auto simp: pa_blocks_def block_ok_def)+
  have "node_next m2 ptr = pa_head (mpa st)" "node_count m2 ptr = n"
    using node_next_set[OF head] assms(2) by (simp_all add: m2_def node_count_set block_ok_def)
  moreover have "chain m2 (pa_head (mpa st)) bs"
    by (rule chain_rest[OF ok]) (use bs other in \<open>simp_all add: pa_blocks_def\<close>)
  ultimately have "pa_blocks st' ((ptr, n) # bs)"
    using ok by (simp add: pa_blocks_def st'_def)
  then have "pa_inv st' (block_frames (ptr, n) \<union> F)"
    unfolding pa_inv_def bs(2) by (metis frames_Cons)
  moreover have "dealloc st ptr n = Some st'"
    using blocks_ok_count[OF ok] bs(1)
    by (simp add: dealloc_def st'_def m2_def pa_blocks_def add.commute Let_def)
  ultimately show thesis using that other by (simp add: st'_def)
qed

lemma page_aligned_mask: "a AND 4095 = 0 \<longleftrightarrow> 4096 dvd (a::nat)"
  using and_mask_mod[of a 12] by (simp add: dvd_eq_mod_eq_0)

definition region_frames :: "region \<Rightarrow> usize set" where
  "region_frames r = block_frames (r_start r, (r_end r - r_start r) div 4096)"

definition region_ok :: "region \<Rightarrow> bool" where
  "region_ok r \<longleftrightarrow> 4096 dvd r_start r \<and> 4096 dvd r_end r \<and> 0 < r_start r \<and> nonempty r \<and>
     r_end r < usize_bound"

lemma region_block:
  assumes "region_ok r"
  shows "block_ok (r_start r, (r_end r - r_start r) div 4096)"
    and "bytes_of (region_frames r) = {r_start r..<r_end r}"
proof -
  have le: "r_start r < r_end r" and "4096 dvd r_end r - r_start r"
    using assms by (simp_all add: region_ok_def)
  then obtain k where k': "r_end r - r_start r = 4096 * k" by (blast elim: dvdE)
  have k: "r_end r = r_start r + 4096 * k" "0 < k" using k' le by linarith+
  then show "block_ok (r_start r, (r_end r - r_start r) div 4096)"
    using assms by (simp add: region_ok_def block_ok_def)
  have "{a..<a + 4096 * k} = (\<Union>i<k. {a + 4096 * i..<a + 4096 * i + 4096})" for a
  proof (induction k)
    case (Suc k)
    have "{a..<a + 4096 * Suc k} = {a..<a + 4096 * k} \<union> {a + 4096 * k..<a + 4096 * k + 4096}"
      by auto
    with Suc show ?case by (simp add: lessThan_Suc Un_commute)
  qed simp
  then show "bytes_of (region_frames r) = {r_start r..<r_end r}"
    by (simp add: region_frames_def k(1) block_frames_def bytes_of_def)
qed

lemma pa_init_region_spec:
  assumes "pa_inv st F" "region_ok r" "bytes_of F \<inter> {r_start r..<r_end r} = {}"
  shows "\<exists>st'. pa_init_region r st = Some st' \<and> pa_inv st' (region_frames r \<union> F)"
proof -
  have "f \<in> bytes_of G" if "f \<in> G" for f G using that by (force simp: bytes_of_def)
  then have disj: "region_frames r \<inter> F = {}"
    using assms(3) region_block(2)[OF assms(2)] by blast
  obtain st' where "dealloc st (r_start r) ((r_end r - r_start r) div 4096) = Some st'"
    "pa_inv st' (region_frames r \<union> F)"
    using dealloc_spec[OF assms(1) region_block(1)[OF assms(2)]] disj
    by (metis region_frames_def)
  then show ?thesis
    using assms(2)
    by (simp add: pa_init_region_def PAGE_SIZE_def page_aligned_mask region_ok_def
        flip: dvd_eq_mod_eq_0)
qed

lemma pa_init_fold:
  assumes "\<forall>r \<in> set us. region_ok r" "separated us" "pa_inv st F" "bytes_of F \<inter> cover us = {}"
  shows "\<exists>st' F'. ofold pa_init_region us st = Some st' \<and> pa_inv st' F' \<and> bytes_of F' = bytes_of F \<union> cover us"
  using assms
proof (induction us arbitrary: st F)
  case (Cons r us)
  have r: "region_ok r" "nonempty r" using Cons.prems(1) by (simp_all add: region_ok_def)
  have gap: "{r_start r..<r_end r} \<inter> cover us = {}"
    using Cons.prems(2) by (fastforce simp: cover_def)
  obtain st1 where st1: "pa_init_region r st = Some st1" "pa_inv st1 (region_frames r \<union> F)"
    using pa_init_region_spec[OF Cons.prems(3) r(1)] Cons.prems(4) by auto
  have "bytes_of (region_frames r \<union> F) \<inter> cover us = {}"
    using gap Cons.prems(4) region_block(2)[OF r(1)] by auto
  then obtain st' F' where "ofold pa_init_region us st1 = Some st'" "pa_inv st' F'"
    "bytes_of F' = bytes_of (region_frames r \<union> F) \<union> cover us"
    using Cons.IH[OF _ _ st1(2)] Cons.prems(1,2) by auto
  then show ?case
    using st1(1) region_block(2)[OF r(1)] by auto
qed auto

lemma pa_init_spec:
  assumes "\<forall>r \<in> set us. region_ok r" "separated us"
  shows "\<exists>st' F. pa_init us st = Some st' \<and> pa_inv st' F \<and> bytes_of F = cover us \<and>
    total_pages (mpa st') = card F"
proof -
  let ?st0 = "st\<lparr>mpa := (mpa st)\<lparr>pa_head := None, free_pages := 0\<rparr>\<rparr>"
  have "pa_inv ?st0 {}"
    by (auto simp: pa_inv_def pa_blocks_def intro!: exI[of _ "[]"])
  then obtain st' F where st': "ofold pa_init_region us ?st0 = Some st'" "pa_inv st' F"
    "bytes_of F = cover us"
    using pa_init_fold[OF assms, of ?st0 "{}"] by (auto simp: bytes_of_def)
  moreover have "pa_inv (st'\<lparr>mpa := (mpa st')\<lparr>total_pages := t\<rparr>\<rparr>) F" for t
    using st'(2) by (simp add: pa_inv_def pa_blocks_def)
  ultimately show ?thesis
    using pa_inv_card[OF st'(2)]
    by (intro exI[of _ "st'\<lparr>mpa := (mpa st')\<lparr>total_pages := card F\<rparr>\<rparr>"] exI[of _ F]) (simp add: pa_init_def)
qed

section \<open>Properties\<close>

text \<open>
  C2: allocation on a non-empty allocator returns one of the free frames, removes exactly that
  frame from the free set, counts it, and writes only to memory of frames that were free.
\<close>

theorem alloc_takes_free_frame:
  assumes "pa_inv st F" "F \<noteq> {}"
  shows "\<exists>st' f. alloc st = Some (st', Some f) \<and> f \<in> F \<and> pa_inv st' (F - {f}) \<and>
    free_pages (mpa st') = card F - 1 \<and> (\<forall>x. x \<notin> bytes_of F \<longrightarrow> mmem st' x = mmem st x)"
proof -
  obtain st' f where "alloc st = Some (st', Some f)" "f \<in> F" "pa_inv st' (F - {f})"
    "\<forall>x. x \<notin> bytes_of F \<longrightarrow> mmem st' x = mmem st x"
    using frames.alloc_some[OF assms] by blast
  then show ?thesis
    using pa_inv_card[of st' "F - {f}"] by auto
qed

definition demo_machine :: machine where
  "demo_machine = \<lparr>mmem = store 8 (\<lambda>_. 0) (0x80200000 + 8) 3,
     mpa = \<lparr>pa_head = Some 0x80200000, free_pages = 3, total_pages = 3\<rparr>\<rparr>"

lemma demo_machine_inv: "pa_inv demo_machine {0x80200000, 0x80201000, 0x80202000}"
proof -
  have "node_next (mmem demo_machine) 0x80200000 = None"
    by (simp add: demo_machine_def node_next_def load_store_disjoint)
      (simp add: load_def load_bytes_def upt_rec)
  moreover have "node_count (mmem demo_machine) 0x80200000 = 3"
    by (simp add: demo_machine_def node_count_def load_store_same)
  ultimately have "pa_blocks demo_machine [(0x80200000, 3)]"
    by (simp add: pa_blocks_def block_ok_def usize_bound_def) (simp add: demo_machine_def)
  moreover have "frames [(0x80200000, 3)] = {0x80200000, 0x80201000, 0x80202000}"
    by (auto simp: block_frames_def numeral_3_eq_3 lessThan_Suc)
  ultimately show ?thesis unfolding pa_inv_def by metis
qed

theorem alloc_takes_free_frame_witness:
  "\<exists>st' f. alloc demo_machine = Some (st', Some f) \<and> f \<in> {0x80200000, 0x80201000, 0x80202000} \<and>
     free_pages (mpa st') = 2"
  using alloc_takes_free_frame[OF demo_machine_inv] by auto

text \<open>
  C3: boot-time initialisation. With page-aligned RAM and reserved regions, at most 14 regions
  reserved by the device tree, and no address overflow, \<open>init\<close> does not panic and the allocator
  then owns exactly the RAM outside the reserved regions, the kernel image and the device tree.
\<close>

theorem page_allocator_init_owns_usable:
  assumes "ends_in {a. 4096 dvd a} memory" "\<forall>r \<in> set reserved. ends_in {a. 4096 dvd a} r"
    and "length reserved \<le> 14" "0 < r_start memory" "r_end memory < usize_bound"
    and "align_up image_phys_end = Some image_end"
    and "dtb_ptr + total_size < usize_bound" "align_up (dtb_ptr + total_size) = Some dtb_end"
  shows "\<exists>st' F. page_allocator_init dtb_ptr total_size image_phys_end memory reserved st = Some (st', memory) \<and>
    pa_inv st' F \<and> total_pages (mpa st') = card F \<and>
    bytes_of F = {r_start memory..<r_end memory} -
      (cover reserved \<union> {r_start memory..<image_end} \<union> {align_down dtb_ptr..<dtb_end})"
proof -
  let ?E = "{a. 4096 dvd a}"
  define rs where "rs = reserved @ [\<lparr>r_start = r_start memory, r_end = image_end\<rparr>,
      \<lparr>r_start = align_down dtb_ptr, r_end = dtb_end\<rparr>]"
  define us where "us = compute_usable_regions 16 17 memory rs []"
  have init: "init_reserved dtb_ptr total_size image_phys_end memory reserved = Some rs"
    using assms(3,6-8) by (simp add: init_reserved_def rs_def MAX_RESERVED_MEMORY_def)
  have "length rs \<le> 16" using assms(3) by (simp add: rs_def)
  note spec = usable_regions_spec[OF this, of 17 memory, simplified, folded us_def]
  have "dtb_ptr < usize_bound" using assms(7) by linarith
  then have "\<forall>r \<in> set rs. ends_in ?E r"
    using assms(1,2) align_up_bounds(3)[OF assms(6)] align_up_bounds(3)[OF assms(8)]
      align_down_bounds(3)[of dtb_ptr] by (simp add: rs_def)
  then have ends: "\<forall>u \<in> set us. ends_in ?E u"
    unfolding us_def by (rule usable_regions_ends[OF assms(1)])
  have "region_ok u" if u: "u \<in> set us" for u
  proof -
    have "{r_start u..<r_end u} \<subseteq> {r_start memory..<r_end memory}"
      using cover_mem[OF u] spec(1) by blast
    moreover have "nonempty u" using spec(3) u by blast
    ultimately have "r_start memory \<le> r_start u" "r_end u \<le> r_end memory" "nonempty u"
      by (simp_all add: atLeastLessThan_subset_iff)
    moreover have "4096 dvd r_start u" "4096 dvd r_end u" using ends u by blast+
    ultimately show ?thesis using assms(4,5) by (simp add: region_ok_def)
  qed
  then obtain st' F where "pa_init us st = Some st'" "pa_inv st' F" "bytes_of F = cover us"
    "total_pages (mpa st') = card F"
    using pa_init_spec[OF _ spec(2)] by blast
  moreover have "cover rs = cover reserved \<union> {r_start memory..<image_end} \<union> {align_down dtb_ptr..<dtb_end}"
    by (simp add: rs_def Un_assoc)
  ultimately show ?thesis
    using spec(1) init
    by (intro exI[of _ st'] exI[of _ F]) (simp add: page_allocator_init_def us_def Let_def MAX_USABLE_MEMORY_def MAX_RESERVED_MEMORY_def)
qed

theorem page_allocator_init_owns_usable_witness:
  "\<exists>st' F. page_allocator_init 0x87e00000 0x1f00 0x80655123
      \<lparr>r_start = 0x80000000, r_end = 0x88000000\<rparr> [\<lparr>r_start = 0x80000000, r_end = 0x80080000\<rparr>]
      \<lparr>mmem = (\<lambda>_. 0), mpa = pa_new\<rparr> = Some (st', \<lparr>r_start = 0x80000000, r_end = 0x88000000\<rparr>) \<and>
    pa_inv st' F \<and> 0x80700000 \<in> bytes_of F \<and> 0x80655123 \<notin> bytes_of F"
proof -
  have "align_up 0x80655123 = Some 0x80656000" "align_up (0x87e00000 + 0x1f00) = Some 0x87e02000"
    "align_down 0x87e00000 = 0x87e00000"
    by (simp_all add: align_up_Some_iff align_down_eq usize_bound_def)
  with page_allocator_init_owns_usable[where image_end = "0x80656000" and dtb_end = "0x87e02000" and memory = "\<lparr>r_start = 0x80000000, r_end = 0x88000000\<rparr>"
      and reserved = "[\<lparr>r_start = 0x80000000, r_end = 0x80080000\<rparr>]" and image_phys_end = "0x80655123"
      and dtb_ptr = "0x87e00000" and total_size = "0x1f00" and st = "\<lparr>mmem = (\<lambda>_. 0), mpa = pa_new\<rparr>"]
  show ?thesis by (fastforce simp: usize_bound_def)
qed

end
