(* ===== verification/Page_Table.thy ===== *)
theory Page_Table
  imports Page_Allocator "HOL-Library.Sublist"
begin

text \<open>
  Model of \<open>src/src/page_mapper.rs\<close>: Sv39 page table entries, the mapping loop that allocates
  intermediate tables, and the software walk \<open>virt_to_phys\<close>. Entries are 64-bit words stored
  little-endian in the byte memory that the page allocator shares. The proofs view the tables as a
  tree indexed by paths of page numbers: a write to one entry changes exactly the translations
  below it.
\<close>

unbundle bit_operations_syntax

section \<open>Entries\<close>

datatype page_size = Size4K | Size2M | Size1G

fun ps_size :: "page_size \<Rightarrow> usize" where
  "ps_size Size4K = 4 * 1024"
| "ps_size Size2M = 2 * 1024 * 1024"
| "ps_size Size1G = 1024 * 1024 * 1024"

fun ps_level :: "page_size \<Rightarrow> nat" where
  "ps_level Size4K = 0"
| "ps_level Size2M = 1"
| "ps_level Size1G = 2"

type_synonym page_flags = u64

definition PF_VALID :: page_flags where "PF_VALID = push_bit 0 1"
definition PF_READ :: page_flags where "PF_READ = push_bit 1 1"
definition PF_WRITE :: page_flags where "PF_WRITE = push_bit 2 1"
definition PF_EXECUTE :: page_flags where "PF_EXECUTE = push_bit 3 1"
definition PF_USER :: page_flags where "PF_USER = push_bit 4 1"
definition PF_GLOBAL :: page_flags where "PF_GLOBAL = push_bit 5 1"
definition PF_ACCESSED :: page_flags where "PF_ACCESSED = push_bit 6 1"
definition PF_DIRTY :: page_flags where "PF_DIRTY = push_bit 7 1"
definition THEAD_MEMORY :: page_flags where "THEAD_MEMORY = push_bit 59 0x0F"
definition THEAD_SO :: page_flags where "THEAD_SO = push_bit 63 1"
definition THEAD_C :: page_flags where "THEAD_C = push_bit 62 1"
definition THEAD_B :: page_flags where "THEAD_B = push_bit 61 1"

definition pf_empty :: page_flags where
  "pf_empty = 0"

definition pf_intersects :: "page_flags \<Rightarrow> page_flags \<Rightarrow> bool" where
  "pf_intersects a b \<longleftrightarrow> a AND b \<noteq> 0"

type_synonym pte = u64

definition phys_to_ppn :: "u64 \<Rightarrow> u64" where
  "phys_to_ppn addr = drop_bit 12 addr AND 0x000fffffffff"

definition pte_set :: "usize \<Rightarrow> page_flags \<Rightarrow> pte" where
  "pte_set phys_addr flags =
     (let ppn = phys_to_ppn (word_of_nat phys_addr);
          page_flags = flags OR PF_VALID;
          leaf = pf_intersects flags (PF_READ OR PF_WRITE OR PF_EXECUTE);
          page_flags' = (if \<not> leaf then page_flags AND 0x0FFFFFFFFFFFFFFF else page_flags)
      in push_bit 10 ppn OR page_flags')"

definition pte_is_valid :: "pte \<Rightarrow> bool" where
  "pte_is_valid e \<longleftrightarrow> e AND PF_VALID \<noteq> 0"

definition pte_flags :: "pte \<Rightarrow> page_flags" where
  "pte_flags e = e AND 0x3ff"

definition pte_is_leaf :: "pte \<Rightarrow> bool" where
  "pte_is_leaf e \<longleftrightarrow> pte_flags e AND (PF_READ OR PF_WRITE OR PF_EXECUTE) \<noteq> 0"

definition pte_addr :: "pte \<Rightarrow> usize" where
  "pte_addr e = unat (push_bit 12 (drop_bit 10 e AND 0x00000fffffffffff))"

definition pte_set_user_flag :: "pte \<Rightarrow> pte" where
  "pte_set_user_flag e = e OR PF_USER"

definition vpn2 :: "usize \<Rightarrow> nat" where
  "vpn2 a = drop_bit 30 a AND 0x1ff"

definition vpn1 :: "usize \<Rightarrow> nat" where
  "vpn1 a = drop_bit 21 a AND 0x1ff"

definition vpn0 :: "usize \<Rightarrow> nat" where
  "vpn0 a = drop_bit 12 a AND 0x1ff"

section \<open>Tables in memory\<close>

definition read_pte :: "mem \<Rightarrow> usize \<Rightarrow> nat \<Rightarrow> pte" where
  "read_pte m table i = word_of_nat (load 8 m (table + 8 * i))"

definition write_pte :: "mem \<Rightarrow> usize \<Rightarrow> nat \<Rightarrow> pte \<Rightarrow> mem" where
  "write_pte m table i e = store 8 m (table + 8 * i) (unat e)"

definition zero_page :: "mem \<Rightarrow> usize \<Rightarrow> mem" where
  "zero_page m a = (\<lambda>x. if a \<le> x \<and> x < a + 4096 then 0 else m x)"

definition alloc_next_level :: "machine \<Rightarrow> usize \<Rightarrow> nat \<Rightarrow> (machine \<times> usize) option" where
  "alloc_next_level st table i = do {
     (st1, p) \<leftarrow> alloc st;
     new_frame \<leftarrow> p;
     let m1 = zero_page (mmem st1) new_frame;
     let m2 = write_pte m1 table i (pte_set new_frame pf_empty);
     Some (st1\<lparr>mmem := m2\<rparr>, new_frame)
   }"

definition mapper_new :: "machine \<Rightarrow> (machine \<times> usize) option" where
  "mapper_new st = do {
     (st1, p) \<leftarrow> alloc st;
     root_frame \<leftarrow> p;
     Some (st1\<lparr>mmem := zero_page (mmem st1) root_frame\<rparr>, root_frame)
   }"

definition satp_value :: "usize \<Rightarrow> u64" where
  "satp_value root = push_bit 60 8 OR drop_bit 12 (word_of_nat root)"

definition next_table :: "machine \<Rightarrow> usize \<Rightarrow> nat \<Rightarrow> (machine \<times> usize) option" where
  "next_table st table i =
     (let e = read_pte (mmem st) table i in
      if \<not> pte_is_valid e then alloc_next_level st table i else Some (st, pte_addr e))"

definition set_entry :: "machine \<Rightarrow> usize \<Rightarrow> nat \<Rightarrow> usize \<Rightarrow> page_flags \<Rightarrow> machine" where
  "set_entry st table i phys flags = st\<lparr>mmem := write_pte (mmem st) table i (pte_set phys flags)\<rparr>"

definition map_one :: "machine \<Rightarrow> usize \<Rightarrow> usize \<Rightarrow> usize \<Rightarrow> page_flags \<Rightarrow> nat \<Rightarrow> machine option" where
  "map_one st root virt phys flags leaf_level =
     (if leaf_level = 2 then Some (set_entry st root (vpn2 virt) phys flags)
      else do {
        (st1, t1) \<leftarrow> next_table st root (vpn2 virt);
        if leaf_level = 1 then Some (set_entry st1 t1 (vpn1 virt) phys flags)
        else do {
          (st2, t0) \<leftarrow> next_table st1 t1 (vpn1 virt);
          Some (set_entry st2 t0 (vpn0 virt) phys flags)
        }
      })"

function map_loop :: "machine \<Rightarrow> usize \<Rightarrow> usize \<Rightarrow> usize \<Rightarrow> usize \<Rightarrow> usize \<Rightarrow> page_flags \<Rightarrow> page_size \<Rightarrow>
    machine option" where
  "map_loop st root virt_start phys_start sz offset flags page_size =
     (if offset < sz then do {
        virt \<leftarrow> uadd virt_start offset;
        phys \<leftarrow> uadd phys_start offset;
        st' \<leftarrow> map_one st root virt phys flags (ps_level page_size);
        offset' \<leftarrow> uadd offset (ps_size page_size);
        map_loop st' root virt_start phys_start sz offset' flags page_size
      } else Some st)"
  by pat_completeness auto
termination
proof (relation "measure (\<lambda>(st, root, vs, ps, sz, offset, fl, pz). sz - offset)", goal_cases)
  case (2 st root vs ps sz offset fl pz v p st' offset')
  have "0 < ps_size pz" by (cases pz) simp_all
  with 2 show ?case by (auto dest!: uadd_SomeD)
qed simp

definition map_range ::
  "machine \<Rightarrow> usize \<Rightarrow> usize \<Rightarrow> usize \<Rightarrow> usize \<Rightarrow> page_flags \<Rightarrow> page_size \<Rightarrow> machine option" where
  "map_range st root virt_start phys_start end_addr flags page_size = do {
     let step = ps_size page_size;
     guard_assert (virt_start mod step = 0);
     guard_assert (phys_start mod step = 0);
     guard_assert (end_addr mod step = 0);
     sz \<leftarrow> usub end_addr virt_start;
     map_loop st root virt_start phys_start sz 0 flags page_size
   }"

declare map_loop.simps [simp del]

definition alloc_and_map_one ::
  "usize \<Rightarrow> usize \<Rightarrow> page_flags \<Rightarrow> bool \<Rightarrow> nat \<Rightarrow> machine \<Rightarrow> machine option" where
  "alloc_and_map_one root virt flags zero i st = do {
     (st1, p) \<leftarrow> alloc st;
     phys \<leftarrow> p;
     let st2 = (if zero then st1\<lparr>mmem := zero_page (mmem st1) phys\<rparr> else st1);
     off \<leftarrow> umul i PAGE_SIZE;
     virt_addr \<leftarrow> uadd virt off;
     e \<leftarrow> uadd virt_addr PAGE_SIZE;
     map_range st2 root virt_addr phys e flags Size4K
   }"

definition allocate_and_map_pages_impl ::
  "machine \<Rightarrow> usize \<Rightarrow> usize \<Rightarrow> usize \<Rightarrow> page_flags \<Rightarrow> bool \<Rightarrow> machine option" where
  "allocate_and_map_pages_impl st root virt sz flags zero =
     ofold (alloc_and_map_one root virt flags zero) [0..<sz div PAGE_SIZE] st"

definition allocate_and_map_pages :: "machine \<Rightarrow> usize \<Rightarrow> usize \<Rightarrow> usize \<Rightarrow> page_flags \<Rightarrow> machine option" where
  "allocate_and_map_pages st root virt sz flags = allocate_and_map_pages_impl st root virt sz flags False"

definition allocate_and_map_pages_zeroed ::
  "machine \<Rightarrow> usize \<Rightarrow> usize \<Rightarrow> usize \<Rightarrow> page_flags \<Rightarrow> machine option" where
  "allocate_and_map_pages_zeroed st root virt sz flags = allocate_and_map_pages_impl st root virt sz flags True"

definition set_l1_page_table_for_phys :: "machine \<Rightarrow> usize \<Rightarrow> usize \<Rightarrow> usize \<Rightarrow> machine option" where
  "set_l1_page_table_for_phys st root phys_addr l1_table = do {
     (st1, t1) \<leftarrow> next_table st root (vpn2 phys_addr);
     Some (set_entry st1 t1 (vpn1 phys_addr) l1_table PF_VALID)
   }"

definition l1_page_table_from_phys :: "mem \<Rightarrow> usize \<Rightarrow> usize \<Rightarrow> usize" where
  "l1_page_table_from_phys m root phys_addr =
     (let l2_entry = read_pte m root (vpn2 phys_addr);
          l1_entry = read_pte m (pte_addr l2_entry) (vpn1 phys_addr)
      in pte_addr l1_entry)"

definition virt_to_phys :: "mem \<Rightarrow> usize \<Rightarrow> usize \<Rightarrow> usize option" where
  "virt_to_phys m root virt_addr =
     (let entry2 = read_pte m root (vpn2 virt_addr) in
      if \<not> pte_is_valid entry2 then None
      else if pte_is_leaf entry2 then Some ((pte_addr entry2 AND unot 0x3fff) OR (virt_addr AND 0x3fff))
      else
        let entry1 = read_pte m (pte_addr entry2) (vpn1 virt_addr) in
        if \<not> pte_is_valid entry1 then None
        else if pte_is_leaf entry1 then Some ((pte_addr entry1 AND unot 0x1fffff) OR (virt_addr AND 0x1fffff))
        else
          let entry0 = read_pte m (pte_addr entry1) (vpn0 virt_addr) in
          if \<not> pte_is_valid entry0 then None
          else Some ((pte_addr entry0 AND unot 0xfff) OR (virt_addr AND 0xfff)))"

section \<open>Bit facts about entries\<close>

definition ppn_bits :: u64 where
  "ppn_bits = 0x003ffffffffffc00"

lemma ppn_bits_eq: "ppn_bits = push_bit 10 (mask 44)"
  by (simp add: ppn_bits_def mask_eq_exp_minus_1 push_bit_eq_mult)

lemma mask44: "(0x00000fffffffffff :: u64) = mask 44"
  by (simp add: mask_eq_exp_minus_1)

lemma mask36: "(0x000fffffffff :: u64) = mask 36"
  by (simp add: mask_eq_exp_minus_1)

lemma mask10: "(0x3ff :: u64) = mask 10"
  by (simp add: mask_eq_exp_minus_1)

lemma mask60: "(0x0FFFFFFFFFFFFFFF :: u64) = mask 60"
  by (simp add: mask_eq_exp_minus_1)

lemmas pf_defs = PF_VALID_def PF_READ_def PF_WRITE_def PF_EXECUTE_def PF_USER_def PF_GLOBAL_def
  PF_ACCESSED_def PF_DIRTY_def

lemma and_eq_0_bit: "(a :: u64) AND b = 0 \<longleftrightarrow> (\<forall>n < 64. \<not> (bit a n \<and> bit b n))"
  by (auto simp: bit_eq_iff bit_simps)

lemma pte_is_valid_iff: "pte_is_valid e \<longleftrightarrow> bit e 0"
  by (auto simp: pte_is_valid_def pf_defs and_eq_0_bit bit_simps)

lemma rwx_iff: "pf_intersects f (PF_READ OR PF_WRITE OR PF_EXECUTE) \<longleftrightarrow> bit f 1 \<or> bit f 2 \<or> bit f 3"
  unfolding pf_intersects_def pf_defs bit_iff_and_push_bit_not_eq_0
  by (simp only: bit.conj_disj_distrib or_eq_0_iff) blast

lemma pte_is_leaf_iff: "pte_is_leaf e \<longleftrightarrow> bit e 1 \<or> bit e 2 \<or> bit e 3"
  using rwx_iff[of "pte_flags e"] by (auto simp: pte_is_leaf_def pf_intersects_def pte_flags_def mask10 bit_simps)

lemma pte_set_bit:
  assumes "n < 10"
  shows "bit (pte_set p f) n \<longleftrightarrow> bit f n \<or> n = 0"
  using assms by (auto simp: pte_set_def Let_def mask60 pf_defs bit_simps)

lemma pte_set_valid [simp]: "pte_is_valid (pte_set p f)"
  by (simp add: pte_is_valid_iff pte_set_bit)

lemma pte_set_leaf [simp]:
  "pte_is_leaf (pte_set p f) \<longleftrightarrow> pf_intersects f (PF_READ OR PF_WRITE OR PF_EXECUTE)"
  by (simp add: pte_is_leaf_iff rwx_iff pte_set_bit)

lemma pte_zero_invalid [simp]: "\<not> pte_is_valid 0"
  by (simp add: pte_is_valid_def)

lemma pte_addr_set:
  assumes "4096 dvd p" "p < 2 ^ 48" "f AND ppn_bits = 0"
  shows "pte_addr (pte_set p f) = p"
proof -
  have f: "\<not> bit f (10 + n)" if "n < 44" for n
    using assms(3)[unfolded and_eq_0_bit, rule_format, of "10 + n"] that
    by (simp add: ppn_bits_eq bit_simps)
  have "drop_bit 10 (pte_set p f) AND mask 44 = phys_to_ppn (word_of_nat p)"
  proof (rule bit_word_eqI)
    fix n assume "n < LENGTH(64)"
    then show "bit (drop_bit 10 (pte_set p f) AND mask 44) n = bit (phys_to_ppn (word_of_nat p)) n"
      using f[of n] by (auto simp: pte_set_def Let_def phys_to_ppn_def mask36 mask60 pf_defs bit_simps)
  qed
  moreover have "push_bit 12 (phys_to_ppn (word_of_nat p)) = (word_of_nat p :: u64)"
  proof (rule bit_word_eqI)
    fix n assume n: "n < LENGTH(64)"
    obtain k where "p = 4096 * k" using assms(1) by (rule dvdE)
    then have "p = push_bit 12 k" by (simp add: push_bit_eq_mult)
    then have "bit p n \<Longrightarrow> 12 \<le> n"
      by (simp add: bit_simps)
    moreover have "bit p n \<Longrightarrow> n < 48"
      using assms(2) nat_bit_bound by blast
    ultimately show "bit (push_bit 12 (phys_to_ppn (word_of_nat p))) n = bit (word_of_nat p :: u64) n"
      using n by (auto simp: phys_to_ppn_def mask36 bit_simps)
  qed
  moreover have "unat (word_of_nat p :: u64) = p"
    using assms(2) by (simp add: unat_of_nat)
  ultimately show ?thesis by (simp add: pte_addr_def mask44)
qed

lemma vpn_eqs:
  "vpn2 a = a div 2 ^ 30 mod 512" "vpn1 a = a div 2 ^ 21 mod 512" "vpn0 a = a div 2 ^ 12 mod 512"
  using and_mask_mod[of _ 9] by (simp_all add: vpn2_def vpn1_def vpn0_def drop_bit_eq_div)

lemma vpn_less [simp]: "vpn2 a < 512" "vpn1 a < 512" "vpn0 a < 512"
  by (simp_all add: vpn_eqs)

section \<open>Reading and writing entries\<close>

lemma read_write_pte_same [simp]: "read_pte (write_pte m t i e) t i = e"
proof -
  have "unat e < 256 ^ 8" using unsigned_less[of e, where ?'a = nat] by simp
  then show ?thesis by (simp add: read_pte_def write_pte_def load_store_same)
qed

lemma read_write_pte_other:
  assumes "4096 dvd t" "4096 dvd t'" "i < 512" "i' < 512" "(t, i) \<noteq> (t', i')"
  shows "read_pte (write_pte m t i e) t' i' = read_pte m t' i'"
proof -
  have "t + 8 * i + 8 \<le> t' + 8 * i' \<or> t' + 8 * i' + 8 \<le> t + 8 * i"
  proof (cases "t = t'")
    case True
    then show ?thesis using assms(5) by auto
  next
    case False
    then show ?thesis
      using dvd_gap[OF assms(1,2)] dvd_gap[OF assms(2,1)] assms(3,4) by linarith
  qed
  then show ?thesis by (simp add: read_pte_def write_pte_def load_store_disjoint)
qed

lemma write_pte_frame: "i < 512 \<Longrightarrow> x < t \<or> t + 4096 \<le> x \<Longrightarrow> write_pte m t i e x = m x"
  unfolding write_pte_def by (rule store_other) auto

lemma read_pte_cong:
  "i < 512 \<Longrightarrow> (\<And>x. t \<le> x \<Longrightarrow> x < t + 4096 \<Longrightarrow> m x = m' x) \<Longrightarrow> read_pte m t i = read_pte m' t i"
  unfolding read_pte_def by (rule arg_cong[where f = word_of_nat], rule load_cong) auto

lemma read_zero_page [simp]: "i < 512 \<Longrightarrow> read_pte (zero_page m t) t i = 0"
proof -
  assume "i < 512"
  then have "load_bytes 8 (zero_page m t) (t + 8 * i) = replicate 8 0"
    by (intro nth_equalityI) (auto simp: zero_page_def)
  moreover have "le_nat (replicate n 0) = 0" for n by (induction n) simp_all
  ultimately show ?thesis by (simp add: read_pte_def load_def)
qed

section \<open>The table tree\<close>

text \<open>
  \<open>tbl m t p\<close> is the table reached from \<open>t\<close> along the path \<open>p\<close> of entry indices, \<open>walk m t q\<close> the
  entry that a walk along \<open>q\<close> ends at, with the number of indices left over.
\<close>

fun tbl :: "mem \<Rightarrow> usize \<Rightarrow> nat list \<Rightarrow> usize option" where
  "tbl m t [] = Some t"
| "tbl m t (i # p) =
     (let e = read_pte m t i in
      if pte_is_valid e \<and> \<not> pte_is_leaf e then tbl m (pte_addr e) p else None)"

fun walk :: "mem \<Rightarrow> usize \<Rightarrow> nat list \<Rightarrow> (nat \<times> pte) option" where
  "walk m t [] = None"
| "walk m t (i # q) =
     (let e = read_pte m t i in
      if \<not> pte_is_valid e then None
      else if pte_is_leaf e \<or> q = [] then Some (length q, e)
      else walk m (pte_addr e) q)"

definition leaf_mask :: "nat \<Rightarrow> usize" where
  "leaf_mask l = (if l = 0 then 0xfff else if l = 1 then 0x1fffff else 0x3fff)"

definition vpns :: "usize \<Rightarrow> nat list" where
  "vpns v = [vpn2 v, vpn1 v, vpn0 v]"

lemma virt_to_phys_walk:
  "virt_to_phys m root v = map_option (\<lambda>(l, e). (pte_addr e AND unot (leaf_mask l)) OR (v AND leaf_mask l))
     (walk m root (vpns v))"
  by (simp add: virt_to_phys_def vpns_def leaf_mask_def Let_def)

lemma tbl_append: "tbl m t (p @ q) = Option.bind (tbl m t p) (\<lambda>t'. tbl m t' q)"
  by (induction p arbitrary: t) (simp_all add: Let_def)

lemma walk_append: "tbl m t p = Some t' \<Longrightarrow> q \<noteq> [] \<Longrightarrow> walk m t (p @ q) = walk m t' q"
  by (induction p arbitrary: t) (auto simp: Let_def split: if_splits)

abbreviation idx_ok :: "nat list \<Rightarrow> bool" where
  "idx_ok p \<equiv> \<forall>i \<in> set p. i < 512"

definition pt_wf :: "mem \<Rightarrow> usize \<Rightarrow> usize set \<Rightarrow> bool" where
  "pt_wf m root F \<longleftrightarrow>
     (\<forall>p t. tbl m root p = Some t \<longrightarrow> length p \<le> 2 \<longrightarrow> idx_ok p \<longrightarrow>
        4096 dvd t \<and> t < 2 ^ 48 \<and> t \<notin> F) \<and>
     (\<forall>p p' t. tbl m root p = Some t \<longrightarrow> tbl m root p' = Some t \<longrightarrow> length p \<le> 2 \<longrightarrow> length p' \<le> 2 \<longrightarrow>
        idx_ok p \<longrightarrow> idx_ok p' \<longrightarrow> p = p')"

text \<open>\<open>m'\<close> differs from \<open>m\<close>, as far as the tables of \<open>m\<close> are concerned, only in entry \<open>i\<close> of the table at \<open>p\<close>.\<close>

definition same_but :: "mem \<Rightarrow> mem \<Rightarrow> usize \<Rightarrow> nat list \<Rightarrow> nat \<Rightarrow> bool" where
  "same_but m m' root p i \<longleftrightarrow>
     (\<forall>r t x. tbl m root r = Some t \<longrightarrow> length r \<le> 2 \<longrightarrow> idx_ok r \<longrightarrow> x < 512 \<longrightarrow> (r, x) \<noteq> (p, i) \<longrightarrow>
        read_pte m' t x = read_pte m t x)"

lemma tbl_same_but:
  assumes "same_but m m' root p i" "length r \<le> 2" "idx_ok r" "\<not> prefix (p @ [i]) r"
  shows "tbl m' root r = tbl m root r"
  using assms(2-4)
proof (induction r rule: rev_induct)
  case (snoc x r)
  have "\<not> prefix (p @ [i]) r"
    using snoc.prems(3) prefix_prefix[of "p @ [i]" r "[x]"] by blast
  then have IH: "tbl m' root r = tbl m root r"
    using snoc by simp
  have "(r, x) \<noteq> (p, i)" using snoc.prems(3) by auto
  then have "read_pte m' t x = read_pte m t x" if "tbl m root r = Some t" for t
    using assms(1) snoc.prems that by (simp add: same_but_def)
  then show ?case
    using IH by (cases "tbl m root r") (simp_all add: tbl_append Let_def)
qed simp

lemma walk_same_but:
  assumes "same_but m m' root p i" "tbl m root r = Some t" "length (r @ q) \<le> 3" "idx_ok (r @ q)"
    "\<not> prefix (p @ [i]) (r @ q)"
  shows "walk m' t q = walk m t q"
  using assms(2-)
proof (induction q arbitrary: r t)
  case (Cons x q)
  have "(r, x) \<noteq> (p, i)" using Cons.prems(4) by (auto simp: prefix_def)
  then have e: "read_pte m' t x = read_pte m t x"
    using assms(1) Cons.prems by (simp add: same_but_def)
  let ?e = "read_pte m t x"
  show ?case
  proof (cases "pte_is_valid ?e \<and> \<not> pte_is_leaf ?e \<and> q \<noteq> []")
    case True
    have "tbl m root (r @ [x]) = Some (pte_addr ?e)"
      using Cons.prems(1) True by (simp add: tbl_append Let_def)
    then show ?thesis
      using Cons.IH[of "r @ [x]" "pte_addr ?e"] Cons.prems True e by (simp add: Let_def)
  qed (auto simp: Let_def e)
qed simp

text \<open>The bytes of the page tables reachable from a root. Memory that agrees on them has the same tables.\<close>

definition table_bytes :: "mem \<Rightarrow> usize \<Rightarrow> usize set" where
  "table_bytes m root = {x. \<exists>p t. tbl m root p = Some t \<and> length p \<le> 2 \<and> idx_ok p \<and> t \<le> x \<and> x < t + 4096}"

lemma same_tables:
  assumes "\<And>x. x \<in> table_bytes m root \<Longrightarrow> m' x = m x"
  shows "length p \<le> 2 \<Longrightarrow> idx_ok p \<Longrightarrow> tbl m' root p = tbl m root p"
    and "length q = 3 \<Longrightarrow> idx_ok q \<Longrightarrow> walk m' root q = walk m root q"
    and "virt_to_phys m' root v = virt_to_phys m root v" "table_bytes m' root = table_bytes m root"
    and "pt_wf m' root F = pt_wf m root F"
proof -
  have "read_pte m' t x = read_pte m t x"
    if "tbl m root p = Some t" "length p \<le> 2" "idx_ok p" "x < 512" for p t x
    using that assms by (intro read_pte_cong) (auto simp: table_bytes_def)
  then have sb: "same_but m m' root [] 512" by (simp add: same_but_def)
  have np: "\<not> prefix ([] @ [512]) r" if "idx_ok r" for r using that by (cases r) auto
  show t: "tbl m' root p = tbl m root p" if "length p \<le> 2" "idx_ok p" for p
    using tbl_same_but[OF sb that np[OF that(2)]] .
  show w: "walk m' root q = walk m root q" if "length q = 3" "idx_ok q" for q
    by (rule walk_same_but[OF sb, of "[]"]) (use that np[of q] in simp_all)
  show "virt_to_phys m' root v = virt_to_phys m root v"
    using w[of "vpns v"] by (simp add: virt_to_phys_walk vpns_def)
  show "table_bytes m' root = table_bytes m root" unfolding table_bytes_def using t by fastforce
  show "pt_wf m' root F = pt_wf m root F" unfolding pt_wf_def using t by (auto; metis)
qed

text \<open>A leaf written at entry \<open>i\<close> of the table at \<open>p\<close> becomes the end of exactly the walks through it.\<close>

lemma walk_leaf_write:
  assumes "same_but m m' root p i" "tbl m root p = Some t" "length p \<le> 2" "idx_ok p" "i < 512"
    and "read_pte m' t i = e" "pte_is_valid e" "pte_is_leaf e"
    and "length q = 3" "idx_ok q"
  shows "walk m' root q = (if prefix (p @ [i]) q then Some (2 - length p, e) else walk m root q)"
proof (cases "prefix (p @ [i]) q")
  case True
  then obtain s where q: "q = p @ i # s" by (auto simp: prefix_def)
  have "tbl m' root p = Some t"
    using tbl_same_but[OF assms(1,3,4)] assms(2) by (simp add: prefix_def)
  from walk_append[OF this, of "i # s"] show ?thesis
    using True q assms(6-9) by (simp add: Let_def)
next
  case False
  then show ?thesis
    using walk_same_but[OF assms(1), of "[]" root q] assms by simp
qed

lemma pt_wf_same_but_leaf:
  assumes "pt_wf m root F" "F' \<subseteq> F" "same_but m m' root p i" "tbl m root p = Some t" "length p \<le> 2"
    "idx_ok p" "i < 512" "pte_is_leaf (read_pte m' t i)"
  shows "pt_wf m' root F'"
proof -
  have "tbl m' root p = Some t"
    using tbl_same_but[OF assms(3,5,6)] assms(4) by (simp add: prefix_def)
  then have none: "tbl m' root (p @ i # s) = None" for s
    using assms(8) by (simp add: tbl_append Let_def)
  have sub: "tbl m root r = Some u" if "tbl m' root r = Some u" "length r \<le> 2" "idx_ok r" for r u
  proof -
    have "\<not> prefix (p @ [i]) r" using that(1) none by (auto simp: prefix_def)
    then show ?thesis using that tbl_same_but[OF assms(3) that(2,3)] by simp
  qed
  show ?thesis
    using assms(1,2) unfolding pt_wf_def by (meson sub subsetD)
qed

text \<open>A fresh zeroed table hung below an invalid entry changes no walk.\<close>

lemma walk_install:
  assumes "same_but m m' root p i" "tbl m root p = Some t" "length p \<le> 1" "idx_ok p" "i < 512"
    and "\<not> pte_is_valid (read_pte m t i)" "read_pte m' t i = pte_set f 0" "pte_addr (pte_set f 0) = f"
    and "\<forall>x < 512. read_pte m' f x = 0"
  shows "tbl m' root p = Some t" "tbl m' root (p @ [i]) = Some f"
    and "s \<noteq> [] \<Longrightarrow> idx_ok s \<Longrightarrow> tbl m' root (p @ i # s) = None"
    and "length q = 3 \<Longrightarrow> idx_ok q \<Longrightarrow> walk m' root q = walk m root q"
proof -
  show p: "tbl m' root p = Some t"
    using tbl_same_but[OF assms(1) _ assms(4)] assms(2,3) by (simp add: prefix_def)
  have nl: "\<not> pte_is_leaf (pte_set f 0)" by (simp add: pf_intersects_def)
  show pi: "tbl m' root (p @ [i]) = Some f"
    using p nl assms(7,8) by (simp add: tbl_append)
  have below: "tbl m' f (j # s) = None" "walk m' f (j # s) = None" if "j < 512" for j s
    using that assms(9) by simp_all
  show "tbl m' root (p @ i # s) = None" if "s \<noteq> []" "idx_ok s"
  proof -
    have "tbl m' root ((p @ [i]) @ s) = tbl m' f s" using pi by (simp only: tbl_append) simp
    then show ?thesis using below that by (cases s) auto
  qed
  show "walk m' root q = walk m root q" if len: "length q = 3" and ok: "idx_ok q"
  proof (cases "prefix (p @ [i]) q")
    case True
    then obtain r where q: "q = p @ i # r" by (auto simp: prefix_def)
    obtain j s where r: "r = j # s" using q len assms(3) by (cases r) auto
    have "walk m' root ((p @ [i]) @ r) = walk m' f r" by (rule walk_append[OF pi]) (simp add: r)
    moreover have "walk m root (p @ i # r) = walk m t (i # r)" by (rule walk_append[OF assms(2)]) simp
    ultimately show ?thesis
      using q r ok below assms(6) by simp
  next
    case False
    then show ?thesis using walk_same_but[OF assms(1), of "[]" root q] len ok by simp
  qed
qed

lemma pt_wf_install:
  assumes "pt_wf m root F" "f \<in> F" "4096 dvd f" "f < 2 ^ 48"
    and "same_but m m' root p i" "tbl m root p = Some t" "length p \<le> 1" "idx_ok p" "i < 512"
    and "\<not> pte_is_valid (read_pte m t i)" "read_pte m' t i = pte_set f 0" "pte_addr (pte_set f 0) = f"
    and "\<forall>x < 512. read_pte m' f x = 0"
  shows "pt_wf m' root (F - {f})"
proof -
  note inst = walk_install[OF assms(5-13)]
  have cases_: "(r = p @ [i] \<and> u = f) \<or> tbl m root r = Some u"
    if r: "tbl m' root r = Some u" "length r \<le> 2" "idx_ok r" for r u
  proof (cases "prefix (p @ [i]) r")
    case True
    then obtain s where s: "r = p @ i # s" by (auto simp: prefix_def)
    then have "s = []" using inst(3)[of s] r by (cases "s = []") auto
    then show ?thesis using inst(2) r(1) s by simp
  next
    case False
    then show ?thesis using tbl_same_but[OF assms(5) r(2,3)] r(1) by simp
  qed
  have fresh: "tbl m root r \<noteq> Some f" if "length r \<le> 2" "idx_ok r" for r
    using assms(1,2) that by (auto simp: pt_wf_def)
  show ?thesis
    unfolding pt_wf_def
  proof (intro conjI allI impI)
    fix r u assume r: "tbl m' root r = Some u" "length r \<le> 2" "idx_ok r"
    show "4096 dvd u" "u < 2 ^ 48" "u \<notin> F - {f}"
      using cases_[OF r] assms(1,3,4) r(2,3) by (auto simp: pt_wf_def)
  next
    fix r r' u assume r: "tbl m' root r = Some u" "tbl m' root r' = Some u" "length r \<le> 2" "length r' \<le> 2"
      "idx_ok r" "idx_ok r'"
    have "tbl m root r = Some u \<Longrightarrow> tbl m root r' = Some u \<Longrightarrow> r = r'"
      using assms(1) r(3-6) by (auto simp: pt_wf_def)
    then show "r = r'"
      using cases_[OF r(1,3,5)] cases_[OF r(2,4,6)] fresh[OF r(3,5)] fresh[OF r(4,6)] by metis
  qed
qed

section \<open>Mapping\<close>

text \<open>
  The invariant of an address space: the allocator owns the free frames \<open>F\<close>, the tables are well formed, and no
  table lies in a free frame or in one of the frames \<open>D\<close> that hold data.
\<close>

definition vm_inv_d :: "usize set \<Rightarrow> machine \<Rightarrow> usize \<Rightarrow> usize set \<Rightarrow> bool" where
  "vm_inv_d D st root F \<longleftrightarrow> pa_inv st F \<and> pt_wf (mmem st) root (F \<union> D) \<and> (\<forall>f \<in> F. f < 2 ^ 48) \<and>
     (\<forall>d \<in> D. 4096 dvd d \<and> d < 2 ^ 48) \<and> F \<inter> D = {}"

definition vm_inv :: "machine \<Rightarrow> usize \<Rightarrow> usize set \<Rightarrow> bool" where
  "vm_inv st root F \<longleftrightarrow> vm_inv_d {} st root F"

lemma not_in_bytes_of:
  assumes "\<forall>f \<in> F. 4096 dvd f" "4096 dvd t" "t \<notin> F" "t \<le> x" "x < t + 4096"
  shows "x \<notin> bytes_of F"
proof -
  have "x \<in> bytes_of {t}" using assms(4,5) by (simp add: bytes_of_def)
  moreover have "bytes_of F \<inter> bytes_of {t} = {}" using assms(1-3) by (intro bytes_of_disjoint) auto
  ultimately show ?thesis by blast
qed

lemma vm_frame:
  assumes "vm_inv_d D st root F" "f \<in> F"
  shows "4096 dvd f" "f < 2 ^ 48" "pte_addr (pte_set f 0) = f"
  using assms frames.inv_frame[of st F f] pte_addr_set[of f 0] by (auto simp: vm_inv_d_def)

lemma vm_table:
  assumes "vm_inv_d D st root F" "tbl (mmem st) root p = Some t" "length p \<le> 2" "idx_ok p"
  shows "4096 dvd t" "t < 2 ^ 48" "t \<notin> F" "t \<notin> D"
  using assms by (auto simp: vm_inv_d_def pt_wf_def)

lemma data_apart:
  assumes "vm_inv_d D st root F" "tbl (mmem st) root p = Some t" "length p \<le> 2" "idx_ok p" "x \<in> bytes_of D"
  shows "x \<notin> bytes_of (insert t F)"
proof -
  have "\<forall>f \<in> insert t F. 4096 dvd f" using vm_frame(1)[OF assms(1)] vm_table(1)[OF assms(1-4)] by blast
  moreover have "insert t F \<inter> D = {}" using vm_table(4)[OF assms(1-4)] assms(1) by (auto simp: vm_inv_d_def)
  ultimately have "bytes_of (insert t F) \<inter> bytes_of D = {}" using assms(1) by (intro bytes_of_disjoint) (auto simp: vm_inv_d_def)
  then show ?thesis using assms(5) by blast
qed

lemma write_pte_inv:
  assumes "pa_inv st F" "4096 dvd t" "t \<notin> F" "i < 512"
  shows "pa_inv (st\<lparr>mmem := write_pte (mmem st) t i e\<rparr>) F"
proof (rule frames.inv_mem[OF assms(1)])
  fix x assume x: "x \<in> bytes_of F"
  have "\<forall>f \<in> F. 4096 dvd f" using frames.inv_frame[OF assms(1)] by blast
  then have "\<not> (t \<le> x \<and> x < t + 4096)" using not_in_bytes_of[OF _ assms(2,3)] x by blast
  then show "write_pte (mmem st) t i e x = mmem st x"
    using write_pte_frame[OF assms(4)] by auto
qed

lemma same_but_write:
  assumes "vm_inv_d D st root F" "tbl (mmem st) root p = Some t" "length p \<le> 2" "idx_ok p" "i < 512"
  shows "same_but (mmem st) (write_pte (mmem st) t i e) root p i"
  unfolding same_but_def
proof (intro allI impI)
  fix r u x assume r: "tbl (mmem st) root r = Some u" "length r \<le> 2" "idx_ok r" "x < 512" "(r, x) \<noteq> (p, i)"
  have "(t, i) \<noteq> (u, x)"
    using r assms by (auto simp: vm_inv_d_def pt_wf_def)
  then show "read_pte (write_pte (mmem st) t i e) u x = read_pte (mmem st) u x"
    using read_write_pte_other vm_table(1)[OF assms(1-4)] vm_table(1)[OF assms(1) r(1-3)] assms(5) r(4)
    by blast
qed

text \<open>Setting a leaf: exactly the walks through the entry change.\<close>

lemma set_entry_leaf:
  assumes "vm_inv_d D st root F" "tbl (mmem st) root p = Some t" "length p \<le> 2" "idx_ok p" "i < 512"
    and "pf_intersects fl (PF_READ OR PF_WRITE OR PF_EXECUTE)"
  shows "vm_inv_d D (set_entry st t i phys fl) root F"
    and "length q = 3 \<Longrightarrow> idx_ok q \<Longrightarrow> walk (mmem (set_entry st t i phys fl)) root q =
      (if prefix (p @ [i]) q then Some (2 - length p, pte_set phys fl) else walk (mmem st) root q)"
    and "x < t \<or> t + 4096 \<le> x \<Longrightarrow> mmem (set_entry st t i phys fl) x = mmem st x"
proof -
  let ?m' = "write_pte (mmem st) t i (pte_set phys fl)"
  note same = same_but_write[OF assms(1-5), of "pte_set phys fl"]
  note t = vm_table[OF assms(1-4)]
  have "pt_wf ?m' root (F \<union> D)"
    by (rule pt_wf_same_but_leaf[OF _ _ same assms(2-5)]) (use assms(1,6) in \<open>auto simp: vm_inv_d_def\<close>)
  moreover have "pa_inv (set_entry st t i phys fl) F"
    unfolding set_entry_def using write_pte_inv[OF _ t(1,3) assms(5)] assms(1) by (simp add: vm_inv_d_def)
  ultimately show "vm_inv_d D (set_entry st t i phys fl) root F"
    using assms(1) by (simp add: vm_inv_d_def set_entry_def)
  show "walk (mmem (set_entry st t i phys fl)) root q =
      (if prefix (p @ [i]) q then Some (2 - length p, pte_set phys fl) else walk (mmem st) root q)"
    if "length q = 3" "idx_ok q"
    using walk_leaf_write[OF same assms(2-5) _ _ _ that, of "pte_set phys fl"] assms(6)
    by (simp add: set_entry_def)
  show "x < t \<or> t + 4096 \<le> x \<Longrightarrow> mmem (set_entry st t i phys fl) x = mmem st x"
    using write_pte_frame[OF assms(5)] by (simp add: set_entry_def)
qed

text \<open>Descending one level, with a new table when the entry is invalid, changes no translation.\<close>

lemma alloc_next_level_spec:
  assumes "vm_inv_d D st root F" "tbl (mmem st) root p = Some t" "length p \<le> 1" "idx_ok p" "i < 512"
    and "\<not> pte_is_valid (read_pte (mmem st) t i)" "F \<noteq> {}"
  obtains st' f where "alloc_next_level st t i = Some (st', f)" "f \<in> F" "vm_inv_d D st' root (F - {f})"
    "tbl (mmem st') root (p @ [i]) = Some f"
    "\<forall>q. length q = 3 \<longrightarrow> idx_ok q \<longrightarrow> walk (mmem st') root q = walk (mmem st) root q"
    "\<forall>x. x \<notin> bytes_of (insert t F) \<longrightarrow> mmem st' x = mmem st x"
proof -
  have inv: "pa_inv st F" "pt_wf (mmem st) root (F \<union> D)" using assms(1) by (auto simp: vm_inv_d_def)
  obtain st1 f where a: "alloc st = Some (st1, Some f)" "f \<in> F" "pa_inv st1 (F - {f})"
    "\<forall>x. x \<notin> bytes_of F \<longrightarrow> mmem st1 x = mmem st x"
    using frames.alloc_some[OF inv(1) assms(7)] by blast
  note f = vm_frame[OF assms(1) a(2)]
  have len2: "length p \<le> 2" using assms(3) by simp
  note t = vm_table[OF assms(1,2) len2 assms(4)]
  have tf: "t \<noteq> f" using t(3) a(2) by blast
  have F_al: "\<forall>g \<in> F. 4096 dvd g" using vm_frame(1)[OF assms(1)] by blast
  define m1 where "m1 = zero_page (mmem st1) f"
  define m2 where "m2 = write_pte m1 t i (pte_set f 0)"
  define st' where "st' = st1\<lparr>mmem := m2\<rparr>"
  have f_bytes: "x \<in> bytes_of F" if "f \<le> x" "x < f + 4096" for x
    using a(2) that by (auto simp: bytes_of_def)
  have m1: "m1 x = mmem st x" if "x \<notin> bytes_of F" for x
    using that f_bytes a(4) by (auto simp: m1_def zero_page_def)
  have read1: "read_pte m1 u x = read_pte (mmem st) u x" if u: "4096 dvd u" "u \<notin> F" and x: "x < 512" for u x
    by (rule read_pte_cong[OF x]) (use m1 not_in_bytes_of[OF F_al u] in blast)
  have same: "same_but (mmem st) m2 root p i"
    unfolding same_but_def
  proof (intro allI impI)
    fix r u x assume r: "tbl (mmem st) root r = Some u" "length r \<le> 2" "idx_ok r" "x < 512" "(r, x) \<noteq> (p, i)"
    note u = vm_table[OF assms(1) r(1-3)]
    have "(t, i) \<noteq> (u, x)" using r assms(2,4) len2 inv(2) by (auto simp: pt_wf_def)
    then show "read_pte m2 u x = read_pte (mmem st) u x"
      using read_write_pte_other[OF t(1) u(1) assms(5) r(4)] read1[OF u(1,3) r(4)] by (simp add: m2_def)
  qed
  have ti: "read_pte m2 t i = pte_set f 0" by (simp add: m2_def)
  have zero: "\<forall>x < 512. read_pte m2 f x = 0"
    using read_write_pte_other[OF t(1) f(1) assms(5)] tf by (simp add: m2_def m1_def)
  have "pa_inv (st1\<lparr>mmem := m1\<rparr>) (F - {f})"
  proof (rule frames.inv_mem[OF a(3)])
    fix x assume "x \<in> bytes_of (F - {f})"
    then have "\<not> (f \<le> x \<and> x < f + 4096)"
      using not_in_bytes_of[of "F - {f}" f x] F_al f(1) by blast
    then show "m1 x = mmem st1 x" by (auto simp: m1_def zero_page_def)
  qed
  from write_pte_inv[OF this t(1) _ assms(5)] t(3) have "pa_inv st' (F - {f})"
    by (simp add: st'_def m2_def)
  moreover have "pt_wf m2 root (F \<union> D - {f})"
    by (rule pt_wf_install[OF inv(2) _ f(1,2) same assms(2-6) ti f(3) zero]) (use a(2) in simp)
  moreover have "F \<union> D - {f} = F - {f} \<union> D" using assms(1) a(2) by (auto simp: vm_inv_d_def)
  ultimately have "vm_inv_d D st' root (F - {f})"
    using assms(1) by (auto simp: vm_inv_d_def st'_def)
  moreover note walk_install[OF same assms(2-6) ti f(3) zero]
  moreover have "m2 x = mmem st x" if x: "x \<notin> bytes_of (insert t F)" for x
  proof -
    have "x \<notin> bytes_of F" "x < t \<or> t + 4096 \<le> x" using x by (auto simp: bytes_of_def)
    then show ?thesis using m1 write_pte_frame[OF assms(5)] by (simp add: m2_def)
  qed
  moreover have "alloc_next_level st t i = Some (st', f)"
    using a(1) by (simp add: alloc_next_level_def st'_def m2_def m1_def pf_empty_def)
  ultimately show thesis
    using that[of st' f] a(2) by (simp add: st'_def)
qed

lemma next_table_spec:
  assumes "vm_inv_d D st root F" "tbl (mmem st) root p = Some t" "length p \<le> 1" "idx_ok p" "i < 512"
    and "\<not> pte_is_leaf (read_pte (mmem st) t i) \<or> \<not> pte_is_valid (read_pte (mmem st) t i)" "F \<noteq> {}"
  obtains st' t' F' where "next_table st t i = Some (st', t')" "F' \<subseteq> F" "card F \<le> card F' + 1"
    "vm_inv_d D st' root F'" "tbl (mmem st') root (p @ [i]) = Some t'"
    "\<forall>q. length q = 3 \<longrightarrow> idx_ok q \<longrightarrow> walk (mmem st') root q = walk (mmem st) root q"
    "\<forall>x. x \<notin> bytes_of (insert t F) \<longrightarrow> mmem st' x = mmem st x" "t' \<in> F \<or> st' = st"
proof (cases "pte_is_valid (read_pte (mmem st) t i)")
  case True
  then have "tbl (mmem st) root (p @ [i]) = Some (pte_addr (read_pte (mmem st) t i))"
    using assms(2,6) by (simp add: tbl_append Let_def)
  then show thesis
    using that[of st "pte_addr (read_pte (mmem st) t i)" F] assms(1) True by (simp add: next_table_def Let_def)
next
  case False
  obtain st' f where *: "alloc_next_level st t i = Some (st', f)" "f \<in> F" "vm_inv_d D st' root (F - {f})"
    "tbl (mmem st') root (p @ [i]) = Some f"
    "\<forall>q. length q = 3 \<longrightarrow> idx_ok q \<longrightarrow> walk (mmem st') root q = walk (mmem st) root q"
    "\<forall>x. x \<notin> bytes_of (insert t F) \<longrightarrow> mmem st' x = mmem st x"
    using alloc_next_level_spec[OF assms(1-5) False assms(7)] by blast
  have "finite F" using frames.inv_finite assms(1) by (auto simp: vm_inv_d_def)
  then have "card F \<le> card (F - {f}) + 1" by (simp add: card_Diff_singleton_if) arith
  then show thesis
    using that[of st' f "F - {f}"] * False by (simp add: next_table_def Let_def Diff_subset)
qed

subsection \<open>Mapping 4 KiB pages\<close>

text \<open>No superpage covers the address: a walk that ends, ends at level 0.\<close>

definition no_superpage :: "mem \<Rightarrow> usize \<Rightarrow> usize \<Rightarrow> bool" where
  "no_superpage m root v \<longleftrightarrow> (case walk m root (vpns v) of None \<Rightarrow> True | Some (l, e) \<Rightarrow> l = 0)"

lemma vpns_ok [simp]: "length (vpns v) = 3" "idx_ok (vpns v)"
  by (simp_all add: vpns_def)

lemma map_one_4k:
  assumes "vm_inv_d D st root F" "2 \<le> card F" "no_superpage (mmem st) root virt"
    and "pf_intersects fl (PF_READ OR PF_WRITE OR PF_EXECUTE)"
  obtains st' F' where "map_one st root virt phys fl 0 = Some st'" "F' \<subseteq> F" "card F \<le> card F' + 2"
    "vm_inv_d D st' root F'"
    "\<forall>q. length q = 3 \<longrightarrow> idx_ok q \<longrightarrow> walk (mmem st') root q =
       (if q = vpns virt then Some (0, pte_set phys fl) else walk (mmem st) root q)"
    "\<forall>x \<in> bytes_of D. mmem st' x = mmem st x"
proof -
  let ?e2 = "read_pte (mmem st) root (vpn2 virt)"
  have ne: "F \<noteq> {}" using assms(2) by auto
  have l0: "length ([] :: nat list) \<le> 1" "idx_ok []" and l1: "length [vpn2 virt] \<le> 1" "idx_ok [vpn2 virt]"
    by simp_all
  have nl: "\<not> pte_is_leaf ?e2 \<or> \<not> pte_is_valid ?e2"
    using assms(3) by (auto simp: no_superpage_def vpns_def Let_def)
  obtain st1 t1 F1 where s1: "next_table st root (vpn2 virt) = Some (st1, t1)" "F1 \<subseteq> F"
    "card F \<le> card F1 + 1" "vm_inv_d D st1 root F1" "tbl (mmem st1) root [vpn2 virt] = Some t1"
    "\<forall>q. length q = 3 \<longrightarrow> idx_ok q \<longrightarrow> walk (mmem st1) root q = walk (mmem st) root q"
    "\<forall>x. x \<notin> bytes_of (insert root F) \<longrightarrow> mmem st1 x = mmem st x"
    by (rule next_table_spec[OF assms(1) tbl.simps(1) l0 vpn_less(1) nl ne, unfolded append_Nil];
        rule that; assumption)
  let ?e1 = "read_pte (mmem st1) t1 (vpn1 virt)"
  have "vpns virt = [vpn2 virt] @ [vpn1 virt, vpn0 virt]" by (simp add: vpns_def)
  then have "walk (mmem st) root (vpns virt) = walk (mmem st1) t1 [vpn1 virt, vpn0 virt]"
    using s1(6)[THEN spec, THEN mp, OF vpns_ok(1)[of virt], THEN mp, OF vpns_ok(2)] walk_append[OF s1(5), of "[vpn1 virt, vpn0 virt]"]
    by (metis list.distinct(1))
  then have nl1: "\<not> pte_is_leaf ?e1 \<or> \<not> pte_is_valid ?e1"
    using assms(3) by (auto simp: no_superpage_def Let_def split: if_splits)
  have ne1: "F1 \<noteq> {}" using s1(3) assms(2) by auto
  obtain st2 t0 F2 where s2: "next_table st1 t1 (vpn1 virt) = Some (st2, t0)" "F2 \<subseteq> F1"
    "card F1 \<le> card F2 + 1" "vm_inv_d D st2 root F2" "tbl (mmem st2) root [vpn2 virt, vpn1 virt] = Some t0"
    "\<forall>q. length q = 3 \<longrightarrow> idx_ok q \<longrightarrow> walk (mmem st2) root q = walk (mmem st1) root q"
    "\<forall>x. x \<notin> bytes_of (insert t1 F1) \<longrightarrow> mmem st2 x = mmem st1 x"
    by (rule next_table_spec[OF s1(4,5) l1 vpn_less(2) nl1 ne1, unfolded append_Cons append_Nil];
        rule that; assumption)
  have pre: "prefix ([vpn2 virt, vpn1 virt] @ [vpn0 virt]) q \<longleftrightarrow> q = vpns virt" if "length q = 3" for q
    using that by (auto simp: vpns_def prefix_def)
  note leaf = set_entry_leaf[OF s2(4,5) _ _ vpn_less(3)[of virt] assms(4)]
  have "vm_inv_d D (set_entry st2 t0 (vpn0 virt) phys fl) root F2" using leaf(1) by simp
  moreover have "walk (mmem (set_entry st2 t0 (vpn0 virt) phys fl)) root q =
      (if q = vpns virt then Some (0, pte_set phys fl) else walk (mmem st) root q)"
    if "length q = 3" "idx_ok q" for q
    using leaf(2)[of q phys] pre[OF that(1)] that s1(6) s2(6) by simp
  moreover have "map_one st root virt phys fl 0 = Some (set_entry st2 t0 (vpn0 virt) phys fl)"
    using s1(1) s2(1) by (simp add: map_one_def)
  moreover have "mmem (set_entry st2 t0 (vpn0 virt) phys fl) x = mmem st x" if x: "x \<in> bytes_of D" for x
  proof -
    have "x < t0 \<or> t0 + 4096 \<le> x" using data_apart[OF s2(4,5) _ _ x] by (force simp: bytes_of_def)
    moreover have "x \<notin> bytes_of (insert root F)" by (rule data_apart[OF assms(1) tbl.simps(1) _ _ x]) simp_all
    moreover have "x \<notin> bytes_of (insert t1 F1)" by (rule data_apart[OF s1(4,5) _ _ x]) simp_all
    ultimately show ?thesis using s1(7) s2(7) leaf(3)[of x phys] by simp
  qed
  ultimately show thesis
    using that[of "set_entry st2 t0 (vpn0 virt) phys fl" F2] s1(2,3) s2(2,3) by fastforce
qed

lemma take_bit_27_split:
  "take_bit 27 x = take_bit 27 (y :: nat) \<longleftrightarrow> take_bit 9 (drop_bit 18 x) = take_bit 9 (drop_bit 18 y) \<and>
     take_bit 9 (drop_bit 9 x) = take_bit 9 (drop_bit 9 y) \<and> take_bit 9 x = take_bit 9 y" (is "?l = ?r")
proof
  have low: "take_bit 9 (drop_bit k x) = take_bit 9 (drop_bit k (take_bit 27 x))" if "k + 9 \<le> 27" for x k :: nat
    using that by (intro bit_eqI) (auto simp: bit_simps)
  assume ?l
  then show ?r
    using low[of 18 x] low[of 18 y] low[of 9 x] low[of 9 y] low[of 0 x] low[of 0 y] by simp
next
  assume r: ?r
  show ?l
  proof (rule bit_eqI)
    fix n
    have "bit (take_bit 9 (drop_bit 18 x)) (n - 18) = bit (take_bit 9 (drop_bit 18 y)) (n - 18)"
      "bit (take_bit 9 (drop_bit 9 x)) (n - 9) = bit (take_bit 9 (drop_bit 9 y)) (n - 9)"
      "bit (take_bit 9 x) n = bit (take_bit 9 y) n"
      using r by simp_all
    then show "bit (take_bit 27 x) n = bit (take_bit 27 y) n"
      by (cases "n < 9"; cases "n < 18") (auto simp: bit_simps)
  qed
qed

lemma vpns_eq_iff: "vpns v = vpns w \<longleftrightarrow> v div 4096 mod 2 ^ 27 = w div 4096 mod 2 ^ 27"
proof -
  have "drop_bit 18 (drop_bit 12 a) = drop_bit 30 a" "drop_bit 9 (drop_bit 12 a) = drop_bit 21 a" for a :: nat
    by simp_all
  moreover have "a AND 511 = take_bit 9 a" for a :: nat
    by (simp add: take_bit_eq_mask mask_eq_exp_minus_1)
  ultimately have "vpns a = [take_bit 9 (drop_bit 18 (drop_bit 12 a)), take_bit 9 (drop_bit 9 (drop_bit 12 a)),
      take_bit 9 (drop_bit 12 a)]" for a
    by (simp add: vpns_def vpn2_def vpn1_def vpn0_def)
  then have "vpns v = vpns w \<longleftrightarrow> take_bit 27 (drop_bit 12 v) = take_bit 27 (drop_bit 12 w)"
    unfolding take_bit_27_split by simp
  also have "\<dots> \<longleftrightarrow> v div 2 ^ 12 mod 2 ^ 27 = w div 2 ^ 12 mod 2 ^ 27"
    by (simp only: take_bit_eq_mod drop_bit_eq_div)
  finally show ?thesis by simp
qed

lemma no_superpage_cong:
  assumes "walk m' root (vpns v) = (if vpns v = q then Some (0, e) else walk m root (vpns v))"
    "no_superpage m root v"
  shows "no_superpage m' root v"
  using assms by (auto simp: no_superpage_def)

lemma mod_shift_cancel:
  fixes a i j N :: nat
  assumes "(a + i) mod N = (a + j) mod N" "i < N" "j < N"
  shows "i = j"
proof -
  have le: "i = j" if "i \<le> j" "(a + i) mod N = (a + j) mod N" "j < N" for i j
  proof -
    have "N dvd (a + j) - (a + i)" using that mod_eq_dvd_iff_nat[of "a + i" "a + j" N] by simp
    then show ?thesis using that by (auto dest: dvd_imp_le)
  qed
  show ?thesis using le[of i j] le[of j i] assms by (cases "i \<le> j") auto
qed

lemma page_index_distinct:
  assumes "4096 dvd vs" "i < n" "j < n" "n \<le> 2 ^ 27" "vpns (vs + 4096 * i) = vpns (vs + 4096 * j)"
  shows "i = j"
proof (rule mod_shift_cancel)
  show "(vs div 4096 + i) mod 2 ^ 27 = (vs div 4096 + j) mod 2 ^ 27"
    using assms(5) by (simp add: vpns_eq_iff add.commute)
qed (use assms in simp_all)

text \<open>The mapping loop from page \<open>j\<close> on.\<close>

lemma map_loop_4k:
  assumes "vm_inv_d D st root F" "j \<le> n" "2 * (n - j) \<le> card F" "n \<le> 2 ^ 27" "4096 dvd vs"
    and "vs + 4096 * n < usize_bound" "ps + 4096 * n < usize_bound"
    and "\<forall>i. j \<le> i \<longrightarrow> i < n \<longrightarrow> no_superpage (mmem st) root (vs + 4096 * i)"
    and "pf_intersects fl (PF_READ OR PF_WRITE OR PF_EXECUTE)"
  shows "\<exists>st' F'. map_loop st root vs ps (4096 * n) (4096 * j) fl Size4K = Some st' \<and> F' \<subseteq> F \<and>
    vm_inv_d D st' root F' \<and> card F \<le> card F' + 2 * (n - j) \<and>
    (\<forall>i. j \<le> i \<longrightarrow> i < n \<longrightarrow>
       walk (mmem st') root (vpns (vs + 4096 * i)) = Some (0, pte_set (ps + 4096 * i) fl)) \<and>
    (\<forall>q. length q = 3 \<longrightarrow> idx_ok q \<longrightarrow> (\<forall>i. j \<le> i \<longrightarrow> i < n \<longrightarrow> q \<noteq> vpns (vs + 4096 * i)) \<longrightarrow>
       walk (mmem st') root q = walk (mmem st) root q)"
  using assms
proof (induction "n - j" arbitrary: st F j)
  case 0
  then have "map_loop st root vs ps (4096 * n) (4096 * j) fl Size4K = Some st"
    by (simp add: map_loop.simps)
  then show ?case using 0 by (intro exI[of _ st] exI[of _ F]) auto
next
  case (Suc k)
  then have j: "j < n" "k = n - Suc j" "2 \<le> card F" by auto
  let ?v = "vs + 4096 * j" and ?p = "ps + 4096 * j"
  have nsp: "no_superpage (mmem st) root ?v" using Suc.prems(8) j by simp
  obtain st1 F1 where 1: "map_one st root ?v ?p fl 0 = Some st1" "F1 \<subseteq> F" "card F \<le> card F1 + 2"
    "vm_inv_d D st1 root F1" "\<forall>q. length q = 3 \<longrightarrow> idx_ok q \<longrightarrow> walk (mmem st1) root q =
       (if q = vpns ?v then Some (0, pte_set ?p fl) else walk (mmem st) root q)"
    "\<forall>x \<in> bytes_of D. mmem st1 x = mmem st x"
    by (rule map_one_4k[OF Suc.prems(1) j(3) nsp Suc.prems(9)]; rule that; assumption)
  have w1: "walk (mmem st1) root (vpns v) =
      (if vpns v = vpns ?v then Some (0, pte_set ?p fl) else walk (mmem st) root (vpns v))" for v
    using 1(5) vpns_ok by blast
  have "\<forall>i. Suc j \<le> i \<longrightarrow> i < n \<longrightarrow> no_superpage (mmem st1) root (vs + 4096 * i)"
    using Suc.prems(8) no_superpage_cong[OF w1] by (meson Suc_leD)
  moreover have "Suc j \<le> n" "2 * (n - Suc j) \<le> card F1" using j(1) 1(3) Suc.prems(3) by auto
  ultimately obtain st' F' where
    2: "map_loop st1 root vs ps (4096 * n) (4096 * Suc j) fl Size4K = Some st'" "F' \<subseteq> F1"
    "vm_inv_d D st' root F'" "card F1 \<le> card F' + 2 * (n - Suc j)"
    "\<forall>i. Suc j \<le> i \<longrightarrow> i < n \<longrightarrow>
       walk (mmem st') root (vpns (vs + 4096 * i)) = Some (0, pte_set (ps + 4096 * i) fl)"
    "\<forall>q. length q = 3 \<longrightarrow> idx_ok q \<longrightarrow> (\<forall>i. Suc j \<le> i \<longrightarrow> i < n \<longrightarrow> q \<noteq> vpns (vs + 4096 * i)) \<longrightarrow>
       walk (mmem st') root q = walk (mmem st1) root q"
    using Suc.hyps(1)[OF j(2) 1(4) _ _ Suc.prems(4-7) _ Suc.prems(9)] by blast
  have run: "map_loop st root vs ps (4096 * n) (4096 * j) fl Size4K = Some st'"
  proof -
    have "uadd vs (4096 * j) = Some ?v" "uadd ps (4096 * j) = Some ?p"
      "uadd (4096 * j) 4096 = Some (4096 * Suc j)"
      using j(1) Suc.prems(6,7) by simp_all
    then show ?thesis using j(1) 1(1) 2(1) by (subst map_loop.simps) simp
  qed
  have fresh: "vpns ?v \<noteq> vpns (vs + 4096 * i)" if "Suc j \<le> i" "i < n" for i
    using page_index_distinct[OF Suc.prems(5) j(1) that(2) Suc.prems(4)] that(1) by auto
  have "walk (mmem st') root (vpns (vs + 4096 * i)) = Some (0, pte_set (ps + 4096 * i) fl)"
    if "j \<le> i" "i < n" for i
  proof (cases "i = j")
    case True
    have "walk (mmem st') root (vpns ?v) = walk (mmem st1) root (vpns ?v)"
      using 2(6) vpns_ok fresh by blast
    then show ?thesis using True w1[of ?v] by simp
  qed (use that 2(5) in simp)
  moreover have "walk (mmem st') root q = walk (mmem st) root q"
    if "length q = 3" "idx_ok q" "\<forall>i. j \<le> i \<longrightarrow> i < n \<longrightarrow> q \<noteq> vpns (vs + 4096 * i)" for q
  proof -
    have "walk (mmem st') root q = walk (mmem st1) root q" using that 2(6) by (meson Suc_leD)
    then show ?thesis using that 1(5) j(1) by auto
  qed
  ultimately show ?case
    using run 2(2,3,4) 1(2,3) j by (intro exI[of _ st'] exI[of _ F']) auto
qed

section \<open>New address spaces and translation\<close>

lemma mapper_new_spec:
  assumes "pa_inv st F" "F \<noteq> {}" "\<forall>f \<in> F. f < 2 ^ 48"
  obtains st' root where "mapper_new st = Some (st', root)" "root \<in> F" "vm_inv st' root (F - {root})"
    "\<forall>v. virt_to_phys (mmem st') root v = None" "\<forall>v. no_superpage (mmem st') root v"
proof -
  obtain st1 f where a: "alloc st = Some (st1, Some f)" "f \<in> F" "pa_inv st1 (F - {f})"
    using frames.alloc_some[OF assms(1,2)] by blast
  have al: "4096 dvd f" "\<forall>g \<in> F. 4096 dvd g" using frames.inv_frame[OF assms(1)] a(2) by blast+
  define m where "m = zero_page (mmem st1) f"
  have inv: "pa_inv (st1\<lparr>mmem := m\<rparr>) (F - {f})"
  proof (rule frames.inv_mem[OF a(3)])
    fix x assume "x \<in> bytes_of (F - {f})"
    then have "\<not> (f \<le> x \<and> x < f + 4096)"
      using not_in_bytes_of[of "F - {f}" f x] al by blast
    then show "m x = mmem st1 x" by (auto simp: m_def zero_page_def)
  qed
  have empty: "tbl m f (i # p) = None" "walk m f (i # p) = None" if "i < 512" for i p
    using that by (simp_all add: m_def)
  have only: "p = [] \<and> t = f" if "tbl m f p = Some t" "idx_ok p" for p t
    using that empty by (cases p) auto
  have "pt_wf m f (F - {f})"
    unfolding pt_wf_def using only al(1) a(2) assms(3) by (metis DiffD2 singletonI)
  moreover have walk: "walk m f (vpns v) = None" for v
    using empty(2)[of "vpn2 v"] by (simp only: vpns_def vpn_less)
  ultimately show thesis
    using that[of "st1\<lparr>mmem := m\<rparr>" f] a(1,2) inv assms(3)
    by (simp add: mapper_new_def m_def vm_inv_def vm_inv_d_def virt_to_phys_walk no_superpage_def)
qed

lemma or_mask_add:
  assumes "2 ^ k dvd p" "p < usize_bound" "k \<le> 64"
  shows "(p AND unot (2 ^ k - 1)) OR (v AND (2 ^ k - 1)) = p + v mod 2 ^ k"
proof -
  have "(p AND unot (2 ^ k - 1)) = p"
    using and_unot_mask[OF assms(2,3)] assms(1) by simp
  moreover have "p OR (v AND (2 ^ k - 1)) = p + (v AND (2 ^ k - 1))"
  proof (rule disjunctive_add[symmetric])
    fix n
    obtain j where "p = push_bit k j" using assms(1) by (auto simp: push_bit_eq_mult mult.commute elim: dvdE)
    then have "n < k \<Longrightarrow> \<not> bit p n" by (simp add: bit_simps)
    moreover have "bit (v AND (2 ^ k - 1)) n \<Longrightarrow> n < k"
      unfolding and_mask_mod take_bit_eq_mod[symmetric] by (simp add: bit_take_bit_iff)
    ultimately show "\<not> bit p n \<or> \<not> bit (v AND (2 ^ k - 1)) n" by blast
  qed
  ultimately show ?thesis by (simp only: and_mask_mod)
qed

lemma page_split:
  assumes "4096 dvd vs" "vs \<le> (v::nat)"
  shows "v = vs + 4096 * ((v - vs) div 4096) + v mod 4096"
    and "v div 4096 = (vs + 4096 * ((v - vs) div 4096)) div 4096"
proof -
  obtain k where k: "vs = 4096 * k" using assms(1) by (rule dvdE)
  obtain d where d: "v = 4096 * k + d" using assms(2) k by (metis le_add_diff_inverse)
  have "d = 4096 * (d div 4096) + d mod 4096" by simp
  then show "v = vs + 4096 * ((v - vs) div 4096) + v mod 4096" by (simp add: k d)
  show "v div 4096 = (vs + 4096 * ((v - vs) div 4096)) div 4096" by (simp add: k d)
qed

lemma walk_4k_translation:
  assumes "walk m root (vpns v) = Some (0, pte_set p fl)" "4096 dvd p" "p < 2 ^ 48" "fl AND ppn_bits = 0"
  shows "virt_to_phys m root v = Some (p + v mod 4096)"
  using assms or_mask_add[of 12 p v]
  by (simp add: virt_to_phys_walk leaf_mask_def pte_addr_set usize_bound_def)

section \<open>Fresh pages\<close>

lemma map_range_one:
  assumes "4096 dvd v" "4096 dvd p" "v + 4096 < usize_bound" "p < usize_bound"
  shows "map_range st root v p (v + 4096) fl Size4K = map_one st root v p fl 0"
proof -
  have "v mod 4096 = 0" "p mod 4096 = 0" "(v + 4096) mod 4096 = 0" using assms(1,2) by simp_all
  then show ?thesis using assms(3,4)
    by (simp add: map_range_def map_loop.simps[of _ _ _ _ _ 0] map_loop.simps[of _ _ _ _ _ 4096] usize_bound_def split: option.splits)
qed

lemma alloc_keeps_tables:
  assumes "vm_inv_d D st root F" "F \<noteq> {}"
  shows "\<exists>st1 f. alloc st = Some (st1, Some f) \<and> f \<in> F \<and> vm_inv_d (insert f D) st1 root (F - {f}) \<and>
    (\<forall>x. x \<notin> bytes_of F \<longrightarrow> mmem st1 x = mmem st x) \<and>
    (\<forall>q. length q = 3 \<longrightarrow> idx_ok q \<longrightarrow> walk (mmem st1) root q = walk (mmem st) root q)"
proof -
  have inv: "pa_inv st F" "pt_wf (mmem st) root (F \<union> D)" using assms(1) by (auto simp: vm_inv_d_def)
  obtain st1 f where a: "alloc st = Some (st1, Some f)" "f \<in> F" "pa_inv st1 (F - {f})"
    "\<forall>x. x \<notin> bytes_of F \<longrightarrow> mmem st1 x = mmem st x"
    using frames.alloc_some[OF inv(1) assms(2)] by blast
  have agree: "mmem st1 x = mmem st x" if tb: "x \<in> table_bytes (mmem st) root" for x
  proof -
    obtain p t where t: "tbl (mmem st) root p = Some t" "length p \<le> 2" "idx_ok p" "t \<le> x" "x < t + 4096"
      using tb unfolding table_bytes_def by blast
    have "\<forall>f \<in> F. 4096 dvd f" using vm_frame(1)[OF assms(1)] by blast
    then show ?thesis using a(4) not_in_bytes_of[OF _ vm_table(1,3)[OF assms(1) t(1-3)] t(4,5)] by blast
  qed
  have "F - {f} \<union> insert f D = F \<union> D" "(F - {f}) \<inter> insert f D = {}" using a(2) assms(1) by (auto simp: vm_inv_d_def)
  then have "vm_inv_d (insert f D) st1 root (F - {f})"
    using inv(2) a(3) same_tables(5)[OF agree, where F = "F \<union> D"] vm_frame(1,2)[OF assms(1) a(2)] assms(1) by (simp add: vm_inv_d_def)
  then show ?thesis using a same_tables(2)[where m = "mmem st" and m' = "mmem st1" and root = root, OF agree] by blast
qed

lemma zero_data_frame:
  assumes "vm_inv_d D st root F" "f \<in> D"
  shows "vm_inv_d D (st\<lparr>mmem := zero_page (mmem st) f\<rparr>) root F"
    and "length q = 3 \<Longrightarrow> idx_ok q \<Longrightarrow> walk (zero_page (mmem st) f) root q = walk (mmem st) root q"
proof -
  have f: "x \<in> bytes_of D" if "f \<le> x" "x < f + 4096" for x using that assms(2) by (auto simp: bytes_of_def)
  have "x \<notin> bytes_of D" if "x \<in> table_bytes (mmem st) root" for x
    using that data_apart[OF assms(1)] by (force simp: table_bytes_def bytes_of_def)
  then have agree: "zero_page (mmem st) f x = mmem st x" if "x \<in> table_bytes (mmem st) root" for x
    using that f by (auto simp: zero_page_def)
  have "bytes_of F \<inter> bytes_of D = {}"
    using vm_frame(1)[OF assms(1)] assms(1) by (intro bytes_of_disjoint) (auto simp: vm_inv_d_def)
  then have "pa_inv (st\<lparr>mmem := zero_page (mmem st) f\<rparr>) F"
    using assms(1) f by (intro frames.inv_mem) (auto simp: vm_inv_d_def zero_page_def)
  then show "vm_inv_d D (st\<lparr>mmem := zero_page (mmem st) f\<rparr>) root F"
    using assms(1) same_tables(5)[OF agree] by (simp add: vm_inv_d_def)
  show "length q = 3 \<Longrightarrow> idx_ok q \<Longrightarrow> walk (zero_page (mmem st) f) root q = walk (mmem st) root q"
    by (rule same_tables(2)[OF agree])
qed

lemma alloc_and_map_one_ok:
  assumes "vm_inv_d D st root F" "3 \<le> card F" "no_superpage (mmem st) root (vs + 4096 * i)"
    and "4096 dvd vs" "vs + 4096 * i + 4096 < usize_bound"
    and "pf_intersects fl (PF_READ OR PF_WRITE OR PF_EXECUTE)"
  obtains st' F' f where "alloc_and_map_one root vs fl z i st = Some st'" "f \<in> F" "F' \<subseteq> F" "card F \<le> card F' + 3"
    "vm_inv_d (insert f D) st' root F'"
    "\<forall>q. length q = 3 \<longrightarrow> idx_ok q \<longrightarrow> walk (mmem st') root q =
       (if q = vpns (vs + 4096 * i) then Some (0, pte_set f fl) else walk (mmem st) root q)"
    "\<forall>x \<in> bytes_of D. mmem st' x = mmem st x" "z \<longrightarrow> (\<forall>x \<in> bytes_of {f}. mmem st' x = 0)"
proof -
  let ?v = "vs + 4096 * i"
  have fin: "finite F" using assms(1) frames.inv_finite by (auto simp: vm_inv_d_def)
  have "F \<noteq> {}" using assms(2) by auto
  then obtain st1 f where a: "alloc st = Some (st1, Some f)" "f \<in> F" "vm_inv_d (insert f D) st1 root (F - {f})"
    "\<forall>x. x \<notin> bytes_of F \<longrightarrow> mmem st1 x = mmem st x"
    "\<forall>q. length q = 3 \<longrightarrow> idx_ok q \<longrightarrow> walk (mmem st1) root q = walk (mmem st) root q"
    using alloc_keeps_tables[OF assms(1)] by blast
  define st2 where "st2 = (if z then st1\<lparr>mmem := zero_page (mmem st1) f\<rparr> else st1)"
  have inv2: "vm_inv_d (insert f D) st2 root (F - {f})" using a(3) zero_data_frame(1)[OF a(3)] by (simp add: st2_def)
  have w2: "walk (mmem st2) root q = walk (mmem st) root q" if "length q = 3" "idx_ok q" for q
    using a(5) zero_data_frame(2)[OF a(3), of f q] that by (simp add: st2_def)
  have D2: "mmem st2 x = mmem st x" if "x \<in> bytes_of D" for x
  proof -
    have n: "x \<notin> bytes_of (insert root F)" by (rule data_apart[OF assms(1) tbl.simps(1) _ _ that]) simp_all
    then have "x \<notin> bytes_of F" by (auto simp: bytes_of_def)
    moreover from this have "\<not> (f \<le> x \<and> x < f + 4096)" using a(2) by (auto simp: bytes_of_def)
    ultimately show ?thesis using a(4) by (auto simp: st2_def zero_page_def)
  qed
  have c2: "2 \<le> card (F - {f})" using assms(2) fin a(2) by simp
  have nsp: "no_superpage (mmem st2) root ?v" using assms(3) w2[of "vpns ?v"] by (simp add: no_superpage_def)
  obtain st' F' where m: "map_one st2 root ?v f fl 0 = Some st'" "F' \<subseteq> F - {f}" "card (F - {f}) \<le> card F' + 2"
    "vm_inv_d (insert f D) st' root F'"
    "\<forall>q. length q = 3 \<longrightarrow> idx_ok q \<longrightarrow> walk (mmem st') root q =
       (if q = vpns ?v then Some (0, pte_set f fl) else walk (mmem st2) root q)"
    "\<forall>x \<in> bytes_of (insert f D). mmem st' x = mmem st2 x"
    by (rule map_one_4k[OF inv2 c2 nsp assms(6)]; rule that; assumption)
  have f: "4096 dvd f" "f < usize_bound" using vm_frame(1,2)[OF assms(1) a(2)] by (simp_all add: usize_bound_def)
  have "map_range st2 root ?v f (?v + 4096) fl Size4K = Some st'"
    using map_range_one[OF _ f(1) assms(5) f(2)] assms(4) m(1) by simp
  then have run: "alloc_and_map_one root vs fl z i st = Some st'"
    using a(1) assms(5) by (simp add: alloc_and_map_one_def st2_def[symmetric] PAGE_SIZE_def mult.commute)
  have z: "mmem st' x = 0" if "z" "x \<in> bytes_of {f}" for x
    using m(6) that by (auto simp: st2_def zero_page_def bytes_of_def)
  have "mmem st' x = mmem st x" if "x \<in> bytes_of D" for x
    using m(6) D2 that by (auto simp: bytes_of_def)
  moreover have "\<forall>q. length q = 3 \<longrightarrow> idx_ok q \<longrightarrow> walk (mmem st') root q =
       (if q = vpns ?v then Some (0, pte_set f fl) else walk (mmem st) root q)" using m(5) w2 by simp
  moreover have "F' \<subseteq> F" "card F \<le> card F' + 3" using m(2,3) fin a(2) by auto
  ultimately show thesis using that[OF run a(2) _ _ m(4)] z by blast
qed

text \<open>
  The pages from \<open>j\<close> to \<open>n\<close> of the range at \<open>vs\<close> have been given the frames \<open>ph\<close>.
\<close>

definition pages_given ::
  "machine \<Rightarrow> machine \<Rightarrow> usize \<Rightarrow> usize \<Rightarrow> page_flags \<Rightarrow> bool \<Rightarrow> usize set \<Rightarrow> nat \<Rightarrow> nat \<Rightarrow> (nat \<Rightarrow> usize) \<Rightarrow> bool" where
  "pages_given st st' root vs fl z D j n ph \<longleftrightarrow> inj_on ph {j..<n} \<and>
     (\<forall>i \<in> {j..<n}. walk (mmem st') root (vpns (vs + 4096 * i)) = Some (0, pte_set (ph i) fl)) \<and>
     (\<forall>q. length q = 3 \<longrightarrow> idx_ok q \<longrightarrow> (\<forall>i \<in> {j..<n}. q \<noteq> vpns (vs + 4096 * i)) \<longrightarrow>
        walk (mmem st') root q = walk (mmem st) root q) \<and>
     (\<forall>x \<in> bytes_of D. mmem st' x = mmem st x) \<and>
     (z \<longrightarrow> (\<forall>x \<in> bytes_of (ph ` {j..<n}). mmem st' x = 0))"

lemma pages_given_Cons:
  assumes "\<forall>q. length q = 3 \<longrightarrow> idx_ok q \<longrightarrow> walk (mmem st1) root q =
       (if q = vpns (vs + 4096 * j) then Some (0, pte_set f fl) else walk (mmem st) root q)"
    and "\<forall>x \<in> bytes_of D. mmem st1 x = mmem st x" "z \<longrightarrow> (\<forall>x \<in> bytes_of {f}. mmem st1 x = 0)"
    and "pages_given st1 st' root vs fl z (insert f D) (Suc j) n ph" "f \<notin> ph ` {Suc j..<n}"
    and "j < n" "n \<le> 2 ^ 27" "4096 dvd vs"
  shows "pages_given st st' root vs fl z D j n (ph(j := f))"
proof -
  let ?ph = "ph(j := f)"
  have ivl: "{j..<n} = insert j {Suc j..<n}" using assms(6) by auto
  have img: "?ph ` {Suc j..<n} = ph ` {Suc j..<n}" by (auto simp: image_iff)
  have same: "inj_on ?ph {Suc j..<n} = inj_on ph {Suc j..<n}" by (auto simp: inj_on_def)
  have "inj_on ?ph {j..<n}" using assms(4,5) unfolding ivl pages_given_def by (simp add: img same)
  moreover have "walk (mmem st') root (vpns (vs + 4096 * i)) = Some (0, pte_set (?ph i) fl)" if "i \<in> {j..<n}" for i
  proof (cases "i = j")
    case True
    have "vpns (vs + 4096 * j) \<noteq> vpns (vs + 4096 * k)" if "k \<in> {Suc j..<n}" for k
      using page_index_distinct[OF assms(8,6) _ assms(7), of k] that by auto
    then have "walk (mmem st') root (vpns (vs + 4096 * j)) = walk (mmem st1) root (vpns (vs + 4096 * j))"
      using assms(4) vpns_ok[of "vs + 4096 * j"] unfolding pages_given_def by blast
    then show ?thesis using True assms(1) vpns_ok[of "vs + 4096 * j"] by simp
  qed (use that assms(4) in \<open>auto simp: pages_given_def\<close>)
  moreover have "walk (mmem st') root q = walk (mmem st) root q"
    if "length q = 3" "idx_ok q" "\<forall>i \<in> {j..<n}. q \<noteq> vpns (vs + 4096 * i)" for q
    using that assms(1,4) unfolding pages_given_def ivl by simp
  moreover have "mmem st' x = mmem st x" if "x \<in> bytes_of D" for x
    using that assms(2,4) by (auto simp: pages_given_def bytes_of_def)
  moreover have "mmem st' x = 0" if z "x \<in> bytes_of (?ph ` {j..<n})" for x
  proof -
    have "x \<in> bytes_of {f} \<or> x \<in> bytes_of (ph ` {Suc j..<n})" using that(2) unfolding ivl by (auto simp: bytes_of_def split: if_splits)
    moreover have "x \<in> bytes_of {f} \<Longrightarrow> mmem st' x = mmem st1 x" using assms(4) by (auto simp: pages_given_def bytes_of_def)
    ultimately show ?thesis using assms(3,4) that(1) by (auto simp: pages_given_def)
  qed
  ultimately show ?thesis by (simp add: pages_given_def)
qed

lemma alloc_pages_from:
  assumes "vm_inv_d D st root F" "3 * (n - j) \<le> card F" "n \<le> 2 ^ 27" "4096 dvd vs" "vs + 4096 * n < usize_bound" "j \<le> n"
    and "\<forall>i \<in> {j..<n}. no_superpage (mmem st) root (vs + 4096 * i)"
    and "pf_intersects fl (PF_READ OR PF_WRITE OR PF_EXECUTE)"
  shows "\<exists>st' F' ph. ofold (alloc_and_map_one root vs fl z) [j..<n] st = Some st' \<and> F' \<subseteq> F \<and>
    card F \<le> card F' + 3 * (n - j) \<and> ph ` {j..<n} \<subseteq> F \<and>
    vm_inv_d (D \<union> ph ` {j..<n}) st' root F' \<and> pages_given st st' root vs fl z D j n ph"
  using assms
proof (induction "n - j" arbitrary: st F j D)
  case 0
  then show ?case by (intro exI[of _ st] exI[of _ F]) (auto simp: pages_given_def bytes_of_def)
next
  case (Suc k)
  then have j: "j < n" "k = n - Suc j" "3 \<le> card F" by auto
  have nsp: "no_superpage (mmem st) root (vs + 4096 * j)" using Suc.prems(7) j(1) by simp
  have b: "vs + 4096 * j + 4096 < usize_bound" using Suc.prems(5) j(1) by simp
  obtain st1 F1 f where 1: "alloc_and_map_one root vs fl z j st = Some st1" "f \<in> F" "F1 \<subseteq> F" "card F \<le> card F1 + 3"
    "vm_inv_d (insert f D) st1 root F1"
    "\<forall>q. length q = 3 \<longrightarrow> idx_ok q \<longrightarrow> walk (mmem st1) root q =
       (if q = vpns (vs + 4096 * j) then Some (0, pte_set f fl) else walk (mmem st) root q)"
    "\<forall>x \<in> bytes_of D. mmem st1 x = mmem st x" "z \<longrightarrow> (\<forall>x \<in> bytes_of {f}. mmem st1 x = 0)"
    by (rule alloc_and_map_one_ok[OF Suc.prems(1) j(3) nsp Suc.prems(4) b Suc.prems(8)]; rule that; assumption)
  have w1: "walk (mmem st1) root (vpns v) =
      (if vpns v = vpns (vs + 4096 * j) then Some (0, pte_set f fl) else walk (mmem st) root (vpns v))" for v
    using 1(6) vpns_ok by blast
  have "\<forall>i \<in> {Suc j..<n}. no_superpage (mmem st1) root (vs + 4096 * i)"
    using Suc.prems(7) no_superpage_cong[OF w1] by auto
  moreover have "3 * (n - Suc j) \<le> card F1" using j(1) 1(4) Suc.prems(2) by auto
  ultimately obtain st' F' ph where 2: "ofold (alloc_and_map_one root vs fl z) [Suc j..<n] st1 = Some st'" "F' \<subseteq> F1"
    "card F1 \<le> card F' + 3 * (n - Suc j)" "ph ` {Suc j..<n} \<subseteq> F1" "vm_inv_d (insert f D \<union> ph ` {Suc j..<n}) st' root F'"
    "pages_given st1 st' root vs fl z (insert f D) (Suc j) n ph"
    using Suc.hyps(1)[OF j(2) 1(5) _ Suc.prems(3-5)] j(1) Suc.prems(8) by fastforce
  have "f \<notin> ph ` {Suc j..<n}" using 1(5) 2(4) by (auto simp: vm_inv_d_def)
  from pages_given_Cons[OF 1(6-8) 2(6) this j(1) Suc.prems(3,4)]
  have "pages_given st st' root vs fl z D j n (ph(j := f))" .
  moreover have ivl: "(ph(j := f)) ` {j..<n} = insert f (ph ` {Suc j..<n})"
    using j(1) by (auto simp: image_iff)
  moreover have "ofold (alloc_and_map_one root vs fl z) [j..<n] st = Some st'" using 1(1) 2(1) j(1) by (simp add: upt_conv_Cons)
  moreover have "card F \<le> card F' + 3 * (n - j)" using 1(4) 2(3) j(1) by simp
  ultimately show ?case using 1(2,3) 2(2,4,5) by (intro exI[of _ st'] exI[of _ F'] exI[of _ "ph(j := f)"]) auto
qed

text \<open>The same, in terms of addresses.\<close>

lemma alloc_pages_translate:
  assumes "vm_inv_d D st root F" "3 * n \<le> card F" "n \<le> 2 ^ 27" "4096 dvd vs" "vs + 4096 * n < usize_bound"
    and "pf_intersects fl (PF_READ OR PF_WRITE OR PF_EXECUTE)" "fl AND ppn_bits = 0"
    and "\<forall>i < n. no_superpage (mmem st) root (vs + 4096 * i)"
  obtains st' F' ph where "allocate_and_map_pages_impl st root vs (4096 * n) fl z = Some st'" "F' \<subseteq> F"
    "card F \<le> card F' + 3 * n" "ph ` {..<n} \<subseteq> F"
    "vm_inv_d (D \<union> ph ` {..<n}) st' root F'" "pages_given st st' root vs fl z D 0 n ph"
    "\<forall>v. vs \<le> v \<longrightarrow> v < vs + 4096 * n \<longrightarrow>
       virt_to_phys (mmem st') root v = Some (ph ((v - vs) div 4096) + v mod 4096) \<and>
       (z \<longrightarrow> mmem st' (ph ((v - vs) div 4096) + v mod 4096) = 0)"
    "\<forall>v. (\<forall>i < n. vpns v \<noteq> vpns (vs + 4096 * i)) \<longrightarrow> virt_to_phys (mmem st') root v = virt_to_phys (mmem st) root v"
proof -
  obtain st' F' ph where r: "ofold (alloc_and_map_one root vs fl z) [0..<n] st = Some st'" "F' \<subseteq> F" "card F \<le> card F' + 3 * n"
    "ph ` {0..<n} \<subseteq> F" "vm_inv_d (D \<union> ph ` {0..<n}) st' root F'" "pages_given st st' root vs fl z D 0 n ph"
    using alloc_pages_from[OF assms(1), of n 0 vs fl z] assms(2-6,8) by auto
  note g = r(6)[unfolded pages_given_def]
  have "virt_to_phys (mmem st') root v = Some (ph ((v - vs) div 4096) + v mod 4096) \<and>
      (z \<longrightarrow> mmem st' (ph ((v - vs) div 4096) + v mod 4096) = 0)" if v: "vs \<le> v" "v < vs + 4096 * n" for v
  proof -
    define i where "i = (v - vs) div 4096"
    have i: "i \<in> {0..<n}" using v by (simp add: i_def less_mult_imp_div_less)
    have "v div 4096 = (vs + 4096 * i) div 4096" using page_split(2)[OF assms(4) v(1)] by (simp add: i_def)
    then have "vpns v = vpns (vs + 4096 * i)" by (simp only: vpns_eq_iff)
    then have "walk (mmem st') root (vpns v) = Some (0, pte_set (ph i) fl)" using g i by simp
    moreover have "ph i \<in> F" using r(4) i by blast
    moreover have "ph i + v mod 4096 \<in> bytes_of (ph ` {0..<n})" using i by (auto simp: bytes_of_def intro!: bexI[of _ i])
    ultimately show ?thesis using walk_4k_translation[of "mmem st'" root v "ph i" fl] vm_frame[OF assms(1)] assms(7) g
      by (simp add: i_def)
  qed
  moreover have "virt_to_phys (mmem st') root v = virt_to_phys (mmem st) root v"
    if "\<forall>i < n. vpns v \<noteq> vpns (vs + 4096 * i)" for v
    using g that vpns_ok[of v] by (simp add: virt_to_phys_walk)
  moreover have "allocate_and_map_pages_impl st root vs (4096 * n) fl z = Some st'"
    using r(1) by (simp add: allocate_and_map_pages_impl_def PAGE_SIZE_def)
  ultimately show thesis using r(2-6) that[of st' F' ph] unfolding lessThan_atLeast0 by blast
qed

section \<open>Properties\<close>

text \<open>
  C7: mapping a range of 4 KiB pages. In a well-formed address space, with two free frames per
  page for intermediate tables and no superpage in the way, \<open>map_range\<close> does not panic, keeps the
  tables and the allocator well-formed, makes every address of the range translate to the
  corresponding physical address, and leaves every other translation as it was.
\<close>

theorem map_range_translates:
  assumes "vm_inv st root F" "2 * n \<le> card F" "n \<le> 2 ^ 27"
    and "4096 dvd vs" "4096 dvd ps" "vs + 4096 * n < usize_bound" "ps + 4096 * n \<le> 2 ^ 48"
    and "pf_intersects fl (PF_READ OR PF_WRITE OR PF_EXECUTE)" "fl AND ppn_bits = 0"
    and "\<forall>i < n. no_superpage (mmem st) root (vs + 4096 * i)"
  shows "\<exists>st' F'. map_range st root vs ps (vs + 4096 * n) fl Size4K = Some st' \<and> F' \<subseteq> F \<and>
    vm_inv st' root F' \<and>
    (\<forall>v. vs \<le> v \<longrightarrow> v < vs + 4096 * n \<longrightarrow> virt_to_phys (mmem st') root v = Some (ps + (v - vs))) \<and>
    (\<forall>v. (\<forall>i < n. vpns v \<noteq> vpns (vs + 4096 * i)) \<longrightarrow>
       virt_to_phys (mmem st') root v = virt_to_phys (mmem st) root v)"
proof -
  have "ps + 4096 * n < usize_bound" using assms(7) by (simp add: usize_bound_def)
  then obtain st' F' where run: "map_loop st root vs ps (4096 * n) 0 fl Size4K = Some st'" "F' \<subseteq> F"
    "vm_inv st' root F'"
    "\<forall>i < n. walk (mmem st') root (vpns (vs + 4096 * i)) = Some (0, pte_set (ps + 4096 * i) fl)"
    "\<forall>q. length q = 3 \<longrightarrow> idx_ok q \<longrightarrow> (\<forall>i < n. q \<noteq> vpns (vs + 4096 * i)) \<longrightarrow>
       walk (mmem st') root q = walk (mmem st) root q"
    using map_loop_4k[OF assms(1)[unfolded vm_inv_def], of 0 n vs ps fl, folded vm_inv_def] assms(2-4,6,8,10) by auto
  have "virt_to_phys (mmem st') root v = Some (ps + (v - vs))" if v: "vs \<le> v" "v < vs + 4096 * n" for v
  proof -
    define i where "i = (v - vs) div 4096"
    have i: "i < n" using v by (simp add: i_def less_mult_imp_div_less)
    have vm: "v = vs + 4096 * i + v mod 4096" "v div 4096 = (vs + 4096 * i) div 4096"
      using page_split[OF assms(4) v(1)] by (simp_all add: i_def)
    have "vpns v = vpns (vs + 4096 * i)" using vm(2) by (simp only: vpns_eq_iff)
    then have w: "walk (mmem st') root (vpns v) = Some (0, pte_set (ps + 4096 * i) fl)"
      using run(4) i by simp
    have "virt_to_phys (mmem st') root v = Some (ps + 4096 * i + v mod 4096)"
      using walk_4k_translation[OF w _ _ assms(9)] assms(5,7) i by simp
    then show ?thesis using vm(1) by simp
  qed
  moreover have "virt_to_phys (mmem st') root v = virt_to_phys (mmem st) root v"
    if "\<forall>i < n. vpns v \<noteq> vpns (vs + 4096 * i)" for v
    using run(5) that vpns_ok[of v] by (simp add: virt_to_phys_walk)
  moreover have "map_range st root vs ps (vs + 4096 * n) fl Size4K = Some st'"
  proof -
    have "vs mod 4096 = 0" "ps mod 4096 = 0" "(vs + 4096 * n) mod 4096 = 0" using assms(4,5) by simp_all
    then show ?thesis using run(1) by (simp add: map_range_def)
  qed
  ultimately show ?thesis using run(2,3) by blast
qed

theorem map_range_translates_witness:
  "\<exists>st root st'. mapper_new demo_machine = Some (st, root) \<and>
     map_range st root 0x1000 0x80300000 0x2000 (PF_READ OR PF_WRITE) Size4K = Some st' \<and>
     virt_to_phys (mmem st') root 0x1234 = Some 0x80300234"
proof -
  obtain st root where st: "mapper_new demo_machine = Some (st, root)"
    "root \<in> {0x80200000, 0x80201000, 0x80202000}"
    "vm_inv st root ({0x80200000, 0x80201000, 0x80202000} - {root})" "\<forall>v. no_superpage (mmem st) root v"
    by (rule mapper_new_spec[OF demo_machine_inv]) auto
  have card: "card ({0x80200000, 0x80201000, 0x80202000} - {root}) = 2" using st(2) by auto
  have fl: "pf_intersects (PF_READ OR PF_WRITE) (PF_READ OR PF_WRITE OR PF_EXECUTE)"
    "(PF_READ OR PF_WRITE) AND ppn_bits = 0"
    by (simp_all add: pf_intersects_def pf_defs ppn_bits_def)
  obtain st' where "map_range st root 0x1000 0x80300000 (0x1000 + 4096 * 1) (PF_READ OR PF_WRITE) Size4K = Some st'"
    "\<forall>v. 0x1000 \<le> v \<longrightarrow> v < 0x1000 + 4096 * 1 \<longrightarrow>
       virt_to_phys (mmem st') root v = Some (0x80300000 + (v - 0x1000))"
    using map_range_translates[OF st(3), of 1 "0x1000" "0x80300000" "PF_READ OR PF_WRITE"] card fl st(4)
    by (auto simp: usize_bound_def)
  then show ?thesis using st(1) by (intro exI[of _ st] exI[of _ root] exI[of _ st']) simp
qed

text \<open>
  C8: giving fresh zeroed pages to a range of an address space, as for the heap, for \<open>brk\<close> and for \<open>mmap\<close>. With
  three free frames per page the operation does not panic and keeps the invariant; every page of the range is
  mapped to a free frame of its own, its bytes read zero, no other translation changes, and neither
  does any byte of the frames \<open>D\<close> that held data before.
\<close>

theorem allocate_and_map_pages_fresh:
  assumes "vm_inv_d D st root F" "3 * n \<le> card F" "n \<le> 2 ^ 27" "4096 dvd vs" "vs + 4096 * n < usize_bound"
    and "pf_intersects fl (PF_READ OR PF_WRITE OR PF_EXECUTE)" "fl AND ppn_bits = 0"
    and "\<forall>i < n. no_superpage (mmem st) root (vs + 4096 * i)"
  shows "\<exists>st' F' ph. allocate_and_map_pages_zeroed st root vs (4096 * n) fl = Some st' \<and> F' \<subseteq> F \<and> ph ` {..<n} \<subseteq> F \<and>
    vm_inv_d (D \<union> ph ` {..<n}) st' root F' \<and> inj_on ph {..<n} \<and>
    (\<forall>v. vs \<le> v \<longrightarrow> v < vs + 4096 * n \<longrightarrow> virt_to_phys (mmem st') root v = Some (ph ((v - vs) div 4096) + v mod 4096) \<and>
       mmem st' (ph ((v - vs) div 4096) + v mod 4096) = 0) \<and>
    (\<forall>v. (\<forall>i < n. vpns v \<noteq> vpns (vs + 4096 * i)) \<longrightarrow> virt_to_phys (mmem st') root v = virt_to_phys (mmem st) root v) \<and>
    (\<forall>x \<in> bytes_of D. mmem st' x = mmem st x)"
proof -
  obtain st' F' ph where r: "allocate_and_map_pages_impl st root vs (4096 * n) fl True = Some st'" "F' \<subseteq> F"
    "card F \<le> card F' + 3 * n" "ph ` {..<n} \<subseteq> F" "vm_inv_d (D \<union> ph ` {..<n}) st' root F'" "pages_given st st' root vs fl True D 0 n ph"
    and t: "\<forall>v. vs \<le> v \<longrightarrow> v < vs + 4096 * n \<longrightarrow>
       virt_to_phys (mmem st') root v = Some (ph ((v - vs) div 4096) + v mod 4096) \<and>
       (True \<longrightarrow> mmem st' (ph ((v - vs) div 4096) + v mod 4096) = 0)"
    "\<forall>v. (\<forall>i < n. vpns v \<noteq> vpns (vs + 4096 * i)) \<longrightarrow> virt_to_phys (mmem st') root v = virt_to_phys (mmem st) root v"
    by (rule alloc_pages_translate[OF assms, of True]) (rule that)
  moreover have "inj_on ph {..<n} \<and> (\<forall>x \<in> bytes_of D. mmem st' x = mmem st x)"
    using r(6) by (simp add: pages_given_def lessThan_atLeast0)
  ultimately show ?thesis unfolding allocate_and_map_pages_zeroed_def by blast
qed

definition demo_pool :: machine where
  "demo_pool = \<lparr>mmem = store 8 (\<lambda>_. 0) (0x80200000 + 8) 4,
     mpa = \<lparr>pa_head = Some 0x80200000, free_pages = 4, total_pages = 4\<rparr>\<rparr>"

lemma demo_pool_inv: "pa_inv demo_pool {0x80200000, 0x80201000, 0x80202000, 0x80203000}"
proof -
  have "node_next (mmem demo_pool) 0x80200000 = None"
    by (simp add: demo_pool_def node_next_def load_store_disjoint) (simp add: load_def load_bytes_def upt_rec)
  moreover have "node_count (mmem demo_pool) 0x80200000 = 4" by (simp add: demo_pool_def node_count_def load_store_same)
  ultimately have "pa_blocks demo_pool [(0x80200000, 4)]"
    by (simp add: pa_blocks_def block_ok_def usize_bound_def) (simp add: demo_pool_def)
  moreover have "{..<4 :: nat} = {0, 1, 2, 3}" by auto
  then have "frames [(0x80200000, 4)] = {0x80200000, 0x80201000, 0x80202000, 0x80203000}" by (simp add: block_frames_def)
  ultimately show ?thesis unfolding pa_inv_def by metis
qed

theorem allocate_and_map_pages_fresh_witness:
  "\<exists>st root st' p. mapper_new demo_pool = Some (st, root) \<and>
     allocate_and_map_pages_zeroed st root 0x1000 0x1000 (PF_READ OR PF_WRITE) = Some st' \<and>
     virt_to_phys (mmem st') root 0x1234 = Some p \<and> mmem st' p = 0"
proof -
  let ?F = "{0x80200000, 0x80201000, 0x80202000, 0x80203000} :: usize set"
  obtain st root where st: "mapper_new demo_pool = Some (st, root)" "root \<in> ?F" "vm_inv st root (?F - {root})"
    "\<forall>v. no_superpage (mmem st) root v"
    by (rule mapper_new_spec[OF demo_pool_inv]) auto
  have card: "3 * 1 \<le> card (?F - {root})" using st(2) by auto
  have fl: "pf_intersects (PF_READ OR PF_WRITE) (PF_READ OR PF_WRITE OR PF_EXECUTE)" "(PF_READ OR PF_WRITE) AND ppn_bits = 0"
    by (simp_all add: pf_intersects_def pf_defs ppn_bits_def)
  obtain st' ph where r: "allocate_and_map_pages_zeroed st root 0x1000 (4096 * 1) (PF_READ OR PF_WRITE) = Some st'"
    "\<forall>v. 0x1000 \<le> v \<longrightarrow> v < 0x1000 + 4096 * 1 \<longrightarrow>
       virt_to_phys (mmem st') root v = Some (ph ((v - 0x1000) div 4096) + v mod 4096) \<and> mmem st' (ph ((v - 0x1000) div 4096) + v mod 4096) = 0"
  proof -
    have h: "(1 :: nat) \<le> 2 ^ 27" "4096 dvd (0x1000 :: usize)" "0x1000 + 4096 * 1 < usize_bound"
      "\<forall>i < 1. no_superpage (mmem st) root (0x1000 + 4096 * i)" using st(4) by (simp_all add: usize_bound_def)
    show thesis using allocate_and_map_pages_fresh[OF st(3)[unfolded vm_inv_def] card h(1-3) fl h(4)] that by blast
  qed
  then show ?thesis using st(1) r(2)[rule_format, of "0x1234"]
    by (intro exI[of _ st] exI[of _ root] exI[of _ st'] exI[of _ "ph 0 + 0x234"]) simp
qed

text \<open>
  A 1 GiB leaf is translated with a 14-bit instead of a 30-bit page offset: \<open>virt_to_phys\<close>
  returns the wrong physical address for an address inside the page beyond the first 16 KiB.
\<close>

theorem virt_to_phys_1g_wrong:
  "let m = write_pte (\<lambda>_. 0) 0x80200000 0 (pte_set 0x40000000 (PF_READ OR PF_WRITE))
   in virt_to_phys m 0x80200000 0x00104000 = Some 0x40000000"
proof -
  have "pte_addr (pte_set 0x40000000 (PF_READ OR PF_WRITE)) = 0x40000000"
    by (rule pte_addr_set) (simp_all add: pf_defs ppn_bits_def)
  moreover have "pf_intersects (PF_READ OR PF_WRITE) (PF_READ OR PF_WRITE OR PF_EXECUTE)"
    by (simp add: pf_intersects_def pf_defs)
  moreover have "vpn2 0x00104000 = 0" by (simp add: vpn_eqs)
  moreover have "(0x40000000 AND unot (2 ^ 14 - 1)) OR (0x00104000 AND (2 ^ 14 - 1)) = 0x40000000 + 0x00104000 mod 2 ^ 14"
    by (rule or_mask_add) (simp_all add: usize_bound_def)
  ultimately show ?thesis by (simp add: virt_to_phys_def Let_def)
qed

end
