(* ===== verification/Spsc_Ring.thy ===== *)
theory Spsc_Ring
  imports Nano_Prelude
begin

text \<open>
  Model of \<open>src/src/collections/spsc_ring.rs\<close>: the single-producer single-consumer byte ring. The
  operations are refined to a bounded FIFO list; a second part interleaves the producer's and the
  consumer's atomic accesses and shows that the stream received is a prefix of the stream sent.
\<close>

section \<open>The ring and its operations\<close>

record ring =
  buf :: "u8 list"
  head :: usize
  tail :: usize

definition ring_new :: "nat \<Rightarrow> ring" where
  "ring_new N = \<lparr>buf = replicate N 0, head = 0, tail = 0\<rparr>"

definition ring_is_empty :: "ring \<Rightarrow> bool" where
  "ring_is_empty r \<longleftrightarrow> head r = tail r"

definition available :: "nat \<Rightarrow> usize \<Rightarrow> usize \<Rightarrow> usize option" where
  "available N h t = do {
     a \<leftarrow> uadd t N;
     b \<leftarrow> usub a h;
     c \<leftarrow> usub b 1;
     umod c N
   }"

definition copy_in :: "nat \<Rightarrow> u8 list \<Rightarrow> usize \<Rightarrow> u8 list \<Rightarrow> nat \<Rightarrow> u8 list option" where
  "copy_in N b h data to_copy = do {
     contiguous \<leftarrow> usub N h;
     if to_copy \<le> contiguous then do {
       d \<leftarrow> slice data 0 to_copy;
       slice_write b h d
     } else do {
       d1 \<leftarrow> slice data 0 contiguous;
       b1 \<leftarrow> slice_write b h d1;
       d2 \<leftarrow> slice data contiguous to_copy;
       slice_write b1 0 d2
     }
   }"

definition push_slice :: "nat \<Rightarrow> ring \<Rightarrow> u8 list \<Rightarrow> (ring \<times> usize) option" where
  "push_slice N r data = do {
     avail \<leftarrow> available N (head r) (tail r);
     if avail = 0 then Some (r, 0)
     else do {
       let to_copy = min (length data) avail;
       b \<leftarrow> copy_in N (buf r) (head r) data to_copy;
       h \<leftarrow> uadd (head r) to_copy;
       h' \<leftarrow> umod h N;
       Some (r\<lparr>buf := b, head := h'\<rparr>, to_copy)
     }
   }"

definition pop :: "nat \<Rightarrow> ring \<Rightarrow> (ring \<times> u8 option) option" where
  "pop N r =
     (if head r = tail r then Some (r, None)
      else do {
        byte \<leftarrow> list_get (buf r) (tail r);
        t \<leftarrow> uadd (tail r) 1;
        t' \<leftarrow> umod t N;
        Some (r\<lparr>tail := t'\<rparr>, Some byte)
      })"

section \<open>Abstraction to a list\<close>

definition ring_wf :: "nat \<Rightarrow> ring \<Rightarrow> bool" where
  "ring_wf N r \<longleftrightarrow> 0 < N \<and> 2 * N < usize_bound \<and> length (buf r) = N \<and> head r < N \<and> tail r < N"

definition used :: "nat \<Rightarrow> usize \<Rightarrow> usize \<Rightarrow> nat" where
  "used N h t = (h + N - t) mod N"

definition span :: "nat \<Rightarrow> u8 list \<Rightarrow> usize \<Rightarrow> nat \<Rightarrow> u8 list" where
  "span N b t n = map (\<lambda>i. b ! ((t + i) mod N)) [0..<n]"

definition contents :: "nat \<Rightarrow> ring \<Rightarrow> u8 list" where
  "contents N r = span N (buf r) (tail r) (used N (head r) (tail r))"

lemma mod_below_twice: "x < 2 * N \<Longrightarrow> (x::nat) mod N = (if x < N then x else x - N)"
  by (auto simp: le_mod_geq)

lemma used_eq: "h < N \<Longrightarrow> t < N \<Longrightarrow> used N h t = (if t \<le> h then h - t else h + N - t)"
  by (auto simp: used_def mod_below_twice)

lemma available_eq:
  assumes "0 < N" "2 * N < usize_bound" "h < N" "t < N"
  shows "available N h t = Some (N - 1 - used N h t)"
proof -
  have "(t + N - h - 1) mod N = N - 1 - used N h t"
    using assms by (auto simp: mod_below_twice used_eq)
  then show ?thesis
    using assms by (simp add: available_def)
qed

lemma span_length [simp]: "length (span N b t n) = n"
  by (simp add: span_def)

lemma contents_length: "length (contents N r) = used N (head r) (tail r)"
  by (simp add: contents_def)

lemma used_less: "0 < N \<Longrightarrow> used N h t < N"
  by (simp add: used_def)

lemma ring_new_wf: "0 < N \<Longrightarrow> 2 * N < usize_bound \<Longrightarrow> ring_wf N (ring_new N)"
  by (simp add: ring_wf_def ring_new_def)

lemma ring_new_contents: "contents N (ring_new N) = []"
  by (simp add: contents_def ring_new_def used_def span_def)

lemma ring_is_empty_iff: "ring_wf N r \<Longrightarrow> ring_is_empty r \<longleftrightarrow> contents N r = []"
  by (auto simp: ring_wf_def ring_is_empty_def contents_def span_def used_eq split: if_splits)

text \<open>The copy writes the data at the positions \<open>head, head + 1, \<dots>\<close> modulo \<open>N\<close> and nothing else.\<close>

lemma copy_in_spec:
  assumes "length b = N" "h < N" "n \<le> length data" "n < N"
  obtains b' where "copy_in N b h data n = Some b'" "length b' = N"
    "\<forall>j < N. b' ! j =
       (if (j + N - h) mod N < n then data ! ((j + N - h) mod N) else b ! j)"
proof (cases "n \<le> N - h")
  case True
  define b' where "b' = take h b @ take n data @ drop (h + n) b"
  have w: "slice_write b h (take n data) = Some b'"
    using assms True by (simp add: b'_def min_def)
  show thesis
  proof
    show "copy_in N b h data n = Some b'"
      using assms True w by (simp add: copy_in_def)
    show "length b' = N" using slice_write_length[OF w] assms by simp
    show "\<forall>j < N. b' ! j = (if (j + N - h) mod N < n then data ! ((j + N - h) mod N) else b ! j)"
    proof (intro allI impI)
      fix j assume j: "j < N"
      have "(j + N - h) mod N = (if h \<le> j then j - h else j + N - h)"
        using j assms by (auto simp: mod_below_twice)
      then show "b' ! j = (if (j + N - h) mod N < n then data ! ((j + N - h) mod N) else b ! j)"
        using slice_write_nth[OF w, of j] assms True j by auto
    qed
  qed
next
  case False
  define c where "c = N - h"
  define b1 where "b1 = take h b @ take c data"
  define b' where "b' = take (n - c) (drop c data) @ drop (n - c) b1"
  have c: "c < n" "h + c = N" using False assms by (auto simp: c_def)
  have w1: "slice_write b h (take c data) = Some b1"
    using assms c by (simp add: b1_def)
  have l1: "length b1 = N" using slice_write_length[OF w1] assms by simp
  have w2: "slice_write b1 0 (take (n - c) (drop c data)) = Some b'"
    using assms c l1 by (simp add: b'_def slice_write_def)
  show thesis
  proof
    show "copy_in N b h data n = Some b'"
      using assms c w1 w2 False by (simp add: copy_in_def flip: c_def)
    show "length b' = N" using slice_write_length[OF w2] l1 by simp
    show "\<forall>j < N. b' ! j = (if (j + N - h) mod N < n then data ! ((j + N - h) mod N) else b ! j)"
    proof (intro allI impI)
      fix j assume j: "j < N"
      have "(j + N - h) mod N = (if h \<le> j then j - h else c + j)"
        using j c assms by (auto simp: mod_below_twice)
      moreover have "b' ! j = (if j < n - c then data ! (c + j) else b1 ! j)"
        using slice_write_nth[OF w2, of j] assms(3) c l1 j by simp
      moreover have "b1 ! j = (if h \<le> j then data ! (j - h) else b ! j)"
        using slice_write_nth[OF w1, of j] assms(1,3) c j by simp
      ultimately show "b' ! j = (if (j + N - h) mod N < n then data ! ((j + N - h) mod N) else b ! j)"
        using assms(4) c j by auto
    qed
  qed
qed

lemma span_write:
  assumes "h < N" "t < N" "n < N - used N h t"
    and "\<And>j. j < N \<Longrightarrow> b' ! j =
       (if (j + N - h) mod N < n then data ! ((j + N - h) mod N) else b ! j)"
    and "n \<le> length data"
  shows "span N b' t (used N h t + n) = span N b t (used N h t) @ take n data"
proof (rule nth_equalityI)
  fix i assume "i < length (span N b' t (used N h t + n))"
  then have i: "i < used N h t + n" by simp
  define j where "j = (t + i) mod N"
  have j: "j < N" using assms(1) by (simp add: j_def)
  have lt: "t + i < 2 * N" using i assms by (auto simp: used_eq split: if_splits)
  have "(j + N - h) mod N = (if i < used N h t then i + N - used N h t else i - used N h t)"
    using i assms(1-3) lt by (auto simp: j_def mod_below_twice used_eq split: if_splits)
  then have "b' ! j = (if i < used N h t then b ! j else data ! (i - used N h t))"
    using assms(3,4) i j by (auto split: if_splits)
  then show "span N b' t (used N h t + n) ! i = (span N b t (used N h t) @ take n data) ! i"
    using i by (simp add: span_def nth_append j_def)
qed (use assms in simp)

lemma used_advance_head:
  assumes "h < N" "t < N" "n < N - used N h t"
  shows "used N ((h + n) mod N) t = used N h t + n"
  using assms by (auto simp: used_eq mod_below_twice split: if_splits)

lemma push_slice_spec:
  fixes data :: "u8 list"
  assumes "ring_wf N r"
  defines "n \<equiv> min (length data) (N - 1 - length (contents N r))"
  obtains r' where "push_slice N r data = Some (r', n)" "ring_wf N r'"
    "contents N r' = contents N r @ take n data" "tail r' = tail r"
proof -
  let ?u = "used N (head r) (tail r)"
  have wf: "0 < N" "2 * N < usize_bound" "length (buf r) = N" "head r < N" "tail r < N"
    using assms(1) by (auto simp: ring_wf_def)
  have u: "?u < N" using wf used_less by blast
  have n: "n = min (length data) (N - 1 - ?u)" by (simp add: n_def contents_length)
  then have n_lt: "n < N - ?u" "n < N" "n \<le> length data" using u by auto
  obtain b' where b': "copy_in N (buf r) (head r) data n = Some b'" "length b' = N"
    "\<forall>j < N. b' ! j =
       (if (j + N - head r) mod N < n then data ! ((j + N - head r) mod N) else buf r ! j)"
    using copy_in_spec[OF wf(3,4) n_lt(3,2)] by blast
  define r' where "r' = r\<lparr>buf := b', head := (head r + n) mod N\<rparr>"
  have r': "ring_wf N r'" "tail r' = tail r"
    using wf b'(2) by (simp_all add: r'_def ring_wf_def)
  have "contents N r' = contents N r @ take n data"
    using span_write[OF wf(4,5) n_lt(1) b'(3)[rule_format] n_lt(3)] used_advance_head[OF wf(4,5) n_lt(1)]
    by (simp add: contents_def r'_def)
  moreover have "push_slice N r data = Some (if N - 1 - ?u = 0 then r else r', n)"
  proof (cases "N - 1 - ?u = 0")
    case True
    then show ?thesis
      using n available_eq[OF wf(1,2,4,5)] by (simp add: push_slice_def)
  next
    case False
    have "uadd (head r) n = Some (head r + n)" "umod (head r + n) N = Some ((head r + n) mod N)"
      using wf n_lt by simp_all
    moreover have "min (length data) (N - Suc ?u) = n" using n by simp
    ultimately show ?thesis
      using False b'(1) available_eq[OF wf(1,2,4,5)] by (simp add: push_slice_def r'_def Let_def)
  qed
  ultimately show thesis
  proof (cases "N - 1 - ?u = 0")
    case True
    with n have "n = 0" by simp
    with True \<open>push_slice N r data = _\<close> assms(1) show thesis by (intro that[of r]) simp_all
  qed (use that[of r'] r' in simp)
qed

lemma span_Suc:
  "t < N \<Longrightarrow> span N b t (Suc k) = b ! t # span N b ((t + 1) mod N) k"
  unfolding span_def upt_conv_Cons[OF zero_less_Suc] map_Suc_upt[symmetric]
  by (simp add: mod_simps)

lemma used_advance_tail:
  assumes "h < N" "t < N" "0 < used N h t"
  shows "used N h ((t + 1) mod N) = used N h t - 1"
  using assms by (auto simp: used_eq mod_below_twice split: if_splits)

lemma used_zero_iff: "h < N \<Longrightarrow> t < N \<Longrightarrow> used N h t = 0 \<longleftrightarrow> h = t"
  by (auto simp: used_eq)

lemma pop_spec:
  assumes "ring_wf N r"
  obtains r' where "pop N r = Some (r', case contents N r of [] \<Rightarrow> None | x # _ \<Rightarrow> Some x)"
    "ring_wf N r'" "contents N r' = tl (contents N r)" "head r' = head r"
proof (cases "head r = tail r")
  case True
  then have "contents N r = []" "pop N r = Some (r, None)"
    using ring_is_empty_iff[OF assms] by (simp_all add: ring_is_empty_def pop_def)
  then show thesis using that[of r] assms by simp
next
  case False
  have wf: "0 < N" "2 * N < usize_bound" "length (buf r) = N" "head r < N" "tail r < N"
    using assms(1) by (auto simp: ring_wf_def)
  define r' where "r' = r\<lparr>tail := (tail r + 1) mod N\<rparr>"
  let ?u = "used N (head r) (tail r)"
  have "?u \<noteq> 0" using wf False used_zero_iff by simp
  then obtain k where k: "?u = Suc k" "used N (head r) ((tail r + 1) mod N) = k"
    using used_advance_tail[OF wf(4,5)] by (cases ?u) auto
  have c: "contents N r = buf r ! tail r # span N (buf r) ((tail r + 1) mod N) k"
    using wf(5) unfolding contents_def k(1) by (rule span_Suc)
  show thesis
  proof (rule that)
    show "pop N r = Some (r', case contents N r of [] \<Rightarrow> None | x # _ \<Rightarrow> Some x)"
      using False wf c by (simp add: pop_def r'_def)
    show "ring_wf N r'" using wf by (simp add: ring_wf_def r'_def)
    show "contents N r' = tl (contents N r)" using c k(2) by (simp add: contents_def r'_def)
    show "head r' = head r" by (simp add: r'_def)
  qed
qed

section \<open>The queue interface\<close>

text \<open>
  What the users of the ring rely on: a byte queue of a fixed capacity whose operations do not
  panic while the invariant holds. \<open>run_pops\<close> is the consumer loop of the interrupt handler.
\<close>

fun run_pops :: "('q \<Rightarrow> ('q \<times> u8 option) option) \<Rightarrow> nat \<Rightarrow> 'q \<Rightarrow> ('q \<times> u8 list) option" where
  "run_pops pop_op 0 q = Some (q, [])"
| "run_pops pop_op (Suc n) q = do {
     (q1, ob) \<leftarrow> pop_op q;
     (case ob of
        None \<Rightarrow> Some (q1, [])
      | Some b \<Rightarrow> do {
          (q2, bs) \<leftarrow> run_pops pop_op n q1;
          Some (q2, b # bs)
        })
   }"

locale byte_queue =
  fixes inv :: "'q \<Rightarrow> bool"
    and abs :: "'q \<Rightarrow> u8 list"
    and cap :: nat
    and push :: "'q \<Rightarrow> u8 list \<Rightarrow> ('q \<times> nat) option"
    and pop_op :: "'q \<Rightarrow> ('q \<times> u8 option) option"
  assumes cap_pos: "0 < cap"
    and push_law: "inv q \<Longrightarrow> \<exists>q'. push q d = Some (q', min (length d) (cap - length (abs q))) \<and>
        inv q' \<and> abs q' = abs q @ take (min (length d) (cap - length (abs q))) d"
    and pop_law: "inv q \<Longrightarrow> \<exists>q'. pop_op q =
          Some (q', case abs q of [] \<Rightarrow> None | x # _ \<Rightarrow> Some x) \<and> inv q' \<and> abs q' = tl (abs q)"
begin

lemma run_pops_fifo:
  assumes "inv q"
  shows "\<exists>q'. run_pops pop_op n q = Some (q', take n (abs q)) \<and> inv q' \<and> abs q' = drop n (abs q)"
  using assms
proof (induction n arbitrary: q)
  case (Suc n)
  obtain q1 where q1: "pop_op q = Some (q1, case abs q of [] \<Rightarrow> None | x # _ \<Rightarrow> Some x)"
    "inv q1" "abs q1 = tl (abs q)"
    using pop_law[OF Suc.prems] by blast
  obtain q2 where q2: "run_pops pop_op n q1 = Some (q2, take n (abs q1))" "inv q2"
    "abs q2 = drop n (abs q1)"
    using Suc.IH[OF q1(2)] by blast
  show ?case
  proof (cases "abs q")
    case Nil
    then show ?thesis using q1 by simp
  next
    case (Cons x xs)
    then show ?thesis using q1 q2 by simp
  qed
qed simp

lemma push_progress:
  assumes "inv q" "length (abs q) < cap" "d \<noteq> []"
  shows "\<exists>q' n. push q d = Some (q', n) \<and> 0 < n \<and> n \<le> length d \<and> inv q' \<and> abs q' = abs q @ take n d"
proof -
  let ?n = "min (length d) (cap - length (abs q))"
  obtain q' where "push q d = Some (q', ?n)" "inv q'" "abs q' = abs q @ take ?n d"
    using push_law[OF assms(1), of d] by blast
  moreover have "0 < ?n" using assms(2,3) by simp
  ultimately show ?thesis by (metis min.cobounded1)
qed

lemma push_full:
  assumes "inv q" "push q d = Some (q', 0)" "d \<noteq> []"
  shows "inv q'" "abs q' = abs q" "cap \<le> length (abs q)"
  using push_law[OF assms(1), of d] assms(2,3) by (auto simp: min_def split: if_splits)

end

lemma ring_byte_queue:
  assumes "1 < N" "2 * N < usize_bound"
  shows "byte_queue (ring_wf N) (contents N) (N - 1) (push_slice N) (pop N)"
proof
  show "0 < N - 1" using assms by simp
  fix q d assume wf: "ring_wf N q"
  show "\<exists>q'. push_slice N q d = Some (q', min (length d) (N - 1 - length (contents N q))) \<and>
      ring_wf N q' \<and> contents N q' = contents N q @ take (min (length d) (N - 1 - length (contents N q))) d"
    by (rule push_slice_spec[OF wf, of d]) blast
  show "\<exists>q'. pop N q = Some (q', case contents N q of [] \<Rightarrow> None | x # _ \<Rightarrow> Some x) \<and>
      ring_wf N q' \<and> contents N q' = tl (contents N q)"
    by (rule pop_spec[OF wf]) blast
qed

definition TX_RING_SIZE :: nat where
  "TX_RING_SIZE = 1024"

interpretation tx: byte_queue "ring_wf TX_RING_SIZE" "contents TX_RING_SIZE" "TX_RING_SIZE - 1"
    "push_slice TX_RING_SIZE" "pop TX_RING_SIZE"
  by (rule ring_byte_queue) (simp_all add: TX_RING_SIZE_def usize_bound_def)

section \<open>Producer and consumer interleaved\<close>

text \<open>
  The atomic accesses of \<open>push_slice\<close> (load of \<open>tail\<close>, the copy, store of \<open>head\<close>) and of \<open>pop\<close>
  (load of \<open>head\<close>, the byte read, store of \<open>tail\<close>) as separate steps. Each side loads its own
  index, which only it writes, together with the other one. The copy is one step: it writes only
  slots outside the occupied range, which the consumer never reads. \<open>sent\<close> and \<open>received\<close> record
  the two streams.
\<close>

datatype producer = P_Idle | P_Loaded "u8 list" usize usize | P_Copied "u8 list" usize nat

datatype consumer = C_Idle | C_Loaded usize usize | C_Read usize u8

record spsc =
  sring :: ring
  prod :: producer
  cons :: consumer
  sent :: "u8 list"
  received :: "u8 list"

definition spsc_init :: "nat \<Rightarrow> spsc" where
  "spsc_init N = \<lparr>sring = ring_new N, prod = P_Idle, cons = C_Idle, sent = [], received = []\<rparr>"

inductive spsc_step :: "nat \<Rightarrow> spsc \<Rightarrow> spsc \<Rightarrow> bool" for N where
  p_load: "prod s = P_Idle \<Longrightarrow>
    spsc_step N s (s\<lparr>prod := P_Loaded d (head (sring s)) (tail (sring s))\<rparr>)"
| p_full: "prod s = P_Loaded d h t \<Longrightarrow> available N h t = Some 0 \<Longrightarrow>
    spsc_step N s (s\<lparr>prod := P_Idle\<rparr>)"
| p_copy: "prod s = P_Loaded d h t \<Longrightarrow> available N h t = Some a \<Longrightarrow> a \<noteq> 0 \<Longrightarrow>
    copy_in N (buf (sring s)) h d (min (length d) a) = Some b \<Longrightarrow>
    spsc_step N s (s\<lparr>sring := (sring s)\<lparr>buf := b\<rparr>, prod := P_Copied d h (min (length d) a)\<rparr>)"
| p_store: "prod s = P_Copied d h n \<Longrightarrow>
    spsc_step N s (s\<lparr>sring := (sring s)\<lparr>head := (h + n) mod N\<rparr>, prod := P_Idle,
      sent := sent s @ take n d\<rparr>)"
| c_load: "cons s = C_Idle \<Longrightarrow>
    spsc_step N s (s\<lparr>cons := C_Loaded (tail (sring s)) (head (sring s))\<rparr>)"
| c_empty: "cons s = C_Loaded t h \<Longrightarrow> h = t \<Longrightarrow> spsc_step N s (s\<lparr>cons := C_Idle\<rparr>)"
| c_read: "cons s = C_Loaded t h \<Longrightarrow> h \<noteq> t \<Longrightarrow> list_get (buf (sring s)) t = Some b \<Longrightarrow>
    spsc_step N s (s\<lparr>cons := C_Read t b\<rparr>)"
| c_store: "cons s = C_Read t b \<Longrightarrow>
    spsc_step N s (s\<lparr>sring := (sring s)\<lparr>tail := (t + 1) mod N\<rparr>, cons := C_Idle,
      received := received s @ [b]\<rparr>)"

inductive spsc_reachable :: "nat \<Rightarrow> spsc \<Rightarrow> bool" for N where
  init: "spsc_reachable N (spsc_init N)"
| step: "spsc_reachable N s \<Longrightarrow> spsc_step N s s' \<Longrightarrow> spsc_reachable N s'"

subsection \<open>The invariant\<close>

definition prod_ok :: "nat \<Rightarrow> ring \<Rightarrow> producer \<Rightarrow> bool" where
  "prod_ok N r p = (case p of
     P_Idle \<Rightarrow> True
   | P_Loaded d h t \<Rightarrow> h = head r \<and> t < N \<and> used N (head r) (tail r) \<le> used N h t
   | P_Copied d h n \<Rightarrow> h = head r \<and> n \<le> length d \<and> used N (head r) (tail r) + n < N \<and>
       span N (buf r) (tail r) (used N (head r) (tail r) + n) = contents N r @ take n d)"

definition cons_ok :: "nat \<Rightarrow> ring \<Rightarrow> consumer \<Rightarrow> bool" where
  "cons_ok N r c = (case c of
     C_Idle \<Rightarrow> True
   | C_Loaded t h \<Rightarrow> t = tail r \<and> h < N \<and> used N h t \<le> used N (head r) (tail r)
   | C_Read t b \<Rightarrow> t = tail r \<and> 0 < used N (head r) (tail r) \<and> b = buf r ! tail r)"

definition spsc_inv :: "nat \<Rightarrow> spsc \<Rightarrow> bool" where
  "spsc_inv N s \<longleftrightarrow> ring_wf N (sring s) \<and> prod_ok N (sring s) (prod s) \<and>
     cons_ok N (sring s) (cons s) \<and> sent s = received s @ contents N (sring s)"

lemma ring_wfD:
  assumes "ring_wf N r"
  shows "0 < N" "2 * N < usize_bound" "length (buf r) = N" "head r < N" "tail r < N"
  using assms by (auto simp: ring_wf_def)

text \<open>The producer's loaded \<open>tail\<close> can be old; then the room it computes is at most the real room.\<close>

lemma producer_copy:
  assumes "ring_wf N r" "prod_ok N r (P_Loaded d h t)" "available N h t = Some a"
  obtains b where "copy_in N (buf r) h d (min (length d) a) = Some b" "ring_wf N (r\<lparr>buf := b\<rparr>)"
    "contents N (r\<lparr>buf := b\<rparr>) = contents N r"
    "prod_ok N (r\<lparr>buf := b\<rparr>) (P_Copied d h (min (length d) a))"
    "\<forall>c. cons_ok N r c \<longrightarrow> cons_ok N (r\<lparr>buf := b\<rparr>) c"
proof -
  note wf = ring_wfD[OF assms(1)]
  let ?u = "used N (head r) (tail r)" and ?n = "min (length d) a"
  have h: "h = head r" "t < N" "?u \<le> used N h t" using assms(2) by (auto simp: prod_ok_def)
  have "a = N - 1 - used N h t"
    using assms(3) available_eq[OF wf(1,2) _ h(2), of h] wf h by simp
  then have n: "?n < N - ?u" "?n < N" "?n \<le> length d"
    using h wf(1) used_less[OF wf(1), of h t] used_less[OF wf(1), of "head r" "tail r"] by auto
  obtain b where b: "copy_in N (buf r) (head r) d ?n = Some b" "length b = N"
    "\<forall>j < N. b ! j = (if (j + N - head r) mod N < ?n then d ! ((j + N - head r) mod N) else buf r ! j)"
    using copy_in_spec[OF wf(3,4) n(3,2)] by blast
  have sp: "span N b (tail r) (?u + ?n) = span N (buf r) (tail r) ?u @ take ?n d"
    by (rule span_write[OF wf(4,5) n(1) b(3)[rule_format] n(3)])
  have "take ?u (span N b (tail r) (?u + ?n)) = span N b (tail r) ?u"
    by (simp add: span_def take_map)
  then have c: "contents N (r\<lparr>buf := b\<rparr>) = contents N r"
    using sp by (simp add: contents_def)
  have "b ! tail r = buf r ! tail r" if u: "0 < ?u"
  proof -
    obtain k where k: "?u = Suc k" using u gr0_implies_Suc by blast
    show ?thesis using c span_Suc[OF wf(5)] by (simp add: contents_def k)
  qed
  then have "\<forall>c. cons_ok N r c \<longrightarrow> cons_ok N (r\<lparr>buf := b\<rparr>) c"
    by (auto simp: cons_ok_def split: consumer.splits)
  moreover have "prod_ok N (r\<lparr>buf := b\<rparr>) (P_Copied d h ?n)"
    using sp c h n by (simp add: prod_ok_def contents_def)
  ultimately show thesis
    using that[of b] b(1,2) c h(1) assms(1) by (simp add: ring_wf_def)
qed

lemma producer_store:
  assumes "ring_wf N r" "prod_ok N r (P_Copied d h n)" "cons_ok N r c"
  defines "r' \<equiv> r\<lparr>head := (h + n) mod N\<rparr>"
  shows "ring_wf N r'" "contents N r' = contents N r @ take n d" "cons_ok N r' c"
proof -
  note wf = ring_wfD[OF assms(1)]
  have p: "h = head r" "n < N - used N (head r) (tail r)"
    "span N (buf r) (tail r) (used N (head r) (tail r) + n) = contents N r @ take n d"
    using assms(2) by (auto simp: prod_ok_def)
  have u: "used N ((head r + n) mod N) (tail r) = used N (head r) (tail r) + n"
    using used_advance_head[OF wf(4,5) p(2)] .
  show "ring_wf N r'" using assms(1) wf by (simp add: r'_def ring_wf_def)
  show "contents N r' = contents N r @ take n d"
    using p u by (simp add: contents_def r'_def)
  show "cons_ok N r' c"
    using assms(3) p(1) u by (auto simp: cons_ok_def r'_def split: consumer.splits)
qed

lemma consumer_store:
  assumes "ring_wf N r" "cons_ok N r (C_Read t b)" "prod_ok N r p"
  defines "r' \<equiv> r\<lparr>tail := (t + 1) mod N\<rparr>"
  shows "ring_wf N r'" "contents N r = b # contents N r'" "prod_ok N r' p"
proof -
  note wf = ring_wfD[OF assms(1)]
  have c: "t = tail r" "0 < used N (head r) (tail r)" "b = buf r ! tail r"
    using assms(2) by (auto simp: cons_ok_def)
  obtain k where k: "used N (head r) (tail r) = Suc k" using c(2) by (cases "used N (head r) (tail r)") auto
  have u: "used N (head r) ((tail r + 1) mod N) = k"
    using used_advance_tail[OF wf(4,5) c(2)] k by simp
  show "ring_wf N r'" using assms(1) wf by (simp add: r'_def ring_wf_def)
  show cont: "contents N r = b # contents N r'"
    using c u k span_Suc[OF wf(5)] by (simp add: contents_def r'_def)
  show "prod_ok N r' p"
  proof (cases p)
    case (P_Copied d h n)
    then have "span N (buf r) (tail r) (Suc (k + n)) = contents N r @ take n d"
      using assms(3) k by (simp add: prod_ok_def)
    then show ?thesis
      using assms(3) P_Copied cont c u k span_Suc[OF wf(5), of "buf r" "k + n"]
      by (simp add: prod_ok_def r'_def)
  qed (use assms(3) c u k in \<open>auto simp: prod_ok_def r'_def\<close>)
qed

lemma spsc_inv_step: "spsc_step N s s' \<Longrightarrow> spsc_inv N s \<Longrightarrow> spsc_inv N s'"
proof (induction rule: spsc_step.induct)
  case (p_load s d)
  then show ?case using ring_wfD(5) by (simp add: spsc_inv_def prod_ok_def)
next
  case (p_full s d h t)
  then show ?case by (simp add: spsc_inv_def prod_ok_def)
next
  case (p_copy s d h t a b)
  have inv: "ring_wf N (sring s)" "prod_ok N (sring s) (P_Loaded d h t)" "cons_ok N (sring s) (cons s)"
    "sent s = received s @ contents N (sring s)"
    using p_copy.prems p_copy(1) by (simp_all add: spsc_inv_def)
  obtain b' where b': "copy_in N (buf (sring s)) h d (min (length d) a) = Some b'"
    "ring_wf N (sring s\<lparr>buf := b'\<rparr>)" "contents N (sring s\<lparr>buf := b'\<rparr>) = contents N (sring s)"
    "prod_ok N (sring s\<lparr>buf := b'\<rparr>) (P_Copied d h (min (length d) a))"
    "\<forall>c. cons_ok N (sring s) c \<longrightarrow> cons_ok N (sring s\<lparr>buf := b'\<rparr>) c"
    using producer_copy[OF inv(1,2) p_copy(2)] by blast
  moreover have "b = b'" using b'(1) p_copy(4) by simp
  ultimately show ?case using inv by (simp add: spsc_inv_def)
next
  case (p_store s d h n)
  then show ?case
    using producer_store[of N "sring s" d h n "cons s"] by (simp add: spsc_inv_def prod_ok_def)
next
  case (c_load s)
  then show ?case using ring_wfD(4) by (simp add: spsc_inv_def cons_ok_def)
next
  case (c_empty s t h)
  then show ?case by (simp add: spsc_inv_def cons_ok_def)
next
  case (c_read s t h b)
  have inv: "ring_wf N (sring s)" "t = tail (sring s)" "h < N"
    "used N h t \<le> used N (head (sring s)) (tail (sring s))"
    using c_read.prems c_read(1) by (auto simp: spsc_inv_def cons_ok_def)
  have "used N h t \<noteq> 0"
    using used_zero_iff[OF inv(3), of t] ring_wfD(5)[OF inv(1)] inv(2) c_read(2) by simp
  then show ?case
    using c_read.prems list_get_SomeD[OF c_read(3)] inv by (auto simp: spsc_inv_def cons_ok_def)
next
  case (c_store s t b)
  then show ?case
    using consumer_store[of N "sring s" t b "prod s"] by (simp add: spsc_inv_def cons_ok_def)
qed

lemma spsc_reachable_inv:
  assumes "spsc_reachable N s" "0 < N" "2 * N < usize_bound"
  shows "spsc_inv N s"
  using assms(1)
proof induction
  case init
  then show ?case
    using ring_new_wf[OF assms(2,3)]
    by (simp add: spsc_inv_def spsc_init_def prod_ok_def cons_ok_def ring_new_contents)
qed (rule spsc_inv_step)

section \<open>Properties\<close>

text \<open>
  C5: on a well-formed ring \<open>push_slice\<close> does not panic, accepts exactly as many bytes as fit in
  the \<open>N - 1\<close> usable slots, appends those bytes to the queue's contents and keeps the ring
  well-formed, also when the copy wraps around the end of the buffer.
\<close>

theorem push_slice_refines_append:
  assumes "ring_wf N r"
  shows "\<exists>r'. push_slice N r data = Some (r', min (length data) (N - 1 - length (contents N r))) \<and>
    ring_wf N r' \<and>
    contents N r' = contents N r @ take (min (length data) (N - 1 - length (contents N r))) data"
  by (rule push_slice_spec[OF assms, of data]) blast

theorem push_slice_refines_append_witness:
  "push_slice 4 \<lparr>buf = [9, 9, 9, 7], head = 3, tail = 3\<rparr> [1, 2, 3, 4, 5] =
     Some (\<lparr>buf = [2, 3, 9, 1], head = 2, tail = 3\<rparr>, 3) \<and>
   contents 4 \<lparr>buf = [2, 3, 9, 1], head = 2, tail = 3\<rparr> = [1, 2, 3]"
proof -
  have wf: "ring_wf 4 \<lparr>buf = [9, 9, 9, 7], head = 3, tail = 3\<rparr>"
    by (simp add: ring_wf_def usize_bound_def)
  have run: "push_slice 4 \<lparr>buf = [9, 9, 9, 7], head = 3, tail = 3\<rparr> [1, 2, 3, 4, 5] =
      Some (\<lparr>buf = [2, 3, 9, 1], head = 2, tail = 3\<rparr>, 3)"
    by (simp add: push_slice_def available_def copy_in_def usize_bound_def)
  from push_slice_refines_append[OF wf, of "[1, 2, 3, 4, 5]"] run show ?thesis
    by (simp add: contents_def used_def span_def)
qed

text \<open>
  C6: in every interleaving of one producer and one consumer, the bytes sent so far are the bytes
  received so far followed by the bytes in the ring; at most \<open>N - 1\<close> bytes are in the ring, and a
  producer that has loaded the indices can always go on (its accesses never panic).
\<close>

theorem spsc_fifo:
  assumes "spsc_reachable N s" "0 < N" "2 * N < usize_bound"
  shows "sent s = received s @ contents N (sring s) \<and> length (contents N (sring s)) < N \<and>
    (\<forall>d h t. prod s = P_Loaded d h t \<longrightarrow> (\<exists>s'. spsc_step N s s' \<and> prod s' \<noteq> prod s))"
proof (intro conjI allI impI)
  note inv = spsc_reachable_inv[OF assms]
  show "sent s = received s @ contents N (sring s)" using inv by (simp add: spsc_inv_def)
  show "length (contents N (sring s)) < N" using used_less[OF assms(2)] by (simp add: contents_length)
  fix d h t assume p: "prod s = P_Loaded d h t"
  have wf: "ring_wf N (sring s)" and pr: "prod_ok N (sring s) (P_Loaded d h t)"
    using inv p by (simp_all add: spsc_inv_def)
  have "h < N" "t < N" using pr ring_wfD(4)[OF wf] by (simp_all add: prod_ok_def)
  then obtain a where a: "available N h t = Some a" using available_eq[OF assms(2,3)] by blast
  obtain b where "copy_in N (buf (sring s)) h d (min (length d) a) = Some b"
    using producer_copy[OF wf pr a] by blast
  then show "\<exists>s'. spsc_step N s s' \<and> prod s' \<noteq> prod s"
    using spsc_step.p_copy[OF p a] spsc_step.p_full[of s d h t N] p a by (cases "a = 0") fastforce+
qed

theorem spsc_fifo_witness:
  "\<exists>s. spsc_reachable 2 s \<and> sent s = [7] \<and> received s = [] \<and> contents 2 (sring s) = [7]"
proof -
  define s1 where "s1 = (spsc_init 2)\<lparr>prod := P_Loaded [7, 8] 0 0\<rparr>"
  define s2 where "s2 = s1\<lparr>sring := (sring s1)\<lparr>buf := [7, 0]\<rparr>, prod := P_Copied [7, 8] 0 1\<rparr>"
  define s3 where "s3 = s2\<lparr>sring := (sring s2)\<lparr>head := 1\<rparr>, prod := P_Idle, sent := [7]\<rparr>"
  have "spsc_step 2 (spsc_init 2) s1"
    using spsc_step.p_load[of "spsc_init 2" 2 "[7, 8]"] by (simp add: s1_def spsc_init_def ring_new_def)
  moreover have "available 2 0 0 = Some 1" "copy_in 2 [0, 0] 0 [7, 8] 1 = Some [7, 0]"
    by (simp_all add: available_def copy_in_def usize_bound_def)
  then have "spsc_step 2 s1 s2"
    using spsc_step.p_copy[of s1 "[7, 8]" 0 0 2 1 "[7, 0]"]
    by (simp add: s1_def s2_def spsc_init_def ring_new_def numeral_2_eq_2)
  moreover have "spsc_step 2 s2 s3"
    using spsc_step.p_store[of s2 "[7, 8]" 0 1 2] by (simp add: s1_def s2_def s3_def spsc_init_def)
  ultimately have r: "spsc_reachable 2 s3"
    by (meson spsc_reachable.intros)
  have s3: "sent s3 = [7]" "received s3 = []" by (simp_all add: s3_def s2_def s1_def spsc_init_def)
  from spsc_fifo[OF r] s3 have "contents 2 (sring s3) = [7]" by (simp add: usize_bound_def)
  with r s3 show ?thesis by blast
qed

end
