(* ===== verification/Threads.thy ===== *)
theory Threads
  imports Nano_Prelude
begin

text \<open>
  Model of \<open>src/src/thread.rs\<close> and the idle thread of \<open>src/src/kthread/idle.rs\<close>: the thread table,
  the ready queue, message passing and the scheduler. Kernel threads run with interrupts disabled,
  so each operation is one step; interrupt handlers act on the scheduler through \<open>wake_thread\<close> and
  \<open>send_message\<close> at the points where the code opens the interrupt window (in \<open>yield_impl\<close> and in
  the idle loop). The CPU state kept is what the switch saves and sets: the callee-saved registers,
  the program counter, the trap vector and the trampoline frame.
\<close>

unbundle bit_operations_syntax

section \<open>Data\<close>

datatype thread_state = Running | Ready | Blocked

record message =
  m_sender :: usize
  m_data :: usize

record thread_context =
  tc_sp :: u64
  tc_ra :: u64
  tc_s :: "u64 list"  \<comment> \<open>\<open>s0\<close> to \<open>s11\<close>\<close>

text \<open>The fields of the process context that the scheduler reads.\<close>

record process_ref =
  pr_id :: nat
  pr_trap_frame :: u64
  pr_user_sp :: u64
  pr_user_t0 :: u64

record thread =
  t_id :: usize
  t_state :: thread_state
  t_context :: thread_context
  t_stack_base :: u64
  t_stack_len :: usize
  t_inbox :: "message list"
  t_process :: "process_ref option"

datatype trap_vector = Kernel_Trap_Entry | User_Trap_Entry

record cpu =
  c_regs :: thread_context
  c_pc :: u64
  c_stvec :: trap_vector
  c_sscratch :: u64
  c_tramp_kernel_sp :: u64
  c_tramp_user_sp :: u64
  c_tramp_t0 :: u64
  c_process :: "nat option"

record thread_manager =
  thread_table :: "usize \<Rightarrow> thread option"
  ready_queue :: "usize list"
  next_id :: usize

text \<open>
  The scheduler's statics. \<open>current\<close> is the id of the thread \<open>CURRENT_THREAD\<close> points to (\<open>None\<close>
  for null); the idle thread has id 0 and lives outside the table.
\<close>

record sched =
  manager :: thread_manager
  current :: "usize option"
  idle :: "thread option"
  idle_entry :: u64
  hart :: cpu

definition STACK_SIZE :: usize where
  "STACK_SIZE = 32 * 1024"

definition IDLE_STACK_SIZE :: usize where
  "IDLE_STACK_SIZE = 4096"

definition SIE_ALL :: u64 where
  "SIE_ALL = push_bit 1 1 OR push_bit 5 1 OR push_bit 9 1"

definition context_default :: thread_context where
  "context_default = \<lparr>tc_sp = 0, tc_ra = 0, tc_s = replicate 12 0\<rparr>"

section \<open>The thread manager\<close>

definition manager_new :: thread_manager where
  "manager_new = \<lparr>thread_table = (\<lambda>_. None), ready_queue = [], next_id = 1\<rparr>"

definition allocate_thread_id :: "thread_manager \<Rightarrow> thread_manager \<times> usize" where
  "allocate_thread_id m = (m\<lparr>next_id := (next_id m + 1) mod usize_bound\<rparr>, next_id m)"

definition add_thread :: "thread_manager \<Rightarrow> thread \<Rightarrow> thread_manager \<times> usize" where
  "add_thread m t = (m\<lparr>thread_table := (thread_table m)(t_id t \<mapsto> t)\<rparr>, t_id t)"

definition remove_thread :: "thread_manager \<Rightarrow> usize \<Rightarrow> thread_manager" where
  "remove_thread m i = m\<lparr>thread_table := (thread_table m)(i := None)\<rparr>"

definition enqueue_ready :: "thread_manager \<Rightarrow> usize \<Rightarrow> thread_manager" where
  "enqueue_ready m i = m\<lparr>ready_queue := ready_queue m @ [i]\<rparr>"

definition enqueue_ready_front :: "thread_manager \<Rightarrow> usize \<Rightarrow> thread_manager" where
  "enqueue_ready_front m i = m\<lparr>ready_queue := i # ready_queue m\<rparr>"

definition dequeue_ready :: "thread_manager \<Rightarrow> thread_manager \<times> usize option" where
  "dequeue_ready m = (case ready_queue m of [] \<Rightarrow> (m, None) | i # q \<Rightarrow> (m\<lparr>ready_queue := q\<rparr>, Some i))"

definition set_thread :: "thread_manager \<Rightarrow> usize \<Rightarrow> thread \<Rightarrow> thread_manager" where
  "set_thread m i t = m\<lparr>thread_table := (thread_table m)(i \<mapsto> t)\<rparr>"

section \<open>Creating threads\<close>

text \<open>\<open>stack_base\<close> is the address of the stack buffer that the heap returned.\<close>

definition thread_new :: "sched \<Rightarrow> u64 \<Rightarrow> u64 \<Rightarrow> sched \<times> thread" where
  "thread_new s stack_base entry_point =
     (let (m, i) = allocate_thread_id (manager s);
          t = \<lparr>t_id = i, t_state = Ready, t_context = context_default, t_stack_base = stack_base,
               t_stack_len = STACK_SIZE, t_inbox = [], t_process = None\<rparr>
      in (s\<lparr>manager := m\<rparr>,
          t\<lparr>t_context := (t_context t)\<lparr>tc_sp := stack_base + word_of_nat STACK_SIZE, tc_ra := entry_point\<rparr>\<rparr>))"

definition thread_add :: "sched \<Rightarrow> thread \<Rightarrow> sched \<times> usize" where
  "thread_add s t =
     (let (m, i) = add_thread (manager s) t in (s\<lparr>manager := enqueue_ready m i\<rparr>, i))"

definition idle_init :: "sched \<Rightarrow> u64 \<Rightarrow> u64 \<Rightarrow> sched" where
  "idle_init s stack_base entry =
     s\<lparr>idle := Some \<lparr>t_id = 0, t_state = Ready,
         t_context = context_default\<lparr>tc_sp := stack_base + word_of_nat IDLE_STACK_SIZE, tc_ra := entry\<rparr>,
         t_stack_base = stack_base, t_stack_len = IDLE_STACK_SIZE, t_inbox = [], t_process = None\<rparr>,
       idle_entry := entry\<rparr>"

section \<open>The current thread\<close>

definition lookup_thread :: "sched \<Rightarrow> usize \<Rightarrow> thread option" where
  "lookup_thread s i = (if i = 0 then idle s else thread_table (manager s) i)"

definition update_thread :: "sched \<Rightarrow> usize \<Rightarrow> thread \<Rightarrow> sched" where
  "update_thread s i t =
     (if i = 0 then s\<lparr>idle := Some t\<rparr> else s\<lparr>manager := set_thread (manager s) i t\<rparr>)"

definition current_thread :: "sched \<Rightarrow> thread option" where
  "current_thread s = Option.bind (current s) (lookup_thread s)"

definition has_current :: "sched \<Rightarrow> bool" where
  "has_current s \<longleftrightarrow> current s \<noteq> None"

text \<open>\<open>save_context_with_ra_in_t1\<close>: the caller's return address is stored as \<open>ra\<close>.\<close>

definition save_context :: "sched \<Rightarrow> sched option" where
  "save_context s = do {
     i \<leftarrow> current s;
     t \<leftarrow> lookup_thread s i;
     Some (update_thread s i (t\<lparr>t_context := c_regs (hart s)\<rparr>))
   }"

definition set_current_state :: "sched \<Rightarrow> thread_state \<Rightarrow> sched option" where
  "set_current_state s x = do {
     i \<leftarrow> current s;
     t \<leftarrow> lookup_thread s i;
     Some (update_thread s i (t\<lparr>t_state := x\<rparr>))
   }"

section \<open>The scheduler\<close>

text \<open>\<open>trap_stack_top\<close> and the address of the trampoline frame are fixed addresses of the image.\<close>

record layout =
  trap_stack_top :: u64
  trampoline_trap_frame :: u64

definition restore_context :: "cpu \<Rightarrow> thread_context \<Rightarrow> cpu" where
  "restore_context c ctx = c\<lparr>c_regs := ctx, c_pc := tc_ra ctx\<rparr>"

definition setup_trap :: "layout \<Rightarrow> cpu \<Rightarrow> process_ref option \<Rightarrow> cpu" where
  "setup_trap L c p = (case p of
     Some ctx \<Rightarrow> c\<lparr>c_tramp_kernel_sp := pr_trap_frame ctx, c_tramp_user_sp := pr_user_sp ctx,
                  c_tramp_t0 := pr_user_t0 ctx, c_stvec := User_Trap_Entry,
                  c_sscratch := trampoline_trap_frame L\<rparr>
   | None \<Rightarrow> c\<lparr>c_stvec := Kernel_Trap_Entry, c_sscratch := trap_stack_top L\<rparr>)"

definition enter_idle :: "layout \<Rightarrow> sched \<Rightarrow> sched option" where
  "enter_idle L s = do {
     t \<leftarrow> idle s;
     let c = (hart s)\<lparr>c_stvec := Kernel_Trap_Entry, c_sscratch := trap_stack_top L,
        c_regs := (c_regs (hart s))\<lparr>tc_sp := t_stack_base t + word_of_nat (t_stack_len t)\<rparr>,
        c_pc := idle_entry s\<rparr>;
     Some (s\<lparr>idle := Some (t\<lparr>t_state := Running\<rparr>), current := Some 0, hart := c\<rparr>)
   }"

definition schedule :: "layout \<Rightarrow> sched \<Rightarrow> sched option" where
  "schedule L s = (case dequeue_ready (manager s) of
     (m, Some i) \<Rightarrow> do {
       t \<leftarrow> thread_table m i;
       let m' = set_thread m i (t\<lparr>t_state := Running\<rparr>);
       let c = setup_trap L (hart s) (t_process t);
       let c = (case t_process t of Some ctx \<Rightarrow> c\<lparr>c_process := Some (pr_id ctx)\<rparr> | None \<Rightarrow> c);
       Some (s\<lparr>manager := m', current := Some i, hart := restore_context c (t_context t)\<rparr>)
     }
   | (m, None) \<Rightarrow> enter_idle L s)"

definition start_scheduler :: "layout \<Rightarrow> sched \<Rightarrow> sched option" where
  "start_scheduler L s = schedule L s"

definition schedule_if_ready :: "layout \<Rightarrow> sched \<Rightarrow> sched option" where
  "schedule_if_ready L s = (if ready_queue (manager s) \<noteq> [] then schedule L s else Some s)"

definition exit_thread :: "layout \<Rightarrow> sched \<Rightarrow> sched option" where
  "exit_thread L s = do {
     t \<leftarrow> current_thread s;
     schedule L (s\<lparr>manager := remove_thread (manager s) (t_id t)\<rparr>)
   }"

definition block_now :: "layout \<Rightarrow> sched \<Rightarrow> sched option" where
  "block_now L s = do {
     s1 \<leftarrow> save_context s;
     s2 \<leftarrow> set_current_state s1 Blocked;
     schedule L s2
   }"

section \<open>Messages\<close>

definition send_message :: "sched \<Rightarrow> usize \<Rightarrow> message \<Rightarrow> sched" where
  "send_message s target_id msg =
     (let m = manager s in
      case thread_table m target_id of
        None \<Rightarrow> s
      | Some t \<Rightarrow>
          let t1 = t\<lparr>t_inbox := t_inbox t @ [msg]\<rparr> in
          if t_state t1 = Blocked
          then s\<lparr>manager := enqueue_ready (set_thread m target_id (t1\<lparr>t_state := Ready\<rparr>)) target_id\<rparr>
          else s\<lparr>manager := set_thread m target_id t1\<rparr>)"

definition wake_thread :: "sched \<Rightarrow> usize \<Rightarrow> sched" where
  "wake_thread s target_id =
     (let m = manager s in
      case thread_table m target_id of
        None \<Rightarrow> s
      | Some t \<Rightarrow>
          if t_state t = Blocked
          then s\<lparr>manager := enqueue_ready (set_thread m target_id (t\<lparr>t_state := Ready\<rparr>)) target_id\<rparr>
          else s)"

text \<open>What an interrupt handler does to the scheduler.\<close>

datatype irq_event = Wake usize | Deliver usize message

fun handle_event :: "irq_event \<Rightarrow> sched \<Rightarrow> sched" where
  "handle_event (Wake i) s = wake_thread s i"
| "handle_event (Deliver i m) s = send_message s i m"

text \<open>
  \<open>yield_impl\<close> with the pending-interrupt word \<open>sip\<close> and the events its handlers raise. Taking the
  interrupt leaves the trap vector at the kernel's entry; \<open>schedule\<close> sets it again.
\<close>

definition yield_window :: "layout \<Rightarrow> u64 \<Rightarrow> irq_event list \<Rightarrow> sched \<Rightarrow> sched" where
  "yield_window L sip events s =
     (if sip AND SIE_ALL \<noteq> 0
      then fold handle_event events
        (s\<lparr>hart := (hart s)\<lparr>c_stvec := Kernel_Trap_Entry, c_sscratch := trap_stack_top L\<rparr>\<rparr>)
      else s)"

definition yield_now :: "layout \<Rightarrow> u64 \<Rightarrow> irq_event list \<Rightarrow> sched \<Rightarrow> sched option" where
  "yield_now L sip events s = do {
     s1 \<leftarrow> save_context s;
     t \<leftarrow> current_thread s1;
     let s2 = yield_window L sip events s1;
     s3 \<leftarrow> set_current_state s2 Ready;
     schedule L (s3\<lparr>manager := enqueue_ready (manager s3) (t_id t)\<rparr>)
   }"

definition urgent_deliver :: "sched \<Rightarrow> usize \<Rightarrow> message \<Rightarrow> sched" where
  "urgent_deliver s target_id msg =
     (let m = manager s in
      case thread_table m target_id of
        None \<Rightarrow> s
      | Some t \<Rightarrow>
          let t1 = t\<lparr>t_inbox := t_inbox t @ [msg]\<rparr> in
          if t_state t1 = Blocked
          then s\<lparr>manager := enqueue_ready_front (set_thread m target_id (t1\<lparr>t_state := Ready\<rparr>)) target_id\<rparr>
          else s\<lparr>manager := set_thread m target_id t1\<rparr>)"

definition send_message_urgent :: "layout \<Rightarrow> sched \<Rightarrow> usize \<Rightarrow> message \<Rightarrow> sched option" where
  "send_message_urgent L s target_id msg = do {
     s1 \<leftarrow> save_context s;
     t \<leftarrow> current_thread s1;
     s2 \<leftarrow> set_current_state s1 Ready;
     let s3 = urgent_deliver s2 target_id msg;
     schedule L (s3\<lparr>manager := enqueue_ready (manager s3) (t_id t)\<rparr>)
   }"

text \<open>
  One pass of \<open>receive_message\<close>'s loop: a message from the inbox, or a switch to another thread
  after which the loop starts again.
\<close>

definition receive_message :: "layout \<Rightarrow> sched \<Rightarrow> (sched \<times> message option) option" where
  "receive_message L s = do {
     i \<leftarrow> current s;
     t \<leftarrow> lookup_thread s i;
     (case t_inbox t of
        msg # rest \<Rightarrow> Some (update_thread s i (t\<lparr>t_inbox := rest\<rparr>), Some msg)
      | [] \<Rightarrow> do {
          s' \<leftarrow> block_now L s;
          Some (s', None)
        })
   }"

section \<open>The invariant\<close>

text \<open>
  \<open>table_ok m c p\<close>: the running thread is \<open>c\<close> (if in the table), and the ready queue holds exactly
  the \<open>Ready\<close> threads, each once, except \<open>p\<close>, which is about to be enqueued.
\<close>

definition ids_ok :: "usize \<Rightarrow> bool" where
  "ids_ok n \<longleftrightarrow> 0 < n"

definition entry_ok :: "thread_manager \<Rightarrow> usize option \<Rightarrow> usize option \<Rightarrow> usize \<Rightarrow> thread \<Rightarrow> bool" where
  "entry_ok m c p i t \<longleftrightarrow> t_id t = i \<and> 0 < i \<and> i < next_id m \<and>
     (t_state t = Ready \<longleftrightarrow> i \<in> set (ready_queue m) \<or> p = Some i) \<and>
     (t_state t = Running \<longleftrightarrow> c = Some i)"

definition table_ok :: "thread_manager \<Rightarrow> usize option \<Rightarrow> usize option \<Rightarrow> bool" where
  "table_ok m c p \<longleftrightarrow> ids_ok (next_id m) \<and> distinct (ready_queue m) \<and> (\<forall>i. p = Some i \<longrightarrow> i \<notin> set (ready_queue m)) \<and>
     set (ready_queue m) \<subseteq> dom (thread_table m) \<and>
     (\<forall>i t. thread_table m i = Some t \<longrightarrow> entry_ok m c p i t)"

definition sched_inv :: "sched \<Rightarrow> bool" where
  "sched_inv s \<longleftrightarrow> idle s \<noteq> None \<and> table_ok (manager s) (current s) None \<and>
     (\<forall>i. current s = Some i \<longrightarrow> i = 0 \<or> i \<in> dom (thread_table (manager s)))"

lemma table_okD:
  assumes "table_ok m c p" "thread_table m i = Some t"
  shows "t_id t = i" "0 < i" "i < next_id m" "t_state t = Ready \<longleftrightarrow> i \<in> set (ready_queue m) \<or> p = Some i"
    "t_state t = Running \<longleftrightarrow> c = Some i"
  using assms by (auto simp: table_ok_def entry_ok_def)

lemma table_ok_idle: "table_ok m (Some 0) p \<longleftrightarrow> table_ok m None p"
  by (fastforce simp: table_ok_def entry_ok_def)

text \<open>Changing one entry: the entry's own obligation is the only new one.\<close>

lemma table_ok_set:
  assumes "table_ok m c p" "i \<in> dom (thread_table m)" "entry_ok m c p i t"
  shows "table_ok (set_thread m i t) c p"
  using assms by (auto simp: table_ok_def entry_ok_def set_thread_def)

lemma table_ok_inbox:
  assumes "table_ok m c p" "thread_table m i = Some t"
  shows "table_ok (set_thread m i (t\<lparr>t_inbox := b\<rparr>)) c p" "table_ok (set_thread m i (t\<lparr>t_context := x\<rparr>)) c p"
  by (rule table_ok_set[OF assms(1)]; use assms in \<open>auto simp: table_ok_def entry_ok_def\<close>)+

text \<open>Waking a blocked thread at either end of the queue.\<close>

lemma table_ok_wake:
  assumes "table_ok m c p" "thread_table m i = Some t" "t_state t = Blocked"
    and "t_id t' = t_id t" "t_state t' = Ready"
  shows "table_ok (enqueue_ready (set_thread m i t') i) c p"
    and "table_ok (enqueue_ready_front (set_thread m i t') i) c p"
  using table_okD[OF assms(1,2)] assms
  by (auto simp: table_ok_def entry_ok_def set_thread_def enqueue_ready_def enqueue_ready_front_def)

lemma table_ok_send:
  assumes "table_ok (manager s) c p"
  shows "table_ok (manager (send_message s i msg)) c p" "table_ok (manager (urgent_deliver s i msg)) c p"
    "table_ok (manager (wake_thread s i)) c p"
proof -
  show "table_ok (manager (send_message s i msg)) c p"
    using assms table_ok_inbox(1)[OF assms] table_ok_wake(1)[OF assms]
    by (auto simp: send_message_def Let_def split: option.splits)
  show "table_ok (manager (urgent_deliver s i msg)) c p"
    using assms table_ok_inbox(1)[OF assms] table_ok_wake(2)[OF assms]
    by (auto simp: urgent_deliver_def Let_def split: option.splits)
  show "table_ok (manager (wake_thread s i)) c p"
    using assms table_ok_wake(1)[OF assms] by (auto simp: wake_thread_def Let_def split: option.splits)
qed

text \<open>The running thread gives up the CPU: it blocks, becomes ready, or leaves.\<close>

lemma table_ok_block:
  assumes "table_ok m (Some i) None" "thread_table m i = Some t"
  shows "table_ok (set_thread m i (t\<lparr>t_state := Blocked\<rparr>)) None None"
  using table_okD[OF assms] assms by (auto simp: table_ok_def entry_ok_def set_thread_def)

lemma table_ok_ready:
  assumes "table_ok m (Some i) None" "thread_table m i = Some t"
  shows "table_ok (set_thread m i (t\<lparr>t_state := Ready\<rparr>)) None (Some i)"
proof -
  have "i \<notin> set (ready_queue m)" using table_okD(4,5)[OF assms] by auto
  then show ?thesis
    using table_okD[OF assms] assms by (auto simp: table_ok_def entry_ok_def set_thread_def)
qed

lemma table_ok_enqueue:
  assumes "table_ok m None (Some i)" "i \<in> dom (thread_table m)"
  shows "table_ok (enqueue_ready m i) None None"
  using assms by (auto simp: table_ok_def entry_ok_def enqueue_ready_def)

lemma table_ok_remove:
  assumes "table_ok m (Some i) None"
  shows "table_ok (remove_thread m i) None None"
proof -
  have "i \<notin> set (ready_queue m)"
  proof
    assume q: "i \<in> set (ready_queue m)"
    then obtain t where "thread_table m i = Some t" using assms by (auto simp: table_ok_def)
    from table_okD(4,5)[OF assms this] q show False by simp
  qed
  then show ?thesis
    using assms by (auto simp: table_ok_def entry_ok_def remove_thread_def)
qed

text \<open>The scheduler finds the thread it dequeues, and the dequeued thread becomes the running one.\<close>

lemma schedule_ok:
  assumes "table_ok (manager s) None None" "idle s \<noteq> None"
  obtains s' where "schedule L s = Some s'" "sched_inv s'"
    "current s' = Some (case ready_queue (manager s) of [] \<Rightarrow> 0 | i # _ \<Rightarrow> i)"
    "ready_queue (manager s') = tl (ready_queue (manager s))"
proof (cases "ready_queue (manager s)")
  case Nil
  obtain t where t: "idle s = Some t" using assms(2) by blast
  have "table_ok (manager s) (Some 0) None" using assms(1) table_ok_idle by simp
  then show thesis
    using that Nil t by (simp add: schedule_def dequeue_ready_def enter_idle_def sched_inv_def Let_def)
next
  case (Cons i q)
  let ?m = "manager s"
  obtain t where t: "thread_table ?m i = Some t" using assms(1) Cons by (auto simp: table_ok_def)
  have "table_ok (set_thread (?m\<lparr>ready_queue := q\<rparr>) i (t\<lparr>t_state := Running\<rparr>)) (Some i) None"
    using assms(1) Cons t table_okD[OF assms(1) t]
    by (auto simp: table_ok_def entry_ok_def set_thread_def)
  then show thesis
    using that Cons t assms(2)
    by (simp add: schedule_def dequeue_ready_def sched_inv_def Let_def set_thread_def)
qed

lemma schedule_ex:
  assumes "table_ok (manager s) None None" "idle s \<noteq> None"
  shows "\<exists>s'. schedule L s = Some s' \<and> sched_inv s' \<and>
    current s' = Some (case ready_queue (manager s) of [] \<Rightarrow> 0 | i # _ \<Rightarrow> i)"
  by (rule schedule_ok[OF assms, of L]) blast

lemma sched_inv_idle: "sched_inv s \<Longrightarrow> idle s \<noteq> None"
  by (simp add: sched_inv_def)

section \<open>Steps\<close>

text \<open>
  The steps of the system. \<open>execute\<close> is the running thread computing on its registers; \<open>add\<close> is the
  creation of a thread (whose stack pointer and process may have been set by the creator).
  Switching operations are called by threads of the table, the poll by the idle thread.
\<close>

inductive sched_step :: "layout \<Rightarrow> sched \<Rightarrow> sched \<Rightarrow> bool" for L where
  execute: "sched_step L s (s\<lparr>hart := (hart s)\<lparr>c_regs := r\<rparr>\<rparr>)"
| add: "thread_new s base entry = (s1, t) \<Longrightarrow> next_id (manager s) + 1 < usize_bound \<Longrightarrow>
    sched_step L s (fst (thread_add s1 (t\<lparr>t_context := ctx, t_process := proc\<rparr>)))"
| event: "sched_step L s (handle_event e s)"
| yield: "current s = Some i \<Longrightarrow> i \<noteq> 0 \<Longrightarrow> yield_now L sip events s = Some s' \<Longrightarrow> sched_step L s s'"
| block: "current s = Some i \<Longrightarrow> i \<noteq> 0 \<Longrightarrow> block_now L s = Some s' \<Longrightarrow> sched_step L s s'"
| urgent: "current s = Some i \<Longrightarrow> i \<noteq> 0 \<Longrightarrow> send_message_urgent L s j msg = Some s' \<Longrightarrow> sched_step L s s'"
| receive: "current s = Some i \<Longrightarrow> i \<noteq> 0 \<Longrightarrow> receive_message L s = Some (s', r) \<Longrightarrow> sched_step L s s'"
| exit: "current s = Some i \<Longrightarrow> i \<noteq> 0 \<Longrightarrow> exit_thread L s = Some s' \<Longrightarrow> sched_step L s s'"
| poll: "current s = Some 0 \<Longrightarrow> schedule_if_ready L s = Some s' \<Longrightarrow> sched_step L s s'"
| start: "current s = None \<Longrightarrow> start_scheduler L s = Some s' \<Longrightarrow> sched_step L s s'"

inductive sched_reachable :: "layout \<Rightarrow> sched \<Rightarrow> bool" for L where
  boot: "manager s = manager_new \<Longrightarrow> current s = None \<Longrightarrow> sched_reachable L (idle_init s base entry)"
| step: "sched_reachable L s \<Longrightarrow> sched_step L s s' \<Longrightarrow> sched_reachable L s'"

lemma event_frame [simp]:
  "current (send_message s i m) = current s" "idle (send_message s i m) = idle s"
  "current (urgent_deliver s i m) = current s" "idle (urgent_deliver s i m) = idle s"
  "current (wake_thread s i) = current s" "idle (wake_thread s i) = idle s"
  "hart (send_message s i m) = hart s" "hart (wake_thread s i) = hart s" "hart (urgent_deliver s i m) = hart s"
  "dom (thread_table (manager (send_message s i m))) = dom (thread_table (manager s))"
  "dom (thread_table (manager (urgent_deliver s i m))) = dom (thread_table (manager s))"
  "dom (thread_table (manager (wake_thread s i))) = dom (thread_table (manager s))"
  by (auto simp: send_message_def urgent_deliver_def wake_thread_def Let_def set_thread_def
      enqueue_ready_def enqueue_ready_front_def split: option.splits)

lemma handle_event_frame [simp]:
  "current (handle_event e s) = current s" "idle (handle_event e s) = idle s"
  "dom (thread_table (manager (handle_event e s))) = dom (thread_table (manager s))"
  by (cases e; simp)+

lemma events_ok:
  assumes "table_ok (manager s) c p"
  shows "table_ok (manager (fold handle_event es s)) c p"
    "current (fold handle_event es s) = current s" "idle (fold handle_event es s) = idle s"
    "dom (thread_table (manager (fold handle_event es s))) = dom (thread_table (manager s))"
proof -
  have "table_ok (manager (handle_event e s)) c p" if "table_ok (manager s) c p" for e s
    using table_ok_send[OF that] by (cases e) simp_all
  then have "table_ok (manager (fold handle_event es s)) c p \<and> current (fold handle_event es s) = current s \<and>
      idle (fold handle_event es s) = idle s \<and>
      dom (thread_table (manager (fold handle_event es s))) = dom (thread_table (manager s))"
    using assms by (induction es arbitrary: s) auto
  then show "table_ok (manager (fold handle_event es s)) c p"
    "current (fold handle_event es s) = current s" "idle (fold handle_event es s) = idle s"
    "dom (thread_table (manager (fold handle_event es s))) = dom (thread_table (manager s))"
    by blast+
qed

lemma yield_window_ok:
  assumes "table_ok (manager s) c p"
  shows "table_ok (manager (yield_window L sip es s)) c p"
    "current (yield_window L sip es s) = current s" "idle (yield_window L sip es s) = idle s"
    "dom (thread_table (manager (yield_window L sip es s))) = dom (thread_table (manager s))"
  using events_ok[of "s\<lparr>hart := (hart s)\<lparr>c_stvec := Kernel_Trap_Entry, c_sscratch := trap_stack_top L\<rparr>\<rparr>"] assms
  by (auto simp: yield_window_def)

text \<open>The switching operations, for a current thread \<open>i\<close> of the table.\<close>

lemma save_context_ok:
  assumes "sched_inv s" "current s = Some i" "i \<noteq> 0"
  obtains t where "thread_table (manager s) i = Some t"
    "save_context s = Some (update_thread s i (t\<lparr>t_context := c_regs (hart s)\<rparr>))"
    "table_ok (set_thread (manager s) i (t\<lparr>t_context := c_regs (hart s)\<rparr>)) (Some i) None"
proof -
  obtain t where t: "thread_table (manager s) i = Some t" using assms by (auto simp: sched_inv_def)
  moreover have "table_ok (manager s) (Some i) None" using assms by (simp add: sched_inv_def)
  ultimately show thesis
    using that[of t] assms(2,3) table_ok_inbox(2)
    by (simp add: save_context_def lookup_thread_def)
qed

lemma block_now_ok:
  assumes "sched_inv s" "current s = Some i" "i \<noteq> 0"
  shows "\<exists>s'. block_now L s = Some s' \<and> sched_inv s'"
proof -
  obtain t where t: "thread_table (manager s) i = Some t"
    "save_context s = Some (update_thread s i (t\<lparr>t_context := c_regs (hart s)\<rparr>))"
    "table_ok (set_thread (manager s) i (t\<lparr>t_context := c_regs (hart s)\<rparr>)) (Some i) None"
    using save_context_ok[OF assms] by blast
  let ?t' = "t\<lparr>t_context := c_regs (hart s), t_state := Blocked\<rparr>"
  have "table_ok (set_thread (manager s) i ?t') None None"
    using table_ok_block[OF t(3), of "t\<lparr>t_context := c_regs (hart s)\<rparr>"] by (simp add: set_thread_def)
  then obtain s' where "schedule L (update_thread s i ?t') = Some s'" "sched_inv s'"
    using schedule_ex[of "update_thread s i ?t'" L] sched_inv_idle[OF assms(1)] assms(3)
    by (auto simp: update_thread_def)
  moreover have "block_now L s = schedule L (update_thread s i ?t')"
    using t(2) assms(2,3)
    by (simp add: block_now_def set_current_state_def update_thread_def lookup_thread_def set_thread_def)
  ultimately show ?thesis by simp
qed

lemma exit_thread_ok:
  assumes "sched_inv s" "current s = Some i" "i \<noteq> 0"
  shows "\<exists>s'. exit_thread L s = Some s' \<and> sched_inv s'"
proof -
  obtain t where t: "thread_table (manager s) i = Some t" using assms by (auto simp: sched_inv_def)
  have ok: "table_ok (manager s) (Some i) None" using assms by (simp add: sched_inv_def)
  have "t_id t = i" using table_okD(1)[OF ok t] .
  then have "exit_thread L s = schedule L (s\<lparr>manager := remove_thread (manager s) i\<rparr>)"
    using t assms(2,3) by (simp add: exit_thread_def current_thread_def lookup_thread_def)
  then show ?thesis
    using schedule_ex[of "s\<lparr>manager := remove_thread (manager s) i\<rparr>" L] table_ok_remove[OF ok]
      sched_inv_idle[OF assms(1)] by auto
qed

lemma yield_now_ok:
  assumes "sched_inv s" "current s = Some i" "i \<noteq> 0"
  shows "\<exists>s'. yield_now L sip es s = Some s' \<and> sched_inv s'"
proof -
  obtain t where t: "thread_table (manager s) i = Some t"
    "save_context s = Some (update_thread s i (t\<lparr>t_context := c_regs (hart s)\<rparr>))"
    "table_ok (set_thread (manager s) i (t\<lparr>t_context := c_regs (hart s)\<rparr>)) (Some i) None"
    using save_context_ok[OF assms] by blast
  define s1 where "s1 = update_thread s i (t\<lparr>t_context := c_regs (hart s)\<rparr>)"
  define s2 where "s2 = yield_window L sip es s1"
  have s1: "table_ok (manager s1) (Some i) None" "current s1 = Some i" "idle s1 = idle s"
    "i \<in> dom (thread_table (manager s1))"
    using t(3) assms(2,3) by (simp_all add: s1_def update_thread_def set_thread_def)
  note s2 = yield_window_ok[OF s1(1), of L sip es, folded s2_def]
  obtain u where u: "thread_table (manager s2) i = Some u" using s1(4) s2(4) by auto
  have id: "t_id t = i" using table_okD(1)[OF s1(1), of i] by (simp add: s1_def update_thread_def set_thread_def assms(3))
  define s3 where "s3 = s2\<lparr>manager := enqueue_ready (set_thread (manager s2) i (u\<lparr>t_state := Ready\<rparr>)) i\<rparr>"
  have "table_ok (manager s3) None None"
    unfolding s3_def
    using table_ok_enqueue[OF table_ok_ready[OF s2(1) u]] by (simp add: set_thread_def)
  then obtain s' where "schedule L s3 = Some s'" "sched_inv s'"
    using schedule_ex[of s3 L] s1(3) s2(3) sched_inv_idle[OF assms(1)] by (auto simp: s3_def)
  moreover have "yield_now L sip es s = schedule L s3"
    using t(2) u s1(2) s2(2) id assms(3)
    by (simp add: yield_now_def current_thread_def lookup_thread_def set_current_state_def update_thread_def
        s3_def s2_def s1_def set_thread_def Let_def)
  ultimately show ?thesis by simp
qed

lemma send_message_urgent_ok:
  assumes "sched_inv s" "current s = Some i" "i \<noteq> 0"
  shows "\<exists>s'. send_message_urgent L s j msg = Some s' \<and> sched_inv s' \<and>
    (\<forall>u. j \<noteq> i \<longrightarrow> thread_table (manager s) j = Some u \<longrightarrow> t_state u = Blocked \<longrightarrow> current s' = Some j)"
proof -
  obtain t where t: "thread_table (manager s) i = Some t"
    "save_context s = Some (update_thread s i (t\<lparr>t_context := c_regs (hart s)\<rparr>))"
    "table_ok (set_thread (manager s) i (t\<lparr>t_context := c_regs (hart s)\<rparr>)) (Some i) None"
    using save_context_ok[OF assms] by blast
  define t2 where "t2 = t\<lparr>t_context := c_regs (hart s), t_state := Ready\<rparr>"
  define s2 where "s2 = update_thread s i t2"
  define s3 where "s3 = urgent_deliver s2 j msg"
  define s4 where "s4 = s3\<lparr>manager := enqueue_ready (manager s3) i\<rparr>"
  have id: "t_id t = i"
    using assms(1) table_okD(1)[OF _ t(1)] by (auto simp: sched_inv_def)
  have s2: "table_ok (manager s2) None (Some i)" "i \<in> dom (thread_table (manager s2))" "idle s2 = idle s"
    using table_ok_ready[OF t(3), of "t\<lparr>t_context := c_regs (hart s)\<rparr>"] assms(3)
    by (simp_all add: s2_def t2_def update_thread_def set_thread_def)
  have "table_ok (manager s4) None None"
    unfolding s4_def s3_def
    using table_ok_enqueue[of "manager (urgent_deliver s2 j msg)" i] table_ok_send(2)[OF s2(1)] s2(2) by simp
  then obtain s' where s': "schedule L s4 = Some s'" "sched_inv s'"
    "current s' = Some (case ready_queue (manager s4) of [] \<Rightarrow> 0 | i # _ \<Rightarrow> i)"
    using schedule_ex[of s4 L] s2(3) sched_inv_idle[OF assms(1)] by (auto simp: s4_def s3_def)
  have "send_message_urgent L s j msg = schedule L s4"
    using t(2) assms(2,3) id
    by (simp add: send_message_urgent_def current_thread_def lookup_thread_def set_current_state_def
        update_thread_def s4_def s3_def s2_def t2_def set_thread_def Let_def)
  moreover have "current s' = Some j"
    if "j \<noteq> i" "thread_table (manager s) j = Some u" "t_state u = Blocked" for u
    using that assms(3) s'(3)
    by (simp add: s4_def s3_def s2_def urgent_deliver_def update_thread_def set_thread_def Let_def
        enqueue_ready_front_def enqueue_ready_def)
  ultimately show ?thesis using s' by auto
qed

lemma receive_message_ok:
  assumes "sched_inv s" "current s = Some i" "i \<noteq> 0"
  shows "\<exists>s' r. receive_message L s = Some (s', r) \<and> sched_inv s'"
proof -
  obtain t where t: "thread_table (manager s) i = Some t" using assms by (auto simp: sched_inv_def)
  show ?thesis
  proof (cases "t_inbox t")
    case Nil
    obtain s' where "block_now L s = Some s'" "sched_inv s'" using block_now_ok[OF assms] by blast
    then show ?thesis using t Nil assms(2,3) by (simp add: receive_message_def lookup_thread_def)
  next
    case (Cons msg rest)
    have "sched_inv (update_thread s i (t\<lparr>t_inbox := rest\<rparr>))"
      using table_ok_inbox(1)[OF _ t, of "current s" None rest] assms
      by (auto simp: sched_inv_def update_thread_def set_thread_def)
    then show ?thesis using t Cons assms(2,3) by (simp add: receive_message_def lookup_thread_def)
  qed
qed

lemma thread_add_ok:
  assumes "sched_inv s" "thread_new s base entry = (s1, t)" "next_id (manager s) + 1 < usize_bound"
  shows "sched_inv (fst (thread_add s1 (t\<lparr>t_context := ctx, t_process := proc\<rparr>)))"
proof -
  let ?m = "manager s" and ?i = "next_id (manager s)"
  have ok: "table_ok ?m (current s) None" using assms(1) by (simp add: sched_inv_def)
  have t: "t_id t = ?i" "t_state t = Ready" "s1 = s\<lparr>manager := ?m\<lparr>next_id := ?i + 1\<rparr>\<rparr>"
    using assms(2,3) by (auto simp: thread_new_def allocate_thread_id_def Let_def)
  have fresh: "?i \<notin> dom (thread_table ?m)" using table_okD(3)[OF ok] by blast
  then have "?i \<notin> set (ready_queue ?m)" using ok by (auto simp: table_ok_def)
  moreover have "current s \<noteq> Some ?i \<and> 0 < ?i"
    using assms(1) fresh ok by (auto simp: sched_inv_def table_ok_def ids_ok_def)
  ultimately show ?thesis
    using ok assms(1) t fresh
    by (auto simp: sched_inv_def thread_add_def add_thread_def enqueue_ready_def table_ok_def entry_ok_def ids_ok_def
        intro: less_SucI)
qed

lemma sched_inv_step: "sched_step L s s' \<Longrightarrow> sched_inv s \<Longrightarrow> sched_inv s'"
proof (induction rule: sched_step.induct)
  case (execute s r)
  then show ?case by (simp add: sched_inv_def)
next
  case (add s base entry s1 t ctx proc)
  then show ?case using thread_add_ok by blast
next
  case (event s e)
  then show ?case
    using events_ok[of s "current s" None "[e]"] by (auto simp: sched_inv_def)
next
  case (yield s i sip events s')
  then show ?case using yield_now_ok[of s i L sip events] by auto
next
  case (block s i s')
  then show ?case using block_now_ok[of s i L] by auto
next
  case (urgent s i j msg s')
  then show ?case using send_message_urgent_ok[of s i L j msg] by auto
next
  case (receive s i s' r)
  then show ?case using receive_message_ok[of s i L] by auto
next
  case (exit s i s')
  then show ?case using exit_thread_ok[of s i L] by auto
next
  case (poll s s')
  then show ?case
    using schedule_ex[of s L] table_ok_idle
    by (auto simp: schedule_if_ready_def sched_inv_def split: if_splits)
next
  case (start s s')
  then show ?case
    using schedule_ex[of s L] by (auto simp: start_scheduler_def sched_inv_def)
qed

lemma sched_reachable_inv: "sched_reachable L s \<Longrightarrow> sched_inv s"
proof (induction rule: sched_reachable.induct)
  case (boot s base entry)
  then show ?case
    by (simp add: idle_init_def sched_inv_def manager_new_def table_ok_def ids_ok_def)
qed (rule sched_inv_step)

section \<open>Saved contexts\<close>

definition ctx_of :: "sched \<Rightarrow> usize \<Rightarrow> thread_context option" where
  "ctx_of s i = map_option t_context (thread_table (manager s) i)"

lemma ctx_of_frame [simp]:
  "ctx_of (send_message s j m) i = ctx_of s i" "ctx_of (urgent_deliver s j m) i = ctx_of s i"
  "ctx_of (wake_thread s j) i = ctx_of s i" "ctx_of (s\<lparr>hart := c\<rparr>) i = ctx_of s i"
  "ctx_of (s\<lparr>manager := enqueue_ready (manager s) j\<rparr>) i = ctx_of s i"
  by (auto simp: ctx_of_def send_message_def urgent_deliver_def wake_thread_def Let_def set_thread_def
      enqueue_ready_def enqueue_ready_front_def split: option.splits)

lemma ctx_of_events [simp]: "ctx_of (fold handle_event es s) i = ctx_of s i"
proof -
  have "ctx_of (handle_event e s) i = ctx_of s i" for e s by (cases e) simp_all
  then show ?thesis by (induction es arbitrary: s) auto
qed

lemma ctx_of_window [simp]: "ctx_of (yield_window L sip es s) i = ctx_of s i"
  by (simp add: yield_window_def)

lemma ctx_of_state: "set_current_state s x = Some s' \<Longrightarrow> ctx_of s' i = ctx_of s i"
  by (auto simp: set_current_state_def ctx_of_def update_thread_def set_thread_def lookup_thread_def
      bind_eq_Some_conv)

lemma ctx_of_save:
  "save_context s = Some s' \<Longrightarrow> current s = Some j \<Longrightarrow> j \<noteq> 0 \<Longrightarrow>
   ctx_of s' i = (if i = j then Some (c_regs (hart s)) else ctx_of s i) \<and> current s' = current s"
  by (auto simp: save_context_def ctx_of_def update_thread_def set_thread_def lookup_thread_def
      bind_eq_Some_conv)

lemma ctx_of_schedule:
  assumes "schedule L s = Some s'"
  shows "ctx_of s' i = ctx_of s i"
    and "current s' = Some j \<Longrightarrow> j \<noteq> 0 \<Longrightarrow> ctx_of s j = Some (c_regs (hart s')) \<and> c_pc (hart s') = tc_ra (c_regs (hart s'))"
  using assms
  by (auto simp: schedule_def dequeue_ready_def ctx_of_def set_thread_def restore_context_def enter_idle_def
      bind_eq_Some_conv Let_def split: list.splits prod.splits option.splits)

text \<open>What a switch away from thread \<open>j\<close> with registers \<open>r\<close> leaves behind.\<close>

definition switched :: "sched \<Rightarrow> sched \<Rightarrow> bool" where
  "switched s s' \<longleftrightarrow> (\<forall>i. i \<noteq> 0 \<longrightarrow> ctx_of s' i =
       (if current s = Some i then Some (c_regs (hart s)) else ctx_of s i)) \<and>
     (\<forall>i. current s' = Some i \<longrightarrow> i \<noteq> 0 \<longrightarrow> ctx_of s' i = Some (c_regs (hart s')) \<and>
        c_pc (hart s') = tc_ra (c_regs (hart s')))"

lemma switched_ops:
  assumes "current s = Some j" "j \<noteq> 0"
  shows "yield_now L sip es s = Some s' \<Longrightarrow> switched s s'"
    and "block_now L s = Some s' \<Longrightarrow> switched s s'"
    and "send_message_urgent L s k msg = Some s' \<Longrightarrow> switched s s'"
proof -
  assume "block_now L s = Some s'"
  then obtain s1 s2 where "save_context s = Some s1" "set_current_state s1 Blocked = Some s2"
    "schedule L s2 = Some s'" by (auto simp: block_now_def bind_eq_Some_conv)
  then show "switched s s'"
    using ctx_of_save[of s s1 j] ctx_of_state[of s1 Blocked s2] ctx_of_schedule[of L s2 s'] assms
    by (auto simp: switched_def)
next
  assume "yield_now L sip es s = Some s'"
  then obtain s1 t s3 where *: "save_context s = Some s1" "current_thread s1 = Some t"
    "set_current_state (yield_window L sip es s1) Ready = Some s3"
    "schedule L (s3\<lparr>manager := enqueue_ready (manager s3) (t_id t)\<rparr>) = Some s'"
    by (auto simp: yield_now_def bind_eq_Some_conv Let_def)
  then show "switched s s'"
    using ctx_of_save[of s s1 j] ctx_of_state[of _ Ready s3] ctx_of_schedule[OF *(4)] assms
    by (auto simp: switched_def)
next
  assume "send_message_urgent L s k msg = Some s'"
  then obtain s1 t s2 where *: "save_context s = Some s1" "current_thread s1 = Some t"
    "set_current_state s1 Ready = Some s2"
    "schedule L ((urgent_deliver s2 k msg)\<lparr>manager := enqueue_ready (manager (urgent_deliver s2 k msg)) (t_id t)\<rparr>) = Some s'"
    by (auto simp: send_message_urgent_def bind_eq_Some_conv Let_def)
  then show "switched s s'"
    using ctx_of_save[of s s1 j] ctx_of_state[of s1 Ready s2] ctx_of_schedule[OF *(4)] assms
    by (auto simp: switched_def)
qed

lemma step_context:
  assumes "sched_step L s s'" "i \<noteq> 0" "i \<in> dom (thread_table (manager s))" "i \<in> dom (thread_table (manager s'))"
    and "sched_inv s"
  shows "current s \<noteq> Some i \<Longrightarrow> ctx_of s' i = ctx_of s i"
    and "current s \<noteq> Some i \<Longrightarrow> current s' = Some i \<Longrightarrow> ctx_of s i = Some (c_regs (hart s'))"
    and "current s = Some i \<Longrightarrow> current s' \<noteq> Some i \<Longrightarrow> ctx_of s' i = Some (c_regs (hart s))"
proof -
  have "(current s \<noteq> Some i \<longrightarrow> ctx_of s' i = ctx_of s i) \<and>
    (current s \<noteq> Some i \<longrightarrow> current s' = Some i \<longrightarrow> ctx_of s i = Some (c_regs (hart s'))) \<and>
    (current s = Some i \<longrightarrow> current s' \<noteq> Some i \<longrightarrow> ctx_of s' i = Some (c_regs (hart s)))"
    using assms
  proof cases
    case (execute r)
    then show ?thesis by simp
  next
    case (add base entry s1 t ctx proc)
    have "t_id t = next_id (manager s)" "manager s1 = (manager s)\<lparr>next_id := next_id (manager s) + 1\<rparr>" "current s1 = current s"
      using add by (auto simp: thread_new_def allocate_thread_id_def Let_def)
    moreover have "i \<noteq> next_id (manager s)"
      using assms(3,5) table_okD(3) by (fastforce simp: sched_inv_def)
    ultimately show ?thesis
      using add(1) by (simp add: ctx_of_def thread_add_def add_thread_def enqueue_ready_def)
  next
    case (event e)
    then show ?thesis using ctx_of_events[of "[e]" s] by simp
  next
    case (yield j sip events)
    then show ?thesis using switched_ops(1)[OF yield(1-3)] assms(2) by (auto simp: switched_def)
  next
    case (block j)
    then show ?thesis using switched_ops(2)[OF block(1-3)] assms(2) by (auto simp: switched_def)
  next
    case (urgent j k msg)
    then show ?thesis using switched_ops(3)[OF urgent(1-3)] assms(2) by (auto simp: switched_def)
  next
    case (receive j r)
    then obtain t where t: "lookup_thread s j = Some t" by (auto simp: receive_message_def bind_eq_Some_conv)
    show ?thesis
    proof (cases "t_inbox t")
      case Nil
      then have "block_now L s = Some s'" using receive t by (auto simp: receive_message_def bind_eq_Some_conv)
      from switched_ops(2)[OF receive(1,2) this] show ?thesis using assms(2) by (auto simp: switched_def)
    next
      case (Cons m rest)
      then have "s' = update_thread s j (t\<lparr>t_inbox := rest\<rparr>)" using receive t by (simp add: receive_message_def)
      then show ?thesis
        using receive(1,2) t by (auto simp: update_thread_def ctx_of_def set_thread_def lookup_thread_def)
    qed
  next
    case (exit j)
    then have *: "schedule L (s\<lparr>manager := remove_thread (manager s) j\<rparr>) = Some s'"
      using assms(5) table_okD(1) by (fastforce simp: exit_thread_def current_thread_def lookup_thread_def
          sched_inv_def bind_eq_Some_conv)
    have "i \<noteq> j" using ctx_of_schedule(1)[OF *, of i] assms(4) by (auto simp: ctx_of_def remove_thread_def)
    then show ?thesis
      using ctx_of_schedule[OF *] exit(1) assms(2) by (auto simp: ctx_of_def remove_thread_def)
  next
    case poll
    then show ?thesis
      using ctx_of_schedule[of L s s'] assms(2) by (auto simp: schedule_if_ready_def split: if_splits)
  next
    case start
    then show ?thesis
      using ctx_of_schedule[of L s s'] assms(2) by (auto simp: start_scheduler_def)
  qed
  then show "current s \<noteq> Some i \<Longrightarrow> ctx_of s' i = ctx_of s i"
    and "current s \<noteq> Some i \<Longrightarrow> current s' = Some i \<Longrightarrow> ctx_of s i = Some (c_regs (hart s'))"
    and "current s = Some i \<Longrightarrow> current s' \<noteq> Some i \<Longrightarrow> ctx_of s' i = Some (c_regs (hart s))"
    by blast+
qed

section \<open>Round robin\<close>

lemma yield_round:
  assumes "sched_inv s" "current s = Some i" "i \<noteq> 0"
  shows "\<exists>s'. yield_now L 0 [] s = Some s' \<and> sched_inv s' \<and>
    current s' = Some (hd (ready_queue (manager s) @ [i])) \<and>
    ready_queue (manager s') = tl (ready_queue (manager s) @ [i]) \<and> hd (ready_queue (manager s) @ [i]) \<noteq> 0"
proof -
  obtain t where t: "thread_table (manager s) i = Some t"
    "save_context s = Some (update_thread s i (t\<lparr>t_context := c_regs (hart s)\<rparr>))"
    "table_ok (set_thread (manager s) i (t\<lparr>t_context := c_regs (hart s)\<rparr>)) (Some i) None"
    using save_context_ok[OF assms] by blast
  let ?t2 = "t\<lparr>t_context := c_regs (hart s), t_state := Ready\<rparr>"
  define s3 where "s3 = s\<lparr>manager := enqueue_ready (set_thread (manager s) i ?t2) i\<rparr>"
  have ok: "table_ok (manager s3) None None"
    using table_ok_enqueue[OF table_ok_ready[OF t(3), of "t\<lparr>t_context := c_regs (hart s)\<rparr>"]]
    by (simp add: s3_def set_thread_def)
  have idl: "idle s3 \<noteq> None" using sched_inv_idle[OF assms(1)] by (simp add: s3_def)
  have rq: "ready_queue (manager s3) = ready_queue (manager s) @ [i]"
    by (simp add: s3_def enqueue_ready_def set_thread_def)
  obtain s' where s': "schedule L s3 = Some s'" "sched_inv s'"
    "current s' = Some (case ready_queue (manager s3) of [] \<Rightarrow> 0 | i # _ \<Rightarrow> i)"
    "ready_queue (manager s') = tl (ready_queue (manager s3))"
    using schedule_ok[OF ok idl] by blast
  have "t_id t = i" using assms(1) table_okD(1)[OF _ t(1)] by (auto simp: sched_inv_def)
  then have "yield_now L 0 [] s = schedule L s3"
    using t(2) assms(2,3)
    by (simp add: yield_now_def current_thread_def lookup_thread_def set_current_state_def update_thread_def
        yield_window_def s3_def set_thread_def)
  moreover have "hd (ready_queue (manager s) @ [i]) \<in> set (ready_queue (manager s3))"
    unfolding rq by (rule hd_in_set) simp
  then have "hd (ready_queue (manager s) @ [i]) \<in> dom (thread_table (manager s3))"
    using ok by (auto simp: table_ok_def)
  then have "hd (ready_queue (manager s) @ [i]) \<noteq> 0" using table_okD(2)[OF ok] by auto
  moreover have "(case ready_queue (manager s3) of [] \<Rightarrow> 0 | i # _ \<Rightarrow> i) = hd (ready_queue (manager s) @ [i])"
    unfolding rq by (cases "ready_queue (manager s)") simp_all
  ultimately show ?thesis using s' rq by simp
qed

fun yield_times :: "layout \<Rightarrow> nat \<Rightarrow> sched \<Rightarrow> sched option" where
  "yield_times L 0 s = Some s"
| "yield_times L (Suc n) s = Option.bind (yield_now L 0 [] s) (yield_times L n)"

lemma yield_times_reaches:
  assumes "sched_inv s" "current s = Some i" "i \<noteq> 0" "k < length (ready_queue (manager s))"
  shows "\<exists>s'. yield_times L (Suc k) s = Some s' \<and> current s' = Some (ready_queue (manager s) ! k)"
  using assms
proof (induction k arbitrary: s i)
  case 0
  then obtain s' where "yield_now L 0 [] s = Some s'" "current s' = Some (hd (ready_queue (manager s) @ [i]))"
    using yield_round[OF 0(1-3)] by blast
  then show ?case using 0(4) by (auto simp: hd_conv_nth nth_append)
next
  case (Suc k)
  let ?q = "ready_queue (manager s)"
  obtain s1 where s1: "yield_now L 0 [] s = Some s1" "sched_inv s1" "current s1 = Some (hd (?q @ [i]))"
    "ready_queue (manager s1) = tl (?q @ [i])" "hd (?q @ [i]) \<noteq> 0"
    using yield_round[OF Suc.prems(1-3)] by blast
  have q: "tl (?q @ [i]) ! k = ?q ! Suc k" "k < length (tl (?q @ [i]))"
    using Suc.prems(4) by (simp_all add: nth_tl nth_append)
  then show ?case
    using Suc.IH[OF s1(2,3,5)] s1(1,4) by simp
qed

section \<open>Properties\<close>

text \<open>
  C10: in every reachable state the ready queue holds exactly the ready threads, each once, only the
  current thread is running, and every switching operation of a current table thread completes: the
  scheduler never dequeues a thread that is not in the table.
\<close>

theorem scheduler_invariant:
  assumes "sched_reachable L s"
  shows "distinct (ready_queue (manager s)) \<and> set (ready_queue (manager s)) \<subseteq> dom (thread_table (manager s)) \<and>
    (\<forall>i t. thread_table (manager s) i = Some t \<longrightarrow>
       (t_state t = Ready \<longleftrightarrow> i \<in> set (ready_queue (manager s))) \<and>
       (t_state t = Running \<longleftrightarrow> current s = Some i)) \<and>
    (\<forall>i. current s = Some i \<longrightarrow> i \<noteq> 0 \<longrightarrow>
       (\<forall>sip es. yield_now L sip es s \<noteq> None) \<and> block_now L s \<noteq> None \<and> exit_thread L s \<noteq> None \<and>
       receive_message L s \<noteq> None \<and> (\<forall>j msg. send_message_urgent L s j msg \<noteq> None))"
proof -
  note inv = sched_reachable_inv[OF assms]
  then have ok: "table_ok (manager s) (current s) None" by (simp add: sched_inv_def)
  have "yield_now L sip es s \<noteq> None" "block_now L s \<noteq> None" "exit_thread L s \<noteq> None"
    "receive_message L s \<noteq> None" "send_message_urgent L s j msg \<noteq> None"
    if "current s = Some i" "i \<noteq> 0" for i sip es j msg
    using yield_now_ok[OF inv that] block_now_ok[OF inv that] exit_thread_ok[OF inv that]
      receive_message_ok[OF inv that] send_message_urgent_ok[OF inv that] by (metis option.distinct(1))+
  then show ?thesis
    using ok table_okD(4,5)[OF ok] by (auto simp: table_ok_def)
qed

definition demo_sched :: sched where
  "demo_sched = \<lparr>manager = manager_new, current = None, idle = None, idle_entry = 0,
     hart = \<lparr>c_regs = context_default, c_pc = 0, c_stvec = Kernel_Trap_Entry, c_sscratch = 0,
       c_tramp_kernel_sp = 0, c_tramp_user_sp = 0, c_tramp_t0 = 0, c_process = None\<rparr>\<rparr>"

definition demo_spawn :: "u64 \<Rightarrow> sched \<Rightarrow> sched" where
  "demo_spawn entry s = (case thread_new s 0x90000000 entry of (s1, t) \<Rightarrow> fst (thread_add s1 t))"

definition demo_layout :: layout where
  "demo_layout = \<lparr>trap_stack_top = 0x80402000, trampoline_trap_frame = 0x80500000\<rparr>"

definition demo_two :: sched where
  "demo_two = demo_spawn 0x80001000 (demo_spawn 0x80002000 (idle_init demo_sched 0x90010000 0x80003000))"

lemmas demo_simps = demo_two_def demo_spawn_def demo_sched_def idle_init_def thread_new_def thread_add_def
  allocate_thread_id_def add_thread_def enqueue_ready_def manager_new_def Let_def

lemma demo_spawn_step: "next_id (manager s) + 1 < usize_bound \<Longrightarrow> sched_step L s (demo_spawn e s)"
proof -
  assume n: "next_id (manager s) + 1 < usize_bound"
  obtain s1 t where st: "thread_new s 0x90000000 e = (s1, t)" by fastforce
  have "t = t\<lparr>t_context := t_context t, t_process := t_process t\<rparr>" by simp
  with sched_step.add[OF st n, where ctx = "t_context t" and proc = "t_process t"] show ?thesis
    by (simp add: demo_spawn_def st)
qed

lemma demo_two_reachable: "sched_reachable L demo_two"
proof -
  have 1: "sched_reachable L (idle_init demo_sched 0x90010000 0x80003000)"
    by (rule sched_reachable.boot) (simp_all add: demo_sched_def)
  have "sched_reachable L (demo_spawn 0x80002000 (idle_init demo_sched 0x90010000 0x80003000))"
    by (rule sched_reachable.step[OF 1 demo_spawn_step])
      (simp add: idle_init_def demo_sched_def manager_new_def usize_bound_def)
  then show ?thesis
    unfolding demo_two_def
    by (rule sched_reachable.step[OF _ demo_spawn_step]) (simp add: demo_simps usize_bound_def)
qed

lemma demo_two_started:
  "\<exists>s. start_scheduler L demo_two = Some s \<and> sched_reachable L s \<and> current s = Some 1 \<and> ready_queue (manager s) = [2]"
proof -
  have "start_scheduler L demo_two \<noteq> None"
    by (simp add: start_scheduler_def schedule_def dequeue_ready_def demo_simps usize_bound_def)
  then obtain s where s: "start_scheduler L demo_two = Some s" by blast
  have "current demo_two = None" by (simp add: demo_simps)
  then have "sched_reachable L s" using s demo_two_reachable sched_step.start sched_reachable.step by blast
  moreover have "current s = Some 1 \<and> ready_queue (manager s) = [2]"
    using s by (auto simp: start_scheduler_def schedule_def dequeue_ready_def demo_simps usize_bound_def set_thread_def)
  ultimately show ?thesis using s by blast
qed

theorem scheduler_invariant_witness:
  "\<exists>s. sched_reachable demo_layout s \<and> current s = Some 1 \<and> block_now demo_layout s \<noteq> None \<and>
     2 \<in> dom (thread_table (manager s))"
proof -
  obtain s where s: "sched_reachable demo_layout s" "current s = Some 1" "ready_queue (manager s) = [2]"
    using demo_two_started by blast
  from scheduler_invariant[OF s(1)] s show ?thesis by (intro exI[of _ s]) auto
qed

text \<open>
  C11: saved contexts survive scheduling. In one step of a reachable system, a thread that is not
  current keeps its saved registers; if it becomes current the CPU continues with exactly these
  registers; and a thread that stops being current without leaving has its registers saved.
\<close>

theorem context_switch_preserves:
  assumes "sched_reachable L s" "sched_step L s s'" "i \<noteq> 0"
    and "i \<in> dom (thread_table (manager s))" "i \<in> dom (thread_table (manager s'))"
  shows "(current s \<noteq> Some i \<longrightarrow> ctx_of s' i = ctx_of s i) \<and>
    (current s \<noteq> Some i \<and> current s' = Some i \<longrightarrow> ctx_of s i = Some (c_regs (hart s'))) \<and>
    (current s = Some i \<and> current s' \<noteq> Some i \<longrightarrow> ctx_of s' i = Some (c_regs (hart s)))"
  using step_context[OF assms(2-5) sched_reachable_inv[OF assms(1)]] by blast

theorem context_switch_preserves_witness:
  "\<exists>s s'. sched_reachable demo_layout s \<and> current s = Some 1 \<and> block_now demo_layout s = Some s' \<and>
     current s' = Some 2 \<and> ctx_of s 2 = Some (c_regs (hart s')) \<and> ctx_of s' 1 = Some (c_regs (hart s))"
proof -
  obtain s where s: "start_scheduler demo_layout demo_two = Some s" "sched_reachable demo_layout s"
    "current s = Some 1" "ready_queue (manager s) = [2]"
    using demo_two_started by blast
  have s_eq: "s = the (start_scheduler demo_layout demo_two)" using s(1) by simp
  have "block_now demo_layout s \<noteq> None \<and> current (the (block_now demo_layout s)) = Some 2 \<and>
      {1, 2} \<subseteq> dom (thread_table (manager s)) \<and> {1, 2} \<subseteq> dom (thread_table (manager (the (block_now demo_layout s))))"
    unfolding s_eq
    by (simp add: start_scheduler_def block_now_def save_context_def set_current_state_def lookup_thread_def
        update_thread_def schedule_def dequeue_ready_def demo_simps usize_bound_def set_thread_def)
  then obtain s' where s': "block_now demo_layout s = Some s'" "current s' = Some 2"
    "{1, 2} \<subseteq> dom (thread_table (manager s))" "{1, 2} \<subseteq> dom (thread_table (manager s'))"
    by (metis option.collapse)
  have st: "sched_step demo_layout s s'" using sched_step.block[OF s(3) _ s'(1)] by simp
  from context_switch_preserves[OF s(2) st, of 1] context_switch_preserves[OF s(2) st, of 2] s s' show ?thesis
    by (intro exI[of _ s] exI[of _ s']) simp
qed

text \<open>
  C12: an urgent message to a blocked thread is delivered at the end of its inbox and the receiver
  is the next thread to run; the sender is still in the system.
\<close>

theorem urgent_send_runs_target:
  assumes "sched_reachable L s" "current s = Some i" "i \<noteq> 0" "j \<noteq> i"
    and "thread_table (manager s) j = Some u" "t_state u = Blocked"
  shows "\<exists>s' u'. send_message_urgent L s j msg = Some s' \<and> current s' = Some j \<and>
    thread_table (manager s') j = Some u' \<and> t_inbox u' = t_inbox u @ [msg] \<and> t_state u' = Running \<and>
    i \<in> set (ready_queue (manager s'))"
proof -
  note inv = sched_reachable_inv[OF assms(1)]
  obtain s' where s': "send_message_urgent L s j msg = Some s'" "sched_inv s'" "current s' = Some j"
    using send_message_urgent_ok[OF inv assms(2,3)] assms(4-6) by blast
  obtain t where "thread_table (manager s) i = Some t" "t_id t = i"
    using inv assms(2,3) table_okD(1) by (fastforce simp: sched_inv_def)
  then show ?thesis
    using s'(1,3) assms(2-6)
    by (auto simp: send_message_urgent_def save_context_def current_thread_def lookup_thread_def
        set_current_state_def update_thread_def set_thread_def urgent_deliver_def Let_def schedule_def
        dequeue_ready_def enqueue_ready_def enqueue_ready_front_def)
qed

theorem urgent_send_runs_target_witness:
  "\<exists>s s'. sched_reachable demo_layout s \<and> current s = Some 2 \<and>
     send_message_urgent demo_layout s 1 \<lparr>m_sender = 2, m_data = 7\<rparr> = Some s' \<and> current s' = Some 1"
proof -
  obtain s where s: "start_scheduler demo_layout demo_two = Some s" "sched_reachable demo_layout s"
    "current s = Some 1" "ready_queue (manager s) = [2]"
    using demo_two_started by blast
  have s_eq: "s = the (start_scheduler demo_layout demo_two)" using s(1) by simp
  have "block_now demo_layout s \<noteq> None \<and> current (the (block_now demo_layout s)) = Some 2 \<and>
      (\<exists>u. thread_table (manager (the (block_now demo_layout s))) 1 = Some u \<and> t_state u = Blocked)"
    unfolding s_eq
    by (simp add: start_scheduler_def block_now_def save_context_def set_current_state_def lookup_thread_def
        update_thread_def schedule_def dequeue_ready_def demo_simps usize_bound_def set_thread_def)
  then obtain s' u where s': "block_now demo_layout s = Some s'" "current s' = Some 2"
    "thread_table (manager s') 1 = Some u" "t_state u = Blocked" by auto
  have r: "sched_reachable demo_layout s'"
    using sched_reachable.step[OF s(2)] sched_step.block[OF s(3) _ s'(1)] by simp
  from urgent_send_runs_target[OF r s'(2) _ _ s'(3,4), of "\<lparr>m_sender = 2, m_data = 7\<rparr>"] r s'(2)
  show ?thesis by auto
qed

text \<open>
  C13: round robin. With no pending interrupts, the thread at position \<open>k\<close> of the ready queue runs
  after exactly \<open>k + 1\<close> yields.
\<close>

theorem ready_thread_runs_eventually:
  assumes "sched_reachable L s" "current s = Some i" "i \<noteq> 0" "k < length (ready_queue (manager s))"
  shows "\<exists>s'. yield_times L (Suc k) s = Some s' \<and> current s' = Some (ready_queue (manager s) ! k)"
  using yield_times_reaches[OF sched_reachable_inv[OF assms(1)] assms(2-4)] .

theorem ready_thread_runs_eventually_witness:
  "\<exists>s s'. sched_reachable demo_layout s \<and> current s = Some 1 \<and>
     yield_times demo_layout 1 s = Some s' \<and> current s' = Some 2"
proof -
  obtain s where s: "sched_reachable demo_layout s" "current s = Some 1" "ready_queue (manager s) = [2]"
    using demo_two_started by blast
  from ready_thread_runs_eventually[OF s(1,2), of 0] s show ?thesis by auto
qed

end
