(* ===== verification/Trap_Asm.thy ===== *)
theory Trap_Asm
  imports Nano_Prelude
begin

text \<open>
  The assembly of the context switch and of the two trap entries (\<open>src/src/thread.rs\<close>,
  \<open>src/src/kernel_trap.rs\<close>, \<open>src/src/trap.rs\<close>, \<open>src/src/process_trampoline.rs\<close>) as instruction lists
  over a small RISC-V machine, with the frame layouts of \<open>src/types/src/lib.rs\<close> and the offsets that
  \<open>src/build.rs\<close> generates from them. All accesses are aligned doublewords, so the memory maps
  doubleword addresses to doublewords; the frames are mapped at the same addresses in the kernel's
  and in every process's address space, so a write to \<open>satp\<close> does not change what they read.
\<close>

unbundle bit_operations_syntax

section \<open>The machine\<close>

type_synonym reg = nat  \<comment> \<open>\<open>x1\<close> to \<open>x31\<close>\<close>

abbreviation x_ra :: reg where "x_ra \<equiv> 1"
abbreviation x_sp :: reg where "x_sp \<equiv> 2"
abbreviation x_gp :: reg where "x_gp \<equiv> 3"
abbreviation x_tp :: reg where "x_tp \<equiv> 4"
abbreviation x_t0 :: reg where "x_t0 \<equiv> 5"
abbreviation x_t1 :: reg where "x_t1 \<equiv> 6"
abbreviation x_t2 :: reg where "x_t2 \<equiv> 7"
abbreviation x_s0 :: reg where "x_s0 \<equiv> 8"
abbreviation x_s1 :: reg where "x_s1 \<equiv> 9"
abbreviation x_a0 :: reg where "x_a0 \<equiv> 10"

datatype csr = Sscratch | Sepc | Satp | Scause | Stval | Sstatus | Stvec | Sie

datatype instr =
    Csrrw reg csr reg
  | Csrr reg csr
  | Csrw csr reg
  | Csrc csr reg
  | Sd reg u64 reg
  | Ld reg u64 reg
  | Addi reg reg u64
  | Mv reg reg
  | Li reg u64
  | OrR reg reg reg
  | AndR reg reg reg
  | Beqz reg nat  \<comment> \<open>skip the given number of instructions\<close>
  | Cache_Op
  | Sfence

record asm =
  xregs :: "reg \<Rightarrow> u64"
  csrs :: "csr \<Rightarrow> u64"
  dmem :: "u64 \<Rightarrow> u64"

definition set_reg :: "asm \<Rightarrow> reg \<Rightarrow> u64 \<Rightarrow> asm" where
  "set_reg s r v = s\<lparr>xregs := (xregs s)(r := v)\<rparr>"

definition set_csr :: "asm \<Rightarrow> csr \<Rightarrow> u64 \<Rightarrow> asm" where
  "set_csr s c v = s\<lparr>csrs := (csrs s)(c := v)\<rparr>"

fun exec_instr :: "instr \<Rightarrow> asm \<Rightarrow> asm" where
  "exec_instr (Csrrw rd c rs) s = set_csr (set_reg s rd (csrs s c)) c (xregs s rs)"
| "exec_instr (Csrr rd c) s = set_reg s rd (csrs s c)"
| "exec_instr (Csrw c rs) s = set_csr s c (xregs s rs)"
| "exec_instr (Csrc c rs) s = set_csr s c (csrs s c AND NOT (xregs s rs))"
| "exec_instr (Sd rs off base) s = s\<lparr>dmem := (dmem s)(xregs s base + off := xregs s rs)\<rparr>"
| "exec_instr (Ld rd off base) s = set_reg s rd (dmem s (xregs s base + off))"
| "exec_instr (Addi rd rs imm) s = set_reg s rd (xregs s rs + imm)"
| "exec_instr (Mv rd rs) s = set_reg s rd (xregs s rs)"
| "exec_instr (Li rd imm) s = set_reg s rd imm"
| "exec_instr (OrR rd r1 r2) s = set_reg s rd (xregs s r1 OR xregs s r2)"
| "exec_instr (AndR rd r1 r2) s = set_reg s rd (xregs s r1 AND xregs s r2)"
| "exec_instr (Beqz r n) s = s"
| "exec_instr Cache_Op s = s"
| "exec_instr Sfence s = s"

text \<open>A taken \<open>Beqz r n\<close> skips the next \<open>n\<close> instructions.\<close>

fun exec_skip :: "nat \<Rightarrow> instr list \<Rightarrow> asm \<Rightarrow> asm" where
  "exec_skip k [] s = s"
| "exec_skip (Suc k) (i # is) s = exec_skip k is s"
| "exec_skip 0 (i # is) s =
     (case i of Beqz r n \<Rightarrow> exec_skip (if xregs s r = 0 then n else 0) is s
      | _ \<Rightarrow> exec_skip 0 is (exec_instr i s))"

abbreviation exec :: "instr list \<Rightarrow> asm \<Rightarrow> asm" where
  "exec \<equiv> exec_skip 0"

section \<open>Frame layouts\<close>

text \<open>\<open>GpRegisters\<close> holds \<open>x1\<close> to \<open>x31\<close> in order, at the start of both trap frames.\<close>

definition gp_off :: "reg \<Rightarrow> u64" where
  "gp_off r = word_of_nat (8 * (r - 1))"

definition PTF_PC :: u64 where "PTF_PC = 248"
definition PTF_SEPC :: u64 where "PTF_SEPC = 256"
definition PTF_SSTATUS :: u64 where "PTF_SSTATUS = 264"
definition PTF_STVAL :: u64 where "PTF_STVAL = 272"
definition PTF_SCAUSE :: u64 where "PTF_SCAUSE = 280"
definition PTF_SATP :: u64 where "PTF_SATP = 288"
definition KTF_SEPC :: u64 where "KTF_SEPC = 248"
definition KTF_SIZE :: u64 where "KTF_SIZE = 256"
definition TTF_USER_SP :: u64 where "TTF_USER_SP = 0"
definition TTF_T0 :: u64 where "TTF_T0 = 8"
definition TTF_KERNEL_SATP :: u64 where "TTF_KERNEL_SATP = 16"
definition TTF_IS_LICHEE_RVNANO :: u64 where "TTF_IS_LICHEE_RVNANO = 24"
definition TTF_KERNEL_SP :: u64 where "TTF_KERNEL_SP = 32"

text \<open>\<open>ThreadContext\<close>: \<open>sp\<close>, \<open>ra\<close>, \<open>s0\<close> to \<open>s11\<close>.\<close>

definition tc_regs :: "reg list" where
  "tc_regs = [x_sp, x_ra, 8, 9, 18, 19, 20, 21, 22, 23, 24, 25, 26, 27]"

definition tc_off :: "nat \<Rightarrow> u64" where
  "tc_off k = word_of_nat (8 * k)"

text \<open>
  The generated file \<open>offsets.S\<close>: one \<open>.equ\<close> per field, with the upper-cased name, in the order in
  which \<open>build.rs\<close> writes them.
\<close>

definition reg_names :: "(string \<times> reg) list" where
  "reg_names = zip [''RA'', ''SP'', ''GP'', ''TP'', ''T0'', ''T1'', ''T2'', ''S0'', ''S1'',
     ''A0'', ''A1'', ''A2'', ''A3'', ''A4'', ''A5'', ''A6'', ''A7'',
     ''S2'', ''S3'', ''S4'', ''S5'', ''S6'', ''S7'', ''S8'', ''S9'', ''S10'', ''S11'',
     ''T3'', ''T4'', ''T5'', ''T6''] [1..<32]"

definition generate_trampoline_trap_frame_offsets :: "(string \<times> u64) list" where
  "generate_trampoline_trap_frame_offsets =
     [(''TTF_USER_SP'', TTF_USER_SP), (''TTF_T0'', TTF_T0), (''TTF_KERNEL_SATP'', TTF_KERNEL_SATP),
      (''TTF_IS_LICHEE_RVNANO'', TTF_IS_LICHEE_RVNANO), (''TTF_KERNEL_SP'', TTF_KERNEL_SP)]"

definition generate_process_trap_frame_offsets :: "(string \<times> u64) list" where
  "generate_process_trap_frame_offsets =
     [(''PTF_PC'', PTF_PC), (''PTF_SEPC'', PTF_SEPC), (''PTF_SSTATUS'', PTF_SSTATUS),
      (''PTF_STVAL'', PTF_STVAL), (''PTF_SCAUSE'', PTF_SCAUSE), (''PTF_SATP'', PTF_SATP)] @
     map (\<lambda>(n, r). (''PTF_'' @ n, gp_off r)) reg_names"

definition generate_kernel_trap_frame_offsets :: "(string \<times> u64) list" where
  "generate_kernel_trap_frame_offsets =
     [(''KTF_SEPC'', KTF_SEPC)] @ map (\<lambda>(n, r). (''KTF_'' @ n, gp_off r)) reg_names @ [(''KTF_SIZE'', KTF_SIZE)]"

definition generate_thread_context_offsets :: "(string \<times> u64) list" where
  "generate_thread_context_offsets =
     zip [''TC_SP'', ''TC_RA'', ''TC_S0'', ''TC_S1'', ''TC_S2'', ''TC_S3'', ''TC_S4'', ''TC_S5'', ''TC_S6'',
       ''TC_S7'', ''TC_S8'', ''TC_S9'', ''TC_S10'', ''TC_S11''] (map tc_off [0..<14])"

section \<open>The code\<close>

definition SSTATUS_SPIE :: u64 where "SSTATUS_SPIE = push_bit 5 1"
definition SSTATUS_SPP :: u64 where "SSTATUS_SPP = push_bit 8 1"
definition SIE_SSIE :: u64 where "SIE_SSIE = push_bit 1 1"
definition SIE_SEIE :: u64 where "SIE_SEIE = push_bit 9 1"

text \<open>
  \<open>save_context_with_ra_in_t1\<close>: \<open>current_thread\<close> is the address of the static that points to the
  running thread and \<open>context_offset\<close> the offset of its context; \<open>t1\<close> holds the original \<open>ra\<close>.
\<close>

definition save_context_asm :: "u64 \<Rightarrow> u64 \<Rightarrow> instr list" where
  "save_context_asm current_thread context_offset =
     [Li x_t0 current_thread, Ld x_t0 0 x_t0, Addi x_t0 x_t0 context_offset,
      Sd x_sp (tc_off 0) x_t0, Sd x_t1 (tc_off 1) x_t0] @
     map (\<lambda>k. Sd (tc_regs ! k) (tc_off k) x_t0) [2..<14]"

definition restore_context_asm :: "instr list" where
  "restore_context_asm = map (\<lambda>k. Ld (tc_regs ! k) (tc_off k) x_a0) [0..<14]"

text \<open>The general-purpose registers that the trap entries save and restore by name.\<close>

definition ktf_regs :: "reg list" where
  "ktf_regs = [x_ra, x_gp, x_tp] @ [x_t0..<32]"

definition ptf_save_regs :: "reg list" where
  "ptf_save_regs = [x_ra, x_gp, x_tp] @ [x_t2..<32]"

definition ptf_load_regs :: "reg list" where
  "ptf_load_regs = [x_ra, x_gp, x_tp] @ [x_t1..<32]"

definition save_gp :: "reg list \<Rightarrow> instr list" where
  "save_gp rs = map (\<lambda>r. Sd r (gp_off r) x_sp) rs"

definition load_gp :: "reg list \<Rightarrow> instr list" where
  "load_gp rs = map (\<lambda>r. Ld r (gp_off r) x_sp) rs"

definition kernel_trap_save :: "instr list" where
  "kernel_trap_save =
     [Csrrw x_sp Sscratch x_sp, Addi x_sp x_sp (- KTF_SIZE)] @ save_gp ktf_regs @
     [Csrr x_t0 Sscratch, Sd x_t0 (gp_off x_sp) x_sp, Csrr x_t0 Sepc, Sd x_t0 KTF_SEPC x_sp,
      Mv x_a0 x_sp]"

definition kernel_trap_restore :: "instr list" where
  "kernel_trap_restore =
     [Ld x_t0 KTF_SEPC x_sp, Csrw Sepc x_t0, Ld x_t0 (gp_off x_sp) x_sp, Csrw Sscratch x_t0,
      Li x_t0 SSTATUS_SPIE, Csrc Sstatus x_t0] @ load_gp ktf_regs @
     [Addi x_sp x_sp KTF_SIZE, Csrrw x_sp Sscratch x_sp]"

definition user_trap_save :: "instr list" where
  "user_trap_save =
     [Csrrw x_sp Sscratch x_sp, Sd x_t0 TTF_T0 x_sp, Csrr x_t0 Sscratch, Sd x_t0 TTF_USER_SP x_sp,
      Csrw Sscratch x_sp, Ld x_t0 TTF_KERNEL_SATP x_sp, Csrw Satp x_t0,
      Ld x_t0 TTF_IS_LICHEE_RVNANO x_sp, Beqz x_t0 2, Cache_Op, Cache_Op, Sfence,
      Mv x_t0 x_sp, Ld x_sp TTF_KERNEL_SP x_sp,
      Sd x_t1 (gp_off x_t1) x_sp, Ld x_t1 TTF_USER_SP x_t0, Sd x_t1 (gp_off x_sp) x_sp,
      Ld x_t1 TTF_T0 x_t0, Sd x_t1 (gp_off x_t0) x_sp] @
     save_gp ptf_save_regs @
     [Csrr x_t0 Sepc, Sd x_t0 PTF_SEPC x_sp, Csrr x_t0 Scause, Sd x_t0 PTF_SCAUSE x_sp,
      Csrr x_t0 Stval, Sd x_t0 PTF_STVAL x_sp, Csrr x_t0 Sstatus, Sd x_t0 PTF_SSTATUS x_sp,
      Mv x_a0 x_sp]"

definition user_trap_restore :: "instr list" where
  "user_trap_restore =
     [Mv x_sp x_a0] @ load_gp ptf_load_regs @
     [Ld x_t0 PTF_PC x_sp, Csrw Sepc x_t0, Ld x_t0 PTF_SSTATUS x_sp, Csrw Sstatus x_t0,
      Ld x_t0 PTF_SATP x_sp, Csrw Satp x_t0, Csrr x_sp Sscratch,
      Ld x_t0 TTF_IS_LICHEE_RVNANO x_sp, Beqz x_t0 2, Cache_Op, Cache_Op, Sfence,
      Ld x_t0 TTF_T0 x_sp, Ld x_sp TTF_USER_SP x_sp]"

text \<open>
  The assembly of \<open>enter_process\<close>: \<open>ttf\<close> is the address of the static that holds the trampoline trap
  frame's address; the operands are in registers that the compiler chooses.
\<close>

definition enter_process_asm :: "u64 \<Rightarrow> reg \<Rightarrow> reg \<Rightarrow> reg \<Rightarrow> reg \<Rightarrow> reg \<Rightarrow> reg \<Rightarrow> reg \<Rightarrow> instr list" where
  "enter_process_asm ttf trap_entry satp_value user_pc user_sp sie_value sstatus_spie sstatus_spp_mask =
     [Li x_t0 ttf, Ld x_t0 0 x_t0, Csrw Sscratch x_t0, Csrw Sie sie_value,
      Csrr x_t1 Sstatus, OrR x_t1 x_t1 sstatus_spie, AndR x_t1 x_t1 sstatus_spp_mask, Csrw Sstatus x_t1,
      Csrw Stvec trap_entry, Csrw Satp satp_value,
      Ld x_t0 TTF_IS_LICHEE_RVNANO x_t0, Beqz x_t0 2, Cache_Op, Cache_Op, Sfence,
      Csrw Sepc user_pc, Mv x_sp user_sp]"

section \<open>Executing straight-line saves and loads\<close>

lemma exec_append:
  "(\<forall>i \<in> set is. \<not> (\<exists>r n. i = Beqz r n)) \<Longrightarrow> exec (is @ js) s = exec js (exec is s)"
  by (induction "is" arbitrary: s) (auto split: instr.splits)

text \<open>Slots of a frame: doubleword \<open>k\<close> is at offset \<open>8 * k\<close>.\<close>

lemma unat_slot: "k < 64 \<Longrightarrow> unat (word_of_nat (8 * k) :: u64) = 8 * k"
  by (simp only: unat_of_nat) simp

lemma slot_eq: "k < 64 \<Longrightarrow> j < 64 \<Longrightarrow> (word_of_nat (8 * k) :: u64) = word_of_nat (8 * j) \<longleftrightarrow> k = j"
  using unat_slot[of k] unat_slot[of j] by (metis mult_left_cancel zero_neq_numeral)

lemma gp_off_inj: "1 \<le> r \<Longrightarrow> r < 32 \<Longrightarrow> 1 \<le> q \<Longrightarrow> q < 32 \<Longrightarrow> gp_off r = gp_off q \<longleftrightarrow> r = q"
  using slot_eq[of "r - 1" "q - 1"] unfolding gp_off_def by linarith

lemma exec_save_gp:
  assumes "\<forall>r \<in> set rs. 1 \<le> r \<and> r < 32" "distinct rs"
  shows "xregs (exec (save_gp rs) s) = xregs s" "csrs (exec (save_gp rs) s) = csrs s"
    and "r \<in> set rs \<Longrightarrow> dmem (exec (save_gp rs) s) (xregs s x_sp + gp_off r) = xregs s r"
    and "\<forall>r \<in> set rs. a \<noteq> xregs s x_sp + gp_off r \<Longrightarrow> dmem (exec (save_gp rs) s) a = dmem s a"
proof -
  have "xregs (exec (save_gp rs) s) = xregs s \<and> csrs (exec (save_gp rs) s) = csrs s \<and>
    (\<forall>r \<in> set rs. dmem (exec (save_gp rs) s) (xregs s x_sp + gp_off r) = xregs s r) \<and>
    (\<forall>a. (\<forall>r \<in> set rs. a \<noteq> xregs s x_sp + gp_off r) \<longrightarrow> dmem (exec (save_gp rs) s) a = dmem s a)"
    using assms
  proof (induction rs arbitrary: s)
    case (Cons q rs)
    let ?s1 = "s\<lparr>dmem := (dmem s)(xregs s x_sp + gp_off q := xregs s q)\<rparr>"
    have IH: "xregs (exec (save_gp rs) ?s1) = xregs s" "csrs (exec (save_gp rs) ?s1) = csrs s"
      "\<forall>r \<in> set rs. dmem (exec (save_gp rs) ?s1) (xregs s x_sp + gp_off r) = xregs s r"
      "\<forall>a. (\<forall>r \<in> set rs. a \<noteq> xregs s x_sp + gp_off r) \<longrightarrow> dmem (exec (save_gp rs) ?s1) a = dmem ?s1 a"
      using Cons.IH[of ?s1] Cons.prems by simp_all
    have "exec (save_gp (q # rs)) s = exec (save_gp rs) ?s1" by (simp add: save_gp_def)
    moreover have "\<forall>r \<in> set rs. gp_off q \<noteq> gp_off r"
      using Cons.prems gp_off_inj[of q] by auto
    ultimately show ?case using IH by auto
  qed (simp add: save_gp_def)
  then show "xregs (exec (save_gp rs) s) = xregs s" "csrs (exec (save_gp rs) s) = csrs s"
    and "r \<in> set rs \<Longrightarrow> dmem (exec (save_gp rs) s) (xregs s x_sp + gp_off r) = xregs s r"
    and "\<forall>r \<in> set rs. a \<noteq> xregs s x_sp + gp_off r \<Longrightarrow> dmem (exec (save_gp rs) s) a = dmem s a"
    by blast+
qed

lemma exec_load_gp:
  assumes "x_sp \<notin> set rs"
  shows "csrs (exec (load_gp rs) s) = csrs s" "dmem (exec (load_gp rs) s) = dmem s"
    and "xregs (exec (load_gp rs) s) r = (if r \<in> set rs then dmem s (xregs s x_sp + gp_off r) else xregs s r)"
proof -
  have "csrs (exec (load_gp rs) s) = csrs s \<and> dmem (exec (load_gp rs) s) = dmem s \<and>
    (\<forall>r. xregs (exec (load_gp rs) s) r = (if r \<in> set rs then dmem s (xregs s x_sp + gp_off r) else xregs s r))"
    using assms
  proof (induction rs arbitrary: s)
    case (Cons q rs)
    have "exec (load_gp (q # rs)) s = exec (load_gp rs) (set_reg s q (dmem s (xregs s x_sp + gp_off q)))"
      by (simp add: load_gp_def)
    with Cons show ?case by (auto simp: set_reg_def)
  qed (simp add: load_gp_def)
  then show "csrs (exec (load_gp rs) s) = csrs s" "dmem (exec (load_gp rs) s) = dmem s"
    and "xregs (exec (load_gp rs) s) r = (if r \<in> set rs then dmem s (xregs s x_sp + gp_off r) else xregs s r)"
    by blast+
qed

section \<open>Kernel trap\<close>

lemmas asm_simps = set_reg_def set_csr_def KTF_SIZE_def KTF_SEPC_def

lemma ktf_regs_props:
  "\<forall>r \<in> set ktf_regs. 1 \<le> r \<and> r < 32" "distinct ktf_regs" "x_sp \<notin> set ktf_regs"
  "set ktf_regs = {1..31} - {x_sp}"
  unfolding ktf_regs_def set_append set_upt by auto

lemma slot_gp_off:
  assumes "r \<in> {1..31}" "31 \<le> k" "k < 64"
  shows "word_of_nat (8 * k) \<noteq> gp_off r"
proof -
  have "k \<noteq> r - 1" "r - 1 < 64" using assms by auto
  then show ?thesis unfolding gp_off_def using slot_eq[of k "r - 1"] assms(3) by simp
qed

lemma ktf_sepc_off: "r \<in> {1..31} \<Longrightarrow> KTF_SEPC \<noteq> gp_off r"
  using slot_gp_off[of r 31] by (simp add: KTF_SEPC_def)

lemma gp_off_vals: "gp_off x_sp = 8" "gp_off x_t0 = 32" "gp_off x_t1 = 40"
  by (simp_all add: gp_off_def)

lemma save_gp_no_branch: "\<forall>i \<in> set (save_gp rs). \<not> (\<exists>r n. i = Beqz r n)"
  by (auto simp: save_gp_def)

lemma load_gp_no_branch: "\<forall>i \<in> set (load_gp rs). \<not> (\<exists>r n. i = Beqz r n)"
  by (auto simp: load_gp_def)

lemma kernel_trap_save_frame:
  fixes s :: asm
  defines "fr \<equiv> csrs s Sscratch - KTF_SIZE"
  shows "xregs (exec kernel_trap_save s) x_sp = fr" "xregs (exec kernel_trap_save s) x_a0 = fr"
    and "r \<in> {1..31} \<Longrightarrow> dmem (exec kernel_trap_save s) (fr + gp_off r) = xregs s r"
    and "dmem (exec kernel_trap_save s) (fr + KTF_SEPC) = csrs s Sepc"
    and "csrs (exec kernel_trap_save s) c = (if c = Sscratch then xregs s x_sp else csrs s c)"
    and "\<forall>k < 32. a \<noteq> fr + word_of_nat (8 * k) \<Longrightarrow> dmem (exec kernel_trap_save s) a = dmem s a"
proof -
  define s1 where "s1 = exec [Csrrw x_sp Sscratch x_sp, Addi x_sp x_sp (- KTF_SIZE)] s"
  define s2 where "s2 = exec (save_gp ktf_regs) s1"
  have run: "exec kernel_trap_save s =
    exec [Csrr x_t0 Sscratch, Sd x_t0 (gp_off x_sp) x_sp, Csrr x_t0 Sepc, Sd x_t0 KTF_SEPC x_sp, Mv x_a0 x_sp] s2"
    by (simp add: kernel_trap_save_def s2_def s1_def exec_append[OF save_gp_no_branch])
  have s1: "xregs s1 x_sp = fr" "xregs s1 q = xregs s q" "csrs s1 = (csrs s)(Sscratch := xregs s x_sp)"
    "dmem s1 = dmem s" if "q \<noteq> x_sp" for q
    using that by (simp_all add: s1_def asm_simps fr_def)
  have sp1: "xregs s1 x_sp = fr" using s1(1)[of 1] by simp
  note sg = exec_save_gp[OF ktf_regs_props(1,2), where s = s1, folded s2_def]
  have sp2: "xregs s2 x_sp = fr" "csrs s2 = (csrs s)(Sscratch := xregs s x_sp)"
    using sg(1,2) sp1 s1(3)[of 1] by simp_all
  have fin: "xregs (exec kernel_trap_save s) x_sp = fr" "xregs (exec kernel_trap_save s) x_a0 = fr"
    "dmem (exec kernel_trap_save s) = (dmem s2)(fr + gp_off x_sp := xregs s x_sp, fr + KTF_SEPC := csrs s Sepc)"
    "csrs (exec kernel_trap_save s) = csrs s2"
    unfolding run using sp2 by (simp_all add: set_reg_def set_csr_def)
  show "xregs (exec kernel_trap_save s) x_sp = fr" "xregs (exec kernel_trap_save s) x_a0 = fr"
    by (rule fin)+
  show "csrs (exec kernel_trap_save s) c = (if c = Sscratch then xregs s x_sp else csrs s c)"
    using fin(4) sp2(2) by simp
  show "dmem (exec kernel_trap_save s) (fr + KTF_SEPC) = csrs s Sepc"
    using fin(3) by simp
  show "dmem (exec kernel_trap_save s) (fr + gp_off r) = xregs s r" if r: "r \<in> {1..31}"
  proof (cases "r = x_sp")
    case True
    then show ?thesis using fin(3) ktf_sepc_off[OF r] by simp
  next
    case False
    then have "r \<in> set ktf_regs" using r ktf_regs_props(4) by simp
    then have "dmem s2 (fr + gp_off r) = xregs s r" using sg(3)[where r = r] sp1 s1(2)[OF False] by simp
    moreover have "gp_off r \<noteq> gp_off x_sp" using gp_off_inj[of r x_sp] r False by auto
    ultimately show ?thesis using fin(3) ktf_sepc_off[OF r] by simp
  qed
  show "dmem (exec kernel_trap_save s) a = dmem s a" if a: "\<forall>k < 32. a \<noteq> fr + word_of_nat (8 * k)"
  proof -
    have "a \<noteq> fr + gp_off r" if "r \<in> {1..31}" for r
    proof -
      have "r - 1 < 32" using that by auto
      then show ?thesis using a unfolding gp_off_def by blast
    qed
    moreover have "a \<noteq> fr + KTF_SEPC" using a[rule_format, of 31] by (simp add: KTF_SEPC_def)
    ultimately show ?thesis using fin(3) sg(4)[where a = a] sp1 s1(4)[of 1] ktf_regs_props(4) by simp
  qed
qed

lemma kernel_trap_restore_frame:
  fixes s :: asm
  defines "fr \<equiv> xregs s x_sp"
  shows "r \<in> {1..31} \<Longrightarrow> xregs (exec kernel_trap_restore s) r = dmem s (fr + gp_off r)"
    and "csrs (exec kernel_trap_restore s) = (csrs s)(Sepc := dmem s (fr + KTF_SEPC),
          Sscratch := fr + KTF_SIZE, Sstatus := csrs s Sstatus AND NOT SSTATUS_SPIE)"
    and "dmem (exec kernel_trap_restore s) = dmem s"
proof -
  define s1 where "s1 = exec [Ld x_t0 KTF_SEPC x_sp, Csrw Sepc x_t0, Ld x_t0 (gp_off x_sp) x_sp,
    Csrw Sscratch x_t0, Li x_t0 SSTATUS_SPIE, Csrc Sstatus x_t0] s"
  define s2 where "s2 = exec (load_gp ktf_regs) s1"
  have run: "exec kernel_trap_restore s = exec [Addi x_sp x_sp KTF_SIZE, Csrrw x_sp Sscratch x_sp] s2"
    by (simp add: kernel_trap_restore_def s2_def s1_def exec_append[OF load_gp_no_branch])
  have s1: "xregs s1 x_sp = fr" "dmem s1 = dmem s" "csrs s1 = (csrs s)(Sepc := dmem s (fr + KTF_SEPC),
      Sscratch := dmem s (fr + gp_off x_sp), Sstatus := csrs s Sstatus AND NOT SSTATUS_SPIE)"
    by (simp_all add: s1_def set_reg_def set_csr_def fr_def)
  note lg = exec_load_gp[OF ktf_regs_props(3), where s = s1, folded s2_def]
  show "xregs (exec kernel_trap_restore s) r = dmem s (fr + gp_off r)" if "r \<in> {1..31}"
    unfolding run using that lg(3)[where r = r] lg(1) s1 ktf_regs_props(4)
    by (cases "r = x_sp") (simp_all add: set_reg_def set_csr_def)
  show "csrs (exec kernel_trap_restore s) = (csrs s)(Sepc := dmem s (fr + KTF_SEPC),
          Sscratch := fr + KTF_SIZE, Sstatus := csrs s Sstatus AND NOT SSTATUS_SPIE)"
    unfolding run using lg(1) lg(3)[where r = x_sp] s1 ktf_regs_props(3) by (auto simp: set_reg_def set_csr_def)
  show "dmem (exec kernel_trap_restore s) = dmem s"
    unfolding run using lg(2) s1 by (simp add: set_reg_def set_csr_def)
qed

text \<open>
  C14: A kernel trap is invisible to the code it interrupts. The entry of \<open>kernel_trap_entry\<close> saves
  the 31 general-purpose registers and \<open>sepc\<close> in a frame below the trap stack and writes nothing
  outside it; the handler gets the frame's address. If the handler returns with \<open>sp\<close> and the
  saved registers as it found them (it may change the frame's \<open>sepc\<close> and every other register),
  the exit restores all 31 registers, resumes at the frame's \<open>sepc\<close> with \<open>sscratch\<close> back at the top
  of the trap stack, and has \<open>sstatus.SPIE\<close> clear.
\<close>

theorem kernel_trap_roundtrip:
  assumes "s1 = exec kernel_trap_save s" "fr = csrs s Sscratch - KTF_SIZE"
    and "xregs s2 x_sp = xregs s1 x_sp"
    and "\<forall>r \<in> {1..31}. dmem s2 (fr + gp_off r) = dmem s1 (fr + gp_off r)"
    and "s3 = exec kernel_trap_restore s2"
  shows "(\<forall>r \<in> {1..31}. xregs s3 r = xregs s r) \<and>
    xregs s1 x_a0 = fr \<and> dmem s1 (fr + KTF_SEPC) = csrs s Sepc \<and>
    (\<forall>a. (\<forall>k < 32. a \<noteq> fr + word_of_nat (8 * k)) \<longrightarrow> dmem s1 a = dmem s a) \<and>
    csrs s3 Sepc = dmem s2 (fr + KTF_SEPC) \<and> csrs s3 Sscratch = csrs s Sscratch \<and>
    csrs s3 Sstatus = csrs s2 Sstatus AND NOT SSTATUS_SPIE \<and> dmem s3 = dmem s2"
proof -
  note sv = kernel_trap_save_frame[where s = s, folded assms(1,2)]
  have sp: "xregs s2 x_sp = fr" using assms(3) sv(1) by simp
  note rs = kernel_trap_restore_frame[where s = s2, folded assms(5), unfolded sp]
  have "xregs s3 r = xregs s r" if "r \<in> {1..31}" for r
    using rs(1)[OF that] assms(4) sv(3)[OF that] that by simp
  moreover have "csrs s3 Sscratch = csrs s Sscratch" using rs(2) assms(2) by simp
  ultimately show ?thesis using rs(2,3) sv(2,4,6) by simp
qed

definition demo_asm :: asm where
  "demo_asm = \<lparr>xregs = (\<lambda>r. word_of_nat r), csrs = (\<lambda>c. if c = Sscratch then 0x80002000 else 0x80200000),
     dmem = (\<lambda>a. if a = 0x80002020 then 0x80003000 else 0)\<rparr>"

theorem kernel_trap_roundtrip_witness:
  "xregs (exec kernel_trap_restore (set_reg (exec kernel_trap_save demo_asm) x_t0 77)) x_t0 = 5 \<and>
   csrs (exec kernel_trap_restore (set_reg (exec kernel_trap_save demo_asm) x_t0 77)) Sepc = 0x80200000"
  using kernel_trap_roundtrip[OF refl refl, where s = demo_asm and ?s2.0 = "set_reg (exec kernel_trap_save demo_asm) x_t0 77", OF _ _ refl]
  by (simp add: set_reg_def, simp add: demo_asm_def)

section \<open>User trap\<close>

text \<open>
  The trampoline trap frame (5 doublewords at \<open>tf\<close>) and the process trap frame (37 doublewords at
  \<open>ptf\<close>) do not overlap.
\<close>

definition frames_disjoint :: "u64 \<Rightarrow> u64 \<Rightarrow> bool" where
  "frames_disjoint tf ptf \<longleftrightarrow> (\<forall>i < 5. \<forall>k < 37. tf + word_of_nat (8 * i) \<noteq> ptf + word_of_nat (8 * k))"

lemma frames_disjointD:
  assumes "frames_disjoint tf ptf" "i < 5" "k < 37"
  shows "tf + word_of_nat (8 * i) \<noteq> ptf + word_of_nat (8 * k)" "ptf + word_of_nat (8 * k) \<noteq> tf + word_of_nat (8 * i)"
  using assms unfolding frames_disjoint_def by metis+

lemma frames_disjoint_gp:
  assumes "frames_disjoint tf ptf" "r \<in> {1..31}"
  shows "ptf + gp_off r \<noteq> tf" "ptf + gp_off r \<noteq> tf + 8" "ptf + gp_off r \<noteq> tf + 16"
    "ptf + gp_off r \<noteq> tf + 24" "ptf + gp_off r \<noteq> tf + 32"
proof -
  have "r - 1 < 37" using assms(2) by auto
  note d = frames_disjointD(2)[OF assms(1) _ this, folded gp_off_def]
  show "ptf + gp_off r \<noteq> tf" "ptf + gp_off r \<noteq> tf + 8" "ptf + gp_off r \<noteq> tf + 16"
    "ptf + gp_off r \<noteq> tf + 24" "ptf + gp_off r \<noteq> tf + 32"
    using d[of 0] d[of 1] d[of 2] d[of 3] d[of 4] by simp_all
qed

lemma ptf_regs_props:
  "\<forall>r \<in> set ptf_save_regs. 1 \<le> r \<and> r < 32" "distinct ptf_save_regs"
  "set ptf_save_regs = {1..31} - {x_sp, x_t0, x_t1}" "x_sp \<notin> set ptf_load_regs"
  "set ptf_load_regs = {1..31} - {x_sp, x_t0}"
  unfolding ptf_save_regs_def ptf_load_regs_def set_append set_upt by auto

lemma ptf_off_gp:
  "r \<in> {1..31} \<Longrightarrow> PTF_PC \<noteq> gp_off r" "r \<in> {1..31} \<Longrightarrow> PTF_SEPC \<noteq> gp_off r"
  "r \<in> {1..31} \<Longrightarrow> PTF_SSTATUS \<noteq> gp_off r" "r \<in> {1..31} \<Longrightarrow> PTF_STVAL \<noteq> gp_off r"
  "r \<in> {1..31} \<Longrightarrow> PTF_SCAUSE \<noteq> gp_off r" "r \<in> {1..31} \<Longrightarrow> PTF_SATP \<noteq> gp_off r"
  using slot_gp_off[of r 31] slot_gp_off[of r 32] slot_gp_off[of r 33] slot_gp_off[of r 34]
    slot_gp_off[of r 35] slot_gp_off[of r 36]
  by (simp_all add: PTF_PC_def PTF_SEPC_def PTF_SSTATUS_def PTF_STVAL_def PTF_SCAUSE_def PTF_SATP_def)

lemmas ttf_defs = TTF_USER_SP_def TTF_T0_def TTF_KERNEL_SATP_def TTF_IS_LICHEE_RVNANO_def TTF_KERNEL_SP_def

text \<open>The entry up to the first general save: \<open>t0\<close>, \<open>t1\<close> and \<open>sp\<close> are in the process frame.\<close>

definition user_trap_head :: "instr list" where
  "user_trap_head =
     [Csrrw x_sp Sscratch x_sp, Sd x_t0 TTF_T0 x_sp, Csrr x_t0 Sscratch, Sd x_t0 TTF_USER_SP x_sp,
      Csrw Sscratch x_sp, Ld x_t0 TTF_KERNEL_SATP x_sp, Csrw Satp x_t0,
      Ld x_t0 TTF_IS_LICHEE_RVNANO x_sp, Sfence,
      Mv x_t0 x_sp, Ld x_sp TTF_KERNEL_SP x_sp,
      Sd x_t1 (gp_off x_t1) x_sp, Ld x_t1 TTF_USER_SP x_t0, Sd x_t1 (gp_off x_sp) x_sp,
      Ld x_t1 TTF_T0 x_t0, Sd x_t1 (gp_off x_t0) x_sp]"

lemma user_trap_head_spec:
  assumes "tf = csrs s Sscratch" "ptf = dmem s (tf + TTF_KERNEL_SP)" "frames_disjoint tf ptf"
    "s1 = exec user_trap_head s"
  shows "xregs s1 x_sp = ptf" "q \<notin> {x_sp, x_t0, x_t1} \<Longrightarrow> xregs s1 q = xregs s q"
    "csrs s1 = (csrs s)(Sscratch := tf, Satp := dmem s (tf + TTF_KERNEL_SATP))"
    "dmem s1 = (dmem s)(tf + TTF_T0 := xregs s x_t0, tf + TTF_USER_SP := xregs s x_sp,
       ptf + gp_off x_t1 := xregs s x_t1, ptf + gp_off x_sp := xregs s x_sp, ptf + gp_off x_t0 := xregs s x_t0)"
proof -
  note d = frames_disjoint_gp[OF assms(3), of x_t1] frames_disjoint_gp[OF assms(3), of x_sp]
    frames_disjoint_gp[OF assms(3), of x_t0]
  have d': "tf \<noteq> ptf + gp_off x_t1" "tf + 8 \<noteq> ptf + gp_off x_t1" "tf \<noteq> ptf + gp_off x_sp" "tf + 8 \<noteq> ptf + gp_off x_sp"
    using d by (simp_all add: eq_commute)
  have run: "s1 = exec user_trap_head s" by (rule assms(4))
  show "xregs s1 x_sp = ptf" "q \<notin> {x_sp, x_t0, x_t1} \<Longrightarrow> xregs s1 q = xregs s q"
    "csrs s1 = (csrs s)(Sscratch := tf, Satp := dmem s (tf + TTF_KERNEL_SATP))"
    "dmem s1 = (dmem s)(tf + TTF_T0 := xregs s x_t0, tf + TTF_USER_SP := xregs s x_sp,
       ptf + gp_off x_t1 := xregs s x_t1, ptf + gp_off x_sp := xregs s x_sp, ptf + gp_off x_t0 := xregs s x_t0)"
    unfolding run user_trap_head_def using d' assms(1,2)
    by (auto simp: set_reg_def set_csr_def ttf_defs)
qed

lemma exec_flush: "exec (Beqz r 2 # Cache_Op # Cache_Op # js) s = exec js s"
  by (simp add: numeral_2_eq_2)

lemma user_trap_save_split:
  "exec user_trap_save s =
     exec [Csrr x_t0 Sepc, Sd x_t0 PTF_SEPC x_sp, Csrr x_t0 Scause, Sd x_t0 PTF_SCAUSE x_sp,
           Csrr x_t0 Stval, Sd x_t0 PTF_STVAL x_sp, Csrr x_t0 Sstatus, Sd x_t0 PTF_SSTATUS x_sp,
           Mv x_a0 x_sp]
       (exec (save_gp ptf_save_regs) (exec user_trap_head s))"
proof -
  let ?A = "[Csrrw x_sp Sscratch x_sp, Sd x_t0 TTF_T0 x_sp, Csrr x_t0 Sscratch, Sd x_t0 TTF_USER_SP x_sp,
      Csrw Sscratch x_sp, Ld x_t0 TTF_KERNEL_SATP x_sp, Csrw Satp x_t0, Ld x_t0 TTF_IS_LICHEE_RVNANO x_sp]"
  let ?B = "[Sfence, Mv x_t0 x_sp, Ld x_sp TTF_KERNEL_SP x_sp,
      Sd x_t1 (gp_off x_t1) x_sp, Ld x_t1 TTF_USER_SP x_t0, Sd x_t1 (gp_off x_sp) x_sp,
      Ld x_t1 TTF_T0 x_t0, Sd x_t1 (gp_off x_t0) x_sp]"
  let ?T = "[Csrr x_t0 Sepc, Sd x_t0 PTF_SEPC x_sp, Csrr x_t0 Scause, Sd x_t0 PTF_SCAUSE x_sp,
           Csrr x_t0 Stval, Sd x_t0 PTF_STVAL x_sp, Csrr x_t0 Sstatus, Sd x_t0 PTF_SSTATUS x_sp,
           Mv x_a0 x_sp]"
  have nb: "\<forall>i \<in> set ?A. \<not> (\<exists>r n. i = Beqz r n)" "\<forall>i \<in> set ?B. \<not> (\<exists>r n. i = Beqz r n)" by auto
  have u: "user_trap_save = ?A @ (Beqz x_t0 2 # Cache_Op # Cache_Op # (?B @ (save_gp ptf_save_regs @ ?T)))"
    by (simp only: user_trap_save_def append.simps append_assoc)
  have h: "user_trap_head = ?A @ ?B" by (simp only: user_trap_head_def append.simps)
  show ?thesis
    unfolding u h exec_append[OF nb(1)] exec_flush exec_append[OF nb(2)] exec_append[OF save_gp_no_branch] ..
qed

lemma user_trap_save_frame:
  assumes tf: "tf = csrs s Sscratch" and ptf: "ptf = dmem s (tf + TTF_KERNEL_SP)"
    and dis: "frames_disjoint tf ptf" and s1: "s1 = exec user_trap_save s"
  shows "xregs s1 x_a0 = ptf" "csrs s1 Sscratch = tf" "csrs s1 Satp = dmem s (tf + TTF_KERNEL_SATP)"
    and "r \<in> {1..31} \<Longrightarrow> dmem s1 (ptf + gp_off r) = xregs s r"
    and "dmem s1 (ptf + PTF_SEPC) = csrs s Sepc" "dmem s1 (ptf + PTF_SCAUSE) = csrs s Scause"
    "dmem s1 (ptf + PTF_STVAL) = csrs s Stval" "dmem s1 (ptf + PTF_SSTATUS) = csrs s Sstatus"
    and "dmem s1 (tf + TTF_USER_SP) = xregs s x_sp" "dmem s1 (tf + TTF_T0) = xregs s x_t0"
proof -
  define h where "h = exec user_trap_head s"
  define g where "g = exec (save_gp ptf_save_regs) h"
  note hd = user_trap_head_spec[OF tf ptf dis h_def]
  note sg = exec_save_gp[OF ptf_regs_props(1,2), where s = h, folded g_def, unfolded hd(1)]
  have spg: "xregs g x_sp = ptf" "csrs g = (csrs s)(Sscratch := tf, Satp := dmem s (tf + TTF_KERNEL_SATP))"
    using sg(1,2) hd(1,3) by simp_all
  have m: "dmem s1 = (dmem g)(ptf + PTF_SEPC := csrs s Sepc, ptf + PTF_SCAUSE := csrs s Scause,
      ptf + PTF_STVAL := csrs s Stval, ptf + PTF_SSTATUS := csrs s Sstatus)"
    and c: "csrs s1 = csrs g" and a0: "xregs s1 x_a0 = ptf"
    unfolding s1 user_trap_save_split h_def[symmetric] g_def[symmetric] using spg
    by (simp_all add: set_reg_def set_csr_def)
  show "xregs s1 x_a0 = ptf" by (rule a0)
  show "csrs s1 Sscratch = tf" "csrs s1 Satp = dmem s (tf + TTF_KERNEL_SATP)" using c spg by simp_all
  show "dmem s1 (ptf + PTF_SEPC) = csrs s Sepc" "dmem s1 (ptf + PTF_SCAUSE) = csrs s Scause"
    "dmem s1 (ptf + PTF_STVAL) = csrs s Stval" "dmem s1 (ptf + PTF_SSTATUS) = csrs s Sstatus"
    unfolding m by (simp_all add: PTF_SEPC_def PTF_SCAUSE_def PTF_STVAL_def PTF_SSTATUS_def)
  show "dmem s1 (ptf + gp_off r) = xregs s r" if r: "r \<in> {1..31}"
  proof -
    have "dmem s1 (ptf + gp_off r) = dmem g (ptf + gp_off r)"
      unfolding m using ptf_off_gp[OF r] by (simp add: eq_commute)
    also have "\<dots> = xregs s r"
    proof (cases "r \<in> {x_sp, x_t0, x_t1}")
      case True
      then have "\<forall>q \<in> set ptf_save_regs. ptf + gp_off r \<noteq> ptf + gp_off q"
        using gp_off_inj[of r] ptf_regs_props(1,3) r by auto
      then have "dmem g (ptf + gp_off r) = dmem h (ptf + gp_off r)" by (rule sg(4))
      moreover have "dmem h (ptf + gp_off r) = xregs s r" unfolding hd(4) using True gp_off_vals by auto
      ultimately show ?thesis by simp
    next
      case False
      then have "r \<in> set ptf_save_regs" using r ptf_regs_props(3) by simp
      then show ?thesis using sg(3)[where r = r] hd(2)[OF False] by simp
    qed
    finally show ?thesis .
  qed
  have t: "dmem s1 (tf + o') = dmem h (tf + o')" if "o' = 0 \<or> o' = 8" for o' :: u64
  proof -
    have ne: "tf + o' \<noteq> ptf + word_of_nat (8 * k)" if "k < 37" for k
      using frames_disjointD(1)[OF dis, of 0 k] frames_disjointD(1)[OF dis, of 1 k] that \<open>o' = 0 \<or> o' = 8\<close>
      by auto
    have "\<forall>q \<in> set ptf_save_regs. tf + o' \<noteq> ptf + gp_off q"
    proof
      fix q assume "q \<in> set ptf_save_regs"
      then have "q - 1 < 37" using ptf_regs_props(1) by auto
      then show "tf + o' \<noteq> ptf + gp_off q" unfolding gp_off_def by (rule ne)
    qed
    then have "dmem g (tf + o') = dmem h (tf + o')" by (rule sg(4))
    then show ?thesis unfolding m using ne[of 32] ne[of 33] ne[of 34] ne[of 35]
      by (simp add: PTF_SEPC_def PTF_SCAUSE_def PTF_STVAL_def PTF_SSTATUS_def)
  qed
  have dt: "tf \<noteq> ptf + gp_off x_t0" "tf \<noteq> ptf + gp_off x_t1" "tf \<noteq> ptf + gp_off x_sp"
    "tf + 8 \<noteq> ptf + gp_off x_t0" "tf + 8 \<noteq> ptf + gp_off x_t1" "tf + 8 \<noteq> ptf + gp_off x_sp"
    using frames_disjoint_gp(1,2)[OF dis, of x_t0] frames_disjoint_gp(1,2)[OF dis, of x_t1]
      frames_disjoint_gp(1,2)[OF dis, of x_sp] by (simp_all add: eq_commute)
  show "dmem s1 (tf + TTF_USER_SP) = xregs s x_sp"
    using t[of 0] hd(4) dt(1-3) by (simp add: TTF_USER_SP_def TTF_T0_def)
  show "dmem s1 (tf + TTF_T0) = xregs s x_t0"
    using t[of 8] hd(4) dt(4-6) by (simp add: TTF_USER_SP_def TTF_T0_def)
qed

lemma user_trap_restore_frame:
  assumes "xregs s x_a0 = ptf" "csrs s Sscratch = tf" "s1 = exec user_trap_restore s"
  shows "r \<in> {1..31} - {x_sp, x_t0} \<Longrightarrow> xregs s1 r = dmem s (ptf + gp_off r)"
    "xregs s1 x_sp = dmem s (tf + TTF_USER_SP)" "xregs s1 x_t0 = dmem s (tf + TTF_T0)"
    "csrs s1 = (csrs s)(Sepc := dmem s (ptf + PTF_PC), Sstatus := dmem s (ptf + PTF_SSTATUS),
       Satp := dmem s (ptf + PTF_SATP))"
    "dmem s1 = dmem s"
proof -
  let ?B = "[Ld x_t0 PTF_PC x_sp, Csrw Sepc x_t0, Ld x_t0 PTF_SSTATUS x_sp, Csrw Sstatus x_t0,
      Ld x_t0 PTF_SATP x_sp, Csrw Satp x_t0, Csrr x_sp Sscratch, Ld x_t0 TTF_IS_LICHEE_RVNANO x_sp]"
  let ?T = "[Sfence, Ld x_t0 TTF_T0 x_sp, Ld x_sp TTF_USER_SP x_sp]"
  define h where "h = exec [Mv x_sp x_a0] s"
  define g where "g = exec (load_gp ptf_load_regs) h"
  have nb: "\<forall>i \<in> set ?B. \<not> (\<exists>r n. i = Beqz r n)" "\<forall>i \<in> set [Mv x_sp x_a0]. \<not> (\<exists>r n. i = Beqz r n)" by auto
  have u: "user_trap_restore = [Mv x_sp x_a0] @ (load_gp ptf_load_regs @ (?B @ (Beqz x_t0 2 # Cache_Op # Cache_Op # ?T)))"
    by (simp only: user_trap_restore_def append.simps)
  have run: "s1 = exec ?T (exec ?B g)"
    unfolding assms(3) g_def h_def u exec_append[OF nb(2)] exec_append[OF load_gp_no_branch]
      exec_append[OF nb(1)] exec_flush ..
  have h: "xregs h x_sp = ptf" "dmem h = dmem s" "csrs h = csrs s"
    using assms(1) by (simp_all add: h_def set_reg_def)
  note lg = exec_load_gp[OF ptf_regs_props(4), where s = h, folded g_def, unfolded h]
  have gsp: "xregs g x_sp = ptf" using lg(3)[where r = x_sp] h ptf_regs_props(4) by simp
  show "xregs s1 r = dmem s (ptf + gp_off r)" if "r \<in> {1..31} - {x_sp, x_t0}"
    unfolding run using that lg(3)[where r = r] ptf_regs_props(5) by (simp add: set_reg_def set_csr_def)
  show "xregs s1 x_sp = dmem s (tf + TTF_USER_SP)" "xregs s1 x_t0 = dmem s (tf + TTF_T0)"
    unfolding run using gsp lg(1,2) assms(2) by (simp_all add: set_reg_def set_csr_def)
  show "csrs s1 = (csrs s)(Sepc := dmem s (ptf + PTF_PC), Sstatus := dmem s (ptf + PTF_SSTATUS),
       Satp := dmem s (ptf + PTF_SATP))" "dmem s1 = dmem s"
    unfolding run using gsp lg(1,2) by (simp_all add: set_reg_def set_csr_def)
qed

text \<open>
  C15: The user trap entry saves the whole user state: all 31 registers, \<open>sepc\<close>, \<open>scause\<close>, \<open>stval\<close> and
  \<open>sstatus\<close> are in the process trap frame that the handler gets, and the kernel's address space is
  active. If the handler returns the same frame, changes only the saved registers in \<open>W\<close> and
  leaves the trampoline trap frame alone, the exit gives the process the new values of the
  registers in \<open>W\<close> and the old ones of the others, and resumes at the frame's \<open>pc\<close> under the frame's
  \<open>satp\<close> and \<open>sstatus\<close>. The registers \<open>sp\<close> and \<open>t0\<close> come from the trampoline frame: a change of their
  slots in the process frame has no effect.
\<close>

theorem user_trap_roundtrip:
  assumes "tf = csrs s Sscratch" "ptf = dmem s (tf + TTF_KERNEL_SP)" "frames_disjoint tf ptf"
    and "s1 = exec user_trap_save s"
    and "xregs s2 x_a0 = ptf" "csrs s2 Sscratch = tf"
    and "\<forall>r \<in> {1..31} - W. dmem s2 (ptf + gp_off r) = dmem s1 (ptf + gp_off r)"
    and "\<forall>i < 5. dmem s2 (tf + word_of_nat (8 * i)) = dmem s1 (tf + word_of_nat (8 * i))"
    and "s3 = exec user_trap_restore s2"
  shows "(\<forall>r \<in> {1..31}. dmem s1 (ptf + gp_off r) = xregs s r) \<and>
    dmem s1 (ptf + PTF_SEPC) = csrs s Sepc \<and> dmem s1 (ptf + PTF_SCAUSE) = csrs s Scause \<and>
    dmem s1 (ptf + PTF_STVAL) = csrs s Stval \<and> dmem s1 (ptf + PTF_SSTATUS) = csrs s Sstatus \<and>
    xregs s1 x_a0 = ptf \<and> csrs s1 Satp = dmem s (tf + TTF_KERNEL_SATP) \<and>
    (\<forall>r \<in> {1..31}. xregs s3 r =
       (if r \<in> W \<and> r \<noteq> x_sp \<and> r \<noteq> x_t0 then dmem s2 (ptf + gp_off r) else xregs s r)) \<and>
    csrs s3 Sepc = dmem s2 (ptf + PTF_PC) \<and> csrs s3 Satp = dmem s2 (ptf + PTF_SATP) \<and>
    csrs s3 Sstatus = dmem s2 (ptf + PTF_SSTATUS) \<and> csrs s3 Sscratch = tf"
proof -
  note sv = user_trap_save_frame[OF assms(1-4)]
  note rs = user_trap_restore_frame[OF assms(5,6,9)]
  have t: "dmem s2 (tf + TTF_USER_SP) = xregs s x_sp" "dmem s2 (tf + TTF_T0) = xregs s x_t0"
    using assms(8)[rule_format, of 0] assms(8)[rule_format, of 1] sv(9,10)
    by (simp_all add: TTF_USER_SP_def TTF_T0_def)
  have "xregs s3 r = (if r \<in> W \<and> r \<noteq> x_sp \<and> r \<noteq> x_t0 then dmem s2 (ptf + gp_off r) else xregs s r)"
    if r: "r \<in> {1..31}" for r
  proof (cases "r = x_sp \<or> r = x_t0")
    case True
    then show ?thesis using rs(2,3) t by auto
  next
    case False
    then have r': "r \<in> {1..31} - {x_sp, x_t0}" using r by simp
    then show ?thesis using rs(1)[OF r'] assms(7) sv(4)[OF r] r by auto
  qed
  then show ?thesis using rs(4) assms(6) sv by simp
qed

lemma demo_disjoint: "frames_disjoint 0x80002000 0x80003000"
proof -
  have "(0x80002000 :: u64) + word_of_nat (8 * i) \<noteq> 0x80003000 + word_of_nat (8 * k)" if "i < 5" "k < 37" for i k
  proof -
    have "unat ((0x80002000 :: u64) + word_of_nat (8 * i)) = 0x80002000 + 8 * i"
      using that unat_slot[of i] by (subst unat_add_lem[THEN iffD1]) simp_all
    moreover have "unat ((0x80003000 :: u64) + word_of_nat (8 * k)) = 0x80003000 + 8 * k"
      using that unat_slot[of k] by (subst unat_add_lem[THEN iffD1]) simp_all
    ultimately show ?thesis using that by auto
  qed
  then show ?thesis unfolding frames_disjoint_def by blast
qed

theorem user_trap_roundtrip_witness:
  "xregs (exec user_trap_restore (exec user_trap_save demo_asm)) x_t1 = 6 \<and>
   xregs (exec user_trap_restore (exec user_trap_save demo_asm)) x_sp = 2"
proof -
  let ?s1 = "exec user_trap_save demo_asm"
  have d: "csrs demo_asm Sscratch = 0x80002000" "dmem demo_asm (0x80002000 + TTF_KERNEL_SP) = 0x80003000"
    by (simp_all add: demo_asm_def TTF_KERNEL_SP_def)
  note f = user_trap_save_frame(1,2)[OF d(1)[symmetric] d(2)[symmetric] demo_disjoint refl]
  have "xregs (exec user_trap_restore ?s1) r = word_of_nat r" if "r \<in> {1..31}" for r
    using user_trap_roundtrip[OF d(1)[symmetric] d(2)[symmetric] demo_disjoint refl f _ _ refl, of "{}"] that
    by (simp add: demo_asm_def)
  from this[of x_t1] this[of x_sp] show ?thesis by simp
qed

section \<open>Context switch\<close>

lemma upt_2_14: "[2..<14] = [2,3,4,5,6,7,8,9,10,11,12,13::nat]" "[0..<14] = [0,1,2,3,4,5,6,7,8,9,10,11,12,13::nat]"
  by (simp_all add: upt_rec)

lemma save_context_asm_mem:
  assumes "ctx = dmem s cur + off"
  shows "dmem (exec (save_context_asm cur off) s) = (dmem s)(ctx := xregs s 2, ctx + 8 := xregs s x_t1,
    ctx + 16 := xregs s 8, ctx + 24 := xregs s 9, ctx + 32 := xregs s 18, ctx + 40 := xregs s 19,
    ctx + 48 := xregs s 20, ctx + 56 := xregs s 21, ctx + 64 := xregs s 22, ctx + 72 := xregs s 23,
    ctx + 80 := xregs s 24, ctx + 88 := xregs s 25, ctx + 96 := xregs s 26, ctx + 104 := xregs s 27)"
  unfolding save_context_asm_def upt_2_14 tc_regs_def tc_off_def
  by (simp add: assms set_reg_def eval_nat_numeral)

lemma exec_loads:
  assumes "x_a0 \<notin> fst ` set ps" "distinct (map fst ps)"
  shows "(\<forall>(r, o') \<in> set ps. xregs (exec (map (\<lambda>(r, o'). Ld r o' x_a0) ps) s) r = dmem s (xregs s x_a0 + o')) \<and>
    (\<forall>r. r \<notin> fst ` set ps \<longrightarrow> xregs (exec (map (\<lambda>(r, o'). Ld r o' x_a0) ps) s) r = xregs s r)"
  using assms
proof (induction ps arbitrary: s)
  case (Cons p ps)
  obtain q b where p: "p = (q, b)" by (cases p)
  let ?s1 = "set_reg s q (dmem s (xregs s x_a0 + b))"
  have run: "exec (map (\<lambda>(r, o'). Ld r o' x_a0) (p # ps)) s = exec (map (\<lambda>(r, o'). Ld r o' x_a0) ps) ?s1"
    by (simp add: p)
  have a0: "xregs ?s1 x_a0 = xregs s x_a0" "dmem ?s1 = dmem s" "xregs ?s1 q = dmem s (xregs s x_a0 + b)"
    "\<And>r. r \<noteq> q \<Longrightarrow> xregs ?s1 r = xregs s r"
    using Cons.prems p by (auto simp: set_reg_def)
  have nin: "q \<notin> fst ` set ps" using Cons.prems(2) p by (auto simp: image_iff)
  have IH: "(\<forall>(r, o') \<in> set ps. xregs (exec (map (\<lambda>(r, o'). Ld r o' x_a0) ps) ?s1) r = dmem s (xregs s x_a0 + o')) \<and>
    (\<forall>r. r \<notin> fst ` set ps \<longrightarrow> xregs (exec (map (\<lambda>(r, o'). Ld r o' x_a0) ps) ?s1) r = xregs ?s1 r)"
    using Cons.IH[of ?s1] Cons.prems unfolding a0(1,2) by simp
  show ?case unfolding run using IH nin a0(3,4) p by auto
qed simp

lemma restore_context_asm_regs:
  assumes "k < 14"
  shows "xregs (exec restore_context_asm s) (tc_regs ! k) = dmem s (xregs s x_a0 + tc_off k)"
proof -
  define ps where "ps = map (\<lambda>k. (tc_regs ! k, tc_off k)) [0..<14]"
  have run: "restore_context_asm = map (\<lambda>(r, o'). Ld r o' x_a0) ps"
    by (simp add: restore_context_asm_def ps_def)
  have "map fst ps = tc_regs" unfolding ps_def upt_2_14 by (simp add: tc_regs_def eval_nat_numeral)
  then have "x_a0 \<notin> fst ` set ps" "distinct (map fst ps)"
    by (simp_all add: tc_regs_def flip: set_map)
  from exec_loads[OF this, of s]
  have "\<forall>(r, o') \<in> set ps. xregs (exec restore_context_asm s) r = dmem s (xregs s x_a0 + o')"
    unfolding run by (rule conjunct1)
  moreover have "(tc_regs ! k, tc_off k) \<in> set ps" using assms by (auto simp: ps_def)
  ultimately show ?thesis by (auto dest: bspec)
qed

text \<open>
  C16: Restoring the context that \<open>save_context_with_ra_in_t1\<close> saved gives back \<open>sp\<close> and \<open>s0\<close> to
  \<open>s11\<close>, and \<open>ra\<close> is the return address that was in \<open>t1\<close>, so a thread switched out resumes
  after its call with the stack and the callee-saved registers it had. The save writes nothing
  outside the context.
\<close>

theorem context_asm_roundtrip:
  assumes "s1 = exec (save_context_asm cur off) s" "ctx = dmem s cur + off"
    and "xregs s2 x_a0 = ctx" "\<forall>k < 14. dmem s2 (ctx + tc_off k) = dmem s1 (ctx + tc_off k)"
    and "s3 = exec restore_context_asm s2"
  shows "(\<forall>r \<in> set tc_regs - {x_ra}. xregs s3 r = xregs s r) \<and> xregs s3 x_ra = xregs s x_t1 \<and>
    (\<forall>a. (\<forall>k < 14. a \<noteq> ctx + tc_off k) \<longrightarrow> dmem s1 a = dmem s a)"
proof (intro conjI allI impI)
  note m = save_context_asm_mem[OF assms(2), folded assms(1)]
  have r: "xregs s3 (tc_regs ! k) = dmem s1 (ctx + tc_off k)" if "k < 14" for k
    using restore_context_asm_regs[OF that, of s2] assms(3-5) that by simp
  have "\<forall>k \<in> set [0..<14]. dmem s1 (ctx + tc_off k) = xregs s (if k = 1 then x_t1 else tc_regs ! k)"
    unfolding upt_2_14 m by (simp add: tc_regs_def tc_off_def)
  then have "xregs s3 (tc_regs ! k) = xregs s (if k = 1 then x_t1 else tc_regs ! k)" if "k < 14" for k
    using r[OF that] that by simp
  note all = this
  show "xregs s3 x_ra = xregs s x_t1" using all[of 1] by (simp add: tc_regs_def)
  show "\<forall>r \<in> set tc_regs - {x_ra}. xregs s3 r = xregs s r"
  proof
    fix r assume "r \<in> set tc_regs - {x_ra}"
    then have "r \<in> set tc_regs" "r \<noteq> x_ra" by simp_all
    moreover obtain k where "k < length tc_regs" "r = tc_regs ! k"
      using \<open>r \<in> set tc_regs\<close> unfolding in_set_conv_nth by blast
    moreover have "length tc_regs = 14" "tc_regs ! 1 = x_ra" by (simp_all add: tc_regs_def)
    ultimately show "xregs s3 r = xregs s r" using all[of k] by (cases "k = 1") simp_all
  qed
  show "dmem s1 a = dmem s a" if a: "\<forall>k < 14. a \<noteq> ctx + tc_off k" for a
  proof -
    have n: "a \<noteq> ctx + tc_off k" if "k < 14" for k using a that by blast
    show ?thesis unfolding m
      using n[of 0] n[of 1] n[of 2] n[of 3] n[of 4] n[of 5] n[of 6] n[of 7] n[of 8] n[of 9] n[of 10]
        n[of 11] n[of 12] n[of 13]
      by (simp add: tc_off_def)
  qed
qed

theorem context_asm_roundtrip_witness:
  "xregs (exec restore_context_asm (set_reg (exec (save_context_asm 0x80002020 64) demo_asm) x_a0 0x80003040)) x_sp = 2"
proof -
  have c: "(0x80003040 :: u64) = dmem demo_asm 0x80002020 + 64" by (simp add: demo_asm_def)
  show ?thesis
    using context_asm_roundtrip[OF refl c, where ?s2.0 = "set_reg (exec (save_context_asm 0x80002020 64) demo_asm) x_a0 0x80003040", OF _ _ refl]
    by (simp add: set_reg_def tc_regs_def, simp add: demo_asm_def)
qed

section \<open>Entering a process\<close>



section \<open>The generated offsets\<close>


end
