(* ===== verification/Trap_Handlers.thy ===== *)
theory Trap_Handlers
  imports Page_Table
begin

text \<open>
  The Rust side of the traps: the trap causes of \<open>src/src/riscv.rs\<close>, the saved registers of
  \<open>src/types/src/lib.rs\<close>, the kernel trap handler of \<open>src/src/kernel_trap.rs\<close>, the user trap handler of
  \<open>src/src/trap.rs\<close> and the emulation of atomic memory operations of \<open>src/src/amo.rs\<close>. The interrupt
  dispatcher and the system calls are arguments of the handlers; the kernel's own state is the
  type variable.
\<close>

unbundle bit_operations_syntax

section \<open>Trap causes\<close>

definition SCAUSE_INTERRUPT_BIT :: u64 where "SCAUSE_INTERRUPT_BIT = push_bit 63 1"
definition CODE_EXTERNAL :: u64 where "CODE_EXTERNAL = 9"
definition STORE_ACCESS_FAULT :: u64 where "STORE_ACCESS_FAULT = 7"
definition ECALL_FROM_U :: u64 where "ECALL_FROM_U = 8"
definition LOAD_PAGE_FAULT :: u64 where "LOAD_PAGE_FAULT = 13"
definition STORE_PAGE_FAULT :: u64 where "STORE_PAGE_FAULT = 15"
definition INSTR_WFI :: u32 where "INSTR_WFI = 0x10500073"

definition is_interrupt :: "u64 \<Rightarrow> bool" where
  "is_interrupt scause \<longleftrightarrow> scause AND SCAUSE_INTERRUPT_BIT \<noteq> 0"

definition is_exception :: "u64 \<Rightarrow> bool" where
  "is_exception scause \<longleftrightarrow> scause AND SCAUSE_INTERRUPT_BIT = 0"

definition interrupt_code :: "u64 \<Rightarrow> u64" where
  "interrupt_code scause = scause AND NOT SCAUSE_INTERRUPT_BIT"

section \<open>Saved registers\<close>

type_synonym gp_registers = "u64 list"  \<comment> \<open>\<open>x1\<close> to \<open>x31\<close>\<close>

definition gpr_get :: "gp_registers \<Rightarrow> usize \<Rightarrow> u64 option" where
  "gpr_get regs index =
     (if index = 0 then Some 0 else if index \<le> 31 then Some (regs ! (index - 1)) else None)"

text \<open>\<open>get_mut\<close> followed by the write through the reference.\<close>

definition gpr_set :: "gp_registers \<Rightarrow> usize \<Rightarrow> u64 \<Rightarrow> gp_registers option" where
  "gpr_set regs index v =
     (if index = 0 then None else if index \<le> 31 then Some (regs[index - 1 := v]) else None)"

record process_trap_frame =
  tf_registers :: gp_registers
  tf_pc :: usize
  tf_sepc :: usize
  tf_sstatus :: u64
  tf_stval :: u64
  tf_scause :: u64
  tf_satp :: u64

section \<open>Kernel traps\<close>

text \<open>
  \<open>kernel_trap_handler\<close>: the new kernel state and the \<open>sepc\<close> slot of the frame.
\<close>

definition read_instr :: "mem \<Rightarrow> usize \<Rightarrow> u32 option" where
  "read_instr m sepc =
     (if sepc mod 4 = 0 then Some (word_of_nat (load 4 m sepc))
      else do {
        let low = (word_of_nat (load 2 m sepc) :: u32);
        h \<leftarrow> uadd sepc 2;
        let high = (word_of_nat (load 2 m h) :: u32);
        Some (low OR push_bit 16 high)
      })"

definition kernel_trap_handler ::
  "('k \<Rightarrow> 'k option) \<Rightarrow> mem \<Rightarrow> 'k \<Rightarrow> u64 \<Rightarrow> usize \<Rightarrow> usize \<Rightarrow> ('k \<times> usize) option" where
  "kernel_trap_handler dispatch_irq m k scause sepc frame_sepc =
     (if is_interrupt scause then
        if interrupt_code scause = CODE_EXTERNAL then do {
          k' \<leftarrow> dispatch_irq k;
          if sepc mod 2 = 0 then do {
            instr \<leftarrow> read_instr m sepc;
            if instr = INSTR_WFI then do { s \<leftarrow> uadd sepc 4; Some (k', s) } else Some (k', frame_sepc)
          } else Some (k', frame_sepc)
        } else None
      else None)"

section \<open>Atomic memory operations\<close>

definition handle_amo_fault :: "mem \<Rightarrow> usize \<Rightarrow> process_trap_frame \<Rightarrow> (mem \<times> process_trap_frame) option" where
  "handle_amo_fault m root tf = do {
     phys_sepc \<leftarrow> virt_to_phys m root (tf_sepc tf);
     let inst = (word_of_nat (load 4 m phys_sepc) :: u32);
     let opcode = inst AND 0x7f;
     let funct3 = drop_bit 12 inst AND 0x7;
     let funct5 = drop_bit 27 inst AND 0x1f;
     let rd = drop_bit 7 inst AND 0x1f;
     let rs1 = drop_bit 15 inst AND 0x1f;
     let rs2 = drop_bit 20 inst AND 0x1f;
     guard_assert (opcode = 0x2f);
     virt_addr \<leftarrow> gpr_get (tf_registers tf) (unat rs1);
     phys_addr \<leftarrow> virt_to_phys m root (unat virt_addr);
     (m', regs) \<leftarrow>
       (if funct5 = 0x1 \<and> funct3 = 0x2 then do {
          v \<leftarrow> gpr_get (tf_registers tf) (unat rs2);
          let val = (ucast v :: u32);
          let prev = (word_of_nat (load 4 m phys_addr) :: u32);
          regs \<leftarrow> gpr_set (tf_registers tf) (unat rd) (ucast prev);
          Some (store 4 m phys_addr (unat val), regs)
        }
        else if funct5 = 0x0 \<and> funct3 = 0x2 then do {
          v \<leftarrow> gpr_get (tf_registers tf) (unat rs2);
          let addend = (ucast v :: u32);
          let prev = (word_of_nat (load 4 m phys_addr) :: u32);
          let result = prev + addend;
          regs \<leftarrow> gpr_set (tf_registers tf) (unat rd) (ucast prev);
          Some (store 4 m phys_addr (unat result), regs)
        }
        else if funct5 = 0x0 \<and> funct3 = 0x3 then do {
          addend \<leftarrow> gpr_get (tf_registers tf) (unat rs2);
          let prev = (word_of_nat (load 8 m phys_addr) :: u64);
          let result = prev + addend;
          regs \<leftarrow> gpr_set (tf_registers tf) (unat rd) prev;
          Some (store 8 m phys_addr (unat result), regs)
        }
        else None);
     pc \<leftarrow> uadd (tf_sepc tf) 4;
     Some (m', tf\<lparr>tf_registers := regs, tf_pc := pc\<rparr>)
   }"

section \<open>User traps\<close>

definition trap_handler ::
  "('k \<Rightarrow> 'k option) \<Rightarrow> (mem \<times> 'k \<Rightarrow> process_trap_frame \<Rightarrow> ((mem \<times> 'k) \<times> process_trap_frame) option) \<Rightarrow>
   usize \<Rightarrow> mem \<times> 'k \<Rightarrow> process_trap_frame \<Rightarrow> ((mem \<times> 'k) \<times> process_trap_frame) option" where
  "trap_handler dispatch_irq syscall_handle root st tf =
     (if is_interrupt (tf_scause tf) then
        (let tf1 = tf\<lparr>tf_pc := tf_sepc tf\<rparr> in
         if interrupt_code (tf_scause tf) = CODE_EXTERNAL
         then do { k \<leftarrow> dispatch_irq (snd st); Some ((fst st, k), tf1) }
         else None)
      else if tf_scause tf = STORE_ACCESS_FAULT then do {
        (m, tf1) \<leftarrow> handle_amo_fault (fst st) root tf;
        Some ((m, snd st), tf1)
      }
      else if tf_scause tf = LOAD_PAGE_FAULT \<or> tf_scause tf = STORE_PAGE_FAULT then None
      else if tf_scause tf = ECALL_FROM_U then syscall_handle st tf
      else None)"

section \<open>Emulation against the instruction set\<close>

text \<open>
  The operand width and the update of the three emulated instructions, in ordinary arithmetic.
\<close>

definition amo_spec :: "nat \<Rightarrow> nat \<Rightarrow> (nat \<times> (nat \<Rightarrow> nat \<Rightarrow> nat)) option" where
  "amo_spec funct5 funct3 =
     (if funct5 = 1 \<and> funct3 = 2 then Some (4, \<lambda>old v. v mod 2 ^ 32)
      else if funct5 = 0 \<and> funct3 = 2 then Some (4, \<lambda>old v. (old + v) mod 2 ^ 32)
      else if funct5 = 0 \<and> funct3 = 3 then Some (8, \<lambda>old v. (old + v) mod 2 ^ 64)
      else None)"

text \<open>An R-type instruction word from its fields.\<close>

definition amo_inst :: "nat \<Rightarrow> nat \<Rightarrow> nat \<Rightarrow> nat \<Rightarrow> nat \<Rightarrow> nat \<Rightarrow> nat" where
  "amo_inst funct5 aqrl rs2 rs1 funct3 rd =
     ((((funct5 * 4 + aqrl) * 32 + rs2) * 32 + rs1) * 8 + funct3) * 4096 + rd * 128 + 0x2f"

lemma unat_and_fields:
  "unat (x AND 0x7f :: u32) = unat x mod 128" "unat (x AND 0x1f :: u32) = unat x mod 32"
  "unat (x AND 0x7 :: u32) = unat x mod 8"
  using and_mask_mod[of "unat x" 7] and_mask_mod[of "unat x" 5] and_mask_mod[of "unat x" 3]
  by (simp_all add: unsigned_and_eq)

lemma amo_inst_fields:
  assumes "f5 < 32" "aqrl < 4" "r2 < 32" "r1 < 32" "f3 < 8" "rd < 32"
    and inst: "inst = (word_of_nat (amo_inst f5 aqrl r2 r1 f3 rd) :: u32)"
  shows "inst AND 0x7f = 0x2f" "unat (drop_bit 12 inst AND 0x7) = f3" "unat (drop_bit 27 inst AND 0x1f) = f5"
    "unat (drop_bit 7 inst AND 0x1f) = rd" "unat (drop_bit 15 inst AND 0x1f) = r1"
    "unat (drop_bit 20 inst AND 0x1f) = r2"
proof -
  define N where "N = amo_inst f5 aqrl r2 r1 f3 rd"
  define D where "D = (f5 * 4 + aqrl)"
  define C where "C = D * 32 + r2"
  define B where "B = C * 32 + r1"
  define A where "A = B * 8 + f3"
  define E where "E = A * 32 + rd"
  have N: "N = E * 128 + 0x2f" by (simp add: N_def amo_inst_def A_def B_def C_def D_def E_def)
  have D: "D div 4 = f5" "D < 128" using assms by (auto simp: D_def)
  have C: "C div 32 = D" "C mod 32 = r2" "C < 4096" using assms D by (auto simp: C_def)
  have B: "B div 32 = C" "B mod 32 = r1" "B < 131072" using assms C by (auto simp: B_def)
  have A: "A div 8 = B" "A mod 8 = f3" "A < 1048576" using assms B by (auto simp: A_def)
  have E: "E div 32 = A" "E mod 32 = rd" "E < 33554432" using assms A by (auto simp: E_def)
  have Nq: "N div 128 = E" "N mod 128 = 0x2f" "N < 2 ^ 32" using E N by auto
  have u: "unat inst = N" using Nq(3) by (simp add: inst flip: N_def) (simp add: unat_of_nat)
  have sh: "N div 2 ^ 12 = A" "N div 2 ^ 15 = B" "N div 2 ^ 20 = C" "N div 2 ^ 27 = f5" "N div 2 ^ 7 = E"
  proof -
    show a: "N div 2 ^ 12 = A" using div_mult2_eq[of N 128 32] Nq E by simp
    show b: "N div 2 ^ 15 = B" using div_mult2_eq[of N "2 ^ 12" 8] a A by simp
    show c: "N div 2 ^ 20 = C" using div_mult2_eq[of N "2 ^ 15" 32] b B by simp
    show "N div 2 ^ 27 = f5" using div_mult2_eq[of N "2 ^ 20" 128] div_mult2_eq[of C 32 4] c C D by simp
    show "N div 2 ^ 7 = E" using Nq by simp
  qed
  have db: "unat (drop_bit k x) = unat x div 2 ^ k" for k and x :: u32
    unfolding unat_drop_bit_eq by (rule drop_bit_eq_div)
  show "inst AND 0x7f = 0x2f"
    using unat_and_fields(1)[of inst] u Nq(2) by (simp add: word_unat_eq_iff)
  show "unat (drop_bit 12 inst AND 0x7) = f3" "unat (drop_bit 27 inst AND 0x1f) = f5"
    "unat (drop_bit 7 inst AND 0x1f) = rd" "unat (drop_bit 15 inst AND 0x1f) = r1"
    "unat (drop_bit 20 inst AND 0x1f) = r2"
    using assms(1-6) A(2) B(2) C(2) E(2) by (simp_all only: unat_and_fields db u sh mod_less)
qed

lemma gpr_get_in: "0 < i \<Longrightarrow> i \<le> 31 \<Longrightarrow> gpr_get regs i = Some (regs ! (i - 1))"
  by (simp add: gpr_get_def)

text \<open>
  C19: The emulation of a faulting atomic instruction has the effect the instruction set gives it. For
  \<open>amoswap.w\<close>, \<open>amoadd.w\<close> and \<open>amoadd.d\<close> with a destination other than \<open>x0\<close> it writes the new value
  (modulo the operand width) at the translated address and no other byte, puts the old value in
  the destination register, changes no other register and resumes after the instruction. The old
  value of a word is zero-extended.
\<close>

theorem amo_emulation:
  assumes "f5 < 32" "aqrl < 4" "r2 < 32" "r1 < 32" "f3 < 8" "0 < rd" "rd < 32"
    and "virt_to_phys m root (tf_sepc tf) = Some p" "load 4 m p = amo_inst f5 aqrl r2 r1 f3 rd"
    and "amo_spec f5 f3 = Some (w, upd)"
    and "gpr_get (tf_registers tf) r1 = Some va" "virt_to_phys m root (unat va) = Some pa"
    and "gpr_get (tf_registers tf) r2 = Some v" "tf_sepc tf + 4 < usize_bound"
  shows "\<exists>m'. handle_amo_fault m root tf = Some (m', tf\<lparr>
      tf_registers := (tf_registers tf)[rd - 1 := word_of_nat (load w m pa)], tf_pc := tf_sepc tf + 4\<rparr>) \<and>
    load w m' pa = upd (load w m pa) (unat v) \<and> (\<forall>x. x < pa \<or> pa + w \<le> x \<longrightarrow> m' x = m x)"
proof -
  let ?i = "word_of_nat (load 4 m p) :: u32"
  note fld = amo_inst_fields[OF assms(1-5,7), of ?i, unfolded assms(9), OF refl]
  have num: "drop_bit 12 ?i AND 0x7 = word_of_nat f3" "drop_bit 27 ?i AND 0x1f = word_of_nat f5"
    using fld(2,3) assms(1,5,9) by (simp_all add: word_unat_eq_iff unat_of_nat)
  have op: "?i AND 0x7f = 0x2f" "unat (drop_bit 7 ?i AND 0x1f) = rd" "unat (drop_bit 15 ?i AND 0x1f) = r1"
    "unat (drop_bit 20 ?i AND 0x1f) = r2" using fld assms(9) by simp_all
  have l4: "load 4 m pa < 2 ^ 32" and l8: "load 8 m pa < 2 ^ 64" using load_less[of 4 m pa] load_less[of 8 m pa] by simp_all
  have st: "gpr_set (tf_registers tf) rd x = Some ((tf_registers tf)[rd - 1 := x])" for x
    using assms(6,7) by (simp add: gpr_set_def)
  have u4: "unat (ucast v :: u32) = unat v mod 2 ^ 32" by (simp add: unsigned_ucast_eq take_bit_eq_mod)
  have z: "ucast (word_of_nat (load 4 m pa) :: u32) = (word_of_nat (load 4 m pa) :: u64)"
    using l4 by (simp add: word_unat_eq_iff unsigned_ucast_eq unat_of_nat take_bit_eq_mod)
  consider "f5 = 1" "f3 = 2" | "f5 = 0" "f3 = 2" | "f5 = 0" "f3 = 3"
    using assms(10) by (auto simp: amo_spec_def split: if_splits)
  then show ?thesis
  proof cases
    case 1
    then have "w = 4" "upd = (\<lambda>old v. v mod 2 ^ 32)" using assms(10) by (auto simp: amo_spec_def)
    moreover have "handle_amo_fault m root tf = Some (store 4 m pa (unat v mod 2 ^ 32), tf\<lparr>
      tf_registers := (tf_registers tf)[rd - 1 := word_of_nat (load 4 m pa)], tf_pc := tf_sepc tf + 4\<rparr>)"
      using 1 assms(8,11-14) op num st u4 l4 z by (simp add: handle_amo_fault_def Let_def)
    ultimately show ?thesis by (auto simp: load_store_same store_other)
  next
    case 2
    then have "w = 4" "upd = (\<lambda>old v. (old + v) mod 2 ^ 32)" using assms(10) by (auto simp: amo_spec_def)
    moreover have "handle_amo_fault m root tf = Some (store 4 m pa ((load 4 m pa + unat v) mod 2 ^ 32), tf\<lparr>
      tf_registers := (tf_registers tf)[rd - 1 := word_of_nat (load 4 m pa)], tf_pc := tf_sepc tf + 4\<rparr>)"
      using 2 assms(8,11-14) op num st u4 l4 z
      by (simp add: handle_amo_fault_def Let_def unat_word_ariths(1) unat_of_nat mod_simps)
    ultimately show ?thesis by (auto simp: load_store_same store_other)
  next
    case 3
    then have "w = 8" "upd = (\<lambda>old v. (old + v) mod 2 ^ 64)" using assms(10) by (auto simp: amo_spec_def)
    moreover have "handle_amo_fault m root tf = Some (store 8 m pa ((load 8 m pa + unat v) mod 2 ^ 64), tf\<lparr>
      tf_registers := (tf_registers tf)[rd - 1 := word_of_nat (load 8 m pa)], tf_pc := tf_sepc tf + 4\<rparr>)"
      using 3 assms(8,11-14) op num st l8
      by (simp add: handle_amo_fault_def Let_def unat_word_ariths(1) unat_of_nat mod_simps)
    ultimately show ?thesis by (auto simp: load_store_same store_other)
  qed
qed

text \<open>A concrete address space with \<open>amoadd.w a0, a2, (a1)\<close> at \<open>0x1000\<close>.\<close>

definition demo_amo_mem :: mem where
  "demo_amo_mem = store 4 (write_pte (\<lambda>_. 0) 0x80200000 0 (pte_set 0x40000000 (PF_READ OR PF_WRITE)))
     0x40001000 (amo_inst 0 0 12 11 2 10)"

definition demo_amo_frame :: process_trap_frame where
  "demo_amo_frame = \<lparr>tf_registers = (replicate 31 0)[10 := 0x2000, 11 := 7], tf_pc = 0, tf_sepc = 0x1000,
     tf_sstatus = 0, tf_stval = 0, tf_scause = 7, tf_satp = 0\<rparr>"

lemma demo_amo_translate:
  assumes "v < 0x4000"
  shows "virt_to_phys demo_amo_mem 0x80200000 v = Some (0x40000000 + v)"
proof -
  have "pte_addr (pte_set 0x40000000 (PF_READ OR PF_WRITE)) = 0x40000000"
    by (rule pte_addr_set) (simp_all add: pf_defs ppn_bits_def)
  moreover have "pf_intersects (PF_READ OR PF_WRITE) (PF_READ OR PF_WRITE OR PF_EXECUTE)"
    by (simp add: pf_intersects_def pf_defs)
  moreover have "vpn2 v = 0" using assms by (simp add: vpn_eqs)
  moreover have "(0x40000000 AND unot (2 ^ 14 - 1)) OR (v AND (2 ^ 14 - 1)) = 0x40000000 + v mod 2 ^ 14"
    by (rule or_mask_add) (simp_all add: usize_bound_def)
  moreover have "read_pte demo_amo_mem 0x80200000 0 =
      read_pte (write_pte (\<lambda>_. 0) 0x80200000 0 (pte_set 0x40000000 (PF_READ OR PF_WRITE))) 0x80200000 0"
    by (simp add: read_pte_def demo_amo_mem_def load_store_disjoint)
  ultimately show ?thesis using assms by (simp add: virt_to_phys_def Let_def)
qed

theorem amo_emulation_witness:
  "\<exists>m'. handle_amo_fault demo_amo_mem 0x80200000 demo_amo_frame = Some (m', demo_amo_frame\<lparr>
      tf_registers := (tf_registers demo_amo_frame)[9 := 0], tf_pc := 0x1004\<rparr>) \<and> load 4 m' 0x40002000 = 7"
proof -
  let ?m = demo_amo_mem
  have ld: "load 4 ?m 0x40001000 = amo_inst 0 0 12 11 2 10"
    by (simp add: demo_amo_mem_def load_store_same amo_inst_def)
  have z: "load 4 ?m 0x40002000 = 0"
    by (simp add: demo_amo_mem_def load_store_disjoint write_pte_def) (simp add: load_def load_bytes_def upt_rec)
  note t = demo_amo_translate[of "0x1000"] demo_amo_translate[of "0x2000"]
  show ?thesis
    using amo_emulation[of 0 0 12 11 2 10 ?m "0x80200000" demo_amo_frame "0x40001000" 4 "\<lambda>old v. (old + v) mod 2 ^ 32"
        "0x2000" "0x40002000" 7] ld z t
    by (simp add: amo_spec_def gpr_get_def demo_amo_frame_def usize_bound_def) blast
qed

section \<open>The kernel trap handler\<close>

lemma load_4_halves: "load 4 m a = load 2 m a + 65536 * load 2 m (a + 2)"
  by (simp add: load_def load_bytes_def upt_rec algebra_simps)

lemma read_instr_eq:
  assumes "sepc + 4 < usize_bound"
  shows "read_instr m sepc = Some (word_of_nat (load 4 m sepc))"
proof -
  let ?l = "load 2 m sepc" and ?h = "load 2 m (sepc + 2)"
  have l: "?l < 2 ^ 16" using load_less[of 2 m sepc] by simp
  have "(word_of_nat ?l :: u32) AND push_bit 16 (word_of_nat ?h) = 0"
  proof (rule bit_eqI)
    fix n
    have "\<not> (bit ?l n \<and> 16 \<le> n)" using nat_bit_bound[OF l, of n] by auto
    then show "bit ((word_of_nat ?l :: u32) AND push_bit 16 (word_of_nat ?h)) n = bit (0 :: u32) n"
      by (auto simp: bit_simps)
  qed
  then have "(word_of_nat ?l :: u32) OR push_bit 16 (word_of_nat ?h) = word_of_nat ?l + push_bit 16 (word_of_nat ?h)"
    by (rule disjunctive_add_eq_or[symmetric])
  also have "\<dots> = word_of_nat (load 4 m sepc)"
    by (simp add: load_4_halves push_bit_eq_mult)
  finally show ?thesis using assms by (simp add: read_instr_def Let_def)
qed

lemma external_interrupt_iff:
  "is_interrupt scause \<and> interrupt_code scause = CODE_EXTERNAL \<longleftrightarrow> scause = SCAUSE_INTERRUPT_BIT OR CODE_EXTERNAL"
proof
  assume "scause = SCAUSE_INTERRUPT_BIT OR CODE_EXTERNAL"
  then show "is_interrupt scause \<and> interrupt_code scause = CODE_EXTERNAL"
    by (simp add: is_interrupt_def interrupt_code_def SCAUSE_INTERRUPT_BIT_def CODE_EXTERNAL_def)
next
  assume a: "is_interrupt scause \<and> interrupt_code scause = CODE_EXTERNAL"
  have B: "bit SCAUSE_INTERRUPT_BIT n \<longleftrightarrow> n = 63" for n
    unfolding SCAUSE_INTERRUPT_BIT_def bit_push_bit_iff bit_1_iff by (auto dest: bit_imp_le_length)
  have "bit scause 63"
  proof (rule ccontr)
    assume "\<not> bit scause 63"
    then have "scause AND SCAUSE_INTERRUPT_BIT = 0" by (intro bit_eqI) (auto simp: bit_and_iff B)
    then show False using a by (simp add: is_interrupt_def)
  qed
  note b63 = this
  have c: "CODE_EXTERNAL = scause AND NOT SCAUSE_INTERRUPT_BIT" using a by (simp add: interrupt_code_def)
  show "scause = SCAUSE_INTERRUPT_BIT OR CODE_EXTERNAL"
  proof (rule bit_eqI)
    fix n assume "possible_bit TYPE(64 word) n"
    then show "bit scause n \<longleftrightarrow> bit (SCAUSE_INTERRUPT_BIT OR CODE_EXTERNAL) n"
      using b63 unfolding c bit_or_iff bit_and_iff bit_not_iff B by (cases "n = 63") simp_all
  qed
qed

text \<open>
  The kernel trap handler returns exactly for external interrupts that the interrupt dispatcher
  handles; every other cause is fatal. It changes the saved \<open>sepc\<close> exactly when the interrupted
  instruction is \<open>wfi\<close>, to the address after it, so the idle loop makes progress; reading the
  instruction as two halfwords at a 2-byte boundary gives the same word.
\<close>

theorem kernel_trap_handler_skips_wfi:
  assumes "sepc + 4 < usize_bound"
  shows "kernel_trap_handler dispatch m k scause sepc fsepc =
    (if scause = SCAUSE_INTERRUPT_BIT OR CODE_EXTERNAL
     then map_option (\<lambda>k'. (k', if even sepc \<and> load 4 m sepc = unat INSTR_WFI then sepc + 4 else fsepc)) (dispatch k)
     else None)"
proof -
  have w: "(word_of_nat (load 4 m sepc) = INSTR_WFI) = (load 4 m sepc = unat INSTR_WFI)"
    using load_less[of 4 m sepc] by (auto simp: word_unat_eq_iff unat_of_nat)
  have e: "sepc mod 2 = 0 \<longleftrightarrow> even sepc" by (rule even_iff_mod_2_eq_zero[symmetric])
  show ?thesis
  proof (cases "is_interrupt scause \<and> interrupt_code scause = CODE_EXTERNAL")
    case True
    then have x: "is_interrupt scause" "interrupt_code scause = CODE_EXTERNAL"
      "(scause = SCAUSE_INTERRUPT_BIT OR CODE_EXTERNAL) = True" using external_interrupt_iff by blast+
    show ?thesis unfolding kernel_trap_handler_def read_instr_eq[OF assms] x e
      by (cases "dispatch k") (simp_all add: w x(1) uadd_ok[OF assms])
  next
    case False
    then have "(scause = SCAUSE_INTERRUPT_BIT OR CODE_EXTERNAL) = False" using external_interrupt_iff by blast
    then show ?thesis using False unfolding kernel_trap_handler_def by simp
  qed
qed

theorem kernel_trap_handler_skips_wfi_witness:
  "kernel_trap_handler (\<lambda>k. Some (k + 1)) (store 4 (\<lambda>_. 0) 0x80200002 0x10500073) (0 :: nat)
     (SCAUSE_INTERRUPT_BIT OR CODE_EXTERNAL) 0x80200002 0x80200002 = Some (1, 0x80200006)"
  using kernel_trap_handler_skips_wfi[of "0x80200002" "\<lambda>k. Some (k + 1)" "store 4 (\<lambda>_. 0) 0x80200002 0x10500073"
      "0 :: nat" "SCAUSE_INTERRUPT_BIT OR CODE_EXTERNAL" "0x80200002"]
  by (simp add: usize_bound_def load_store_same INSTR_WFI_def)

end
