(* ===== verification/Heap_Allocator.thy ===== *)
theory Heap_Allocator
  imports Memory_Regions
begin

text \<open>
  The kernel heap (\<open>src/src/kernel_allocator/block_header.rs\<close>, \<open>allocator.rs\<close>, \<open>mod.rs\<close>): a boundary-tag
  allocator over a contiguous range. Every block has a 16-byte header with its size, the offset of
  the block before it and the links of the doubly linked free list; bit 0 of the last link marks a
  used block. Headers are a store from addresses to header records; a pointer is an address, 0 the
  null pointer; the bytes of the allocations themselves are not part of the model. Growing the
  heap is an argument (\<open>grow_heap_fn\<close> is a function pointer in the code).
\<close>

unbundle bit_operations_syntax

section \<open>Block headers\<close>

definition KERNEL_HEAP_START :: usize where
  "KERNEL_HEAP_START = 0xffffffffc0000000"

definition BLOCK_HEADER_SIZE :: usize where "BLOCK_HEADER_SIZE = 16"
definition NULL_OFFSET :: u32 where "NULL_OFFSET = 0xfffffffe"
definition OFFSET_LOWER_BITS_MASK :: u32 where "OFFSET_LOWER_BITS_MASK = NOT NULL_OFFSET"
definition MIN_ALLOC_SIZE :: usize where "MIN_ALLOC_SIZE = 16"
definition MIN_BLOCK_SIZE :: usize where "MIN_BLOCK_SIZE = BLOCK_HEADER_SIZE + MIN_ALLOC_SIZE"

record block_header =
  bh_size :: u32
  bh_prev :: u32
  bh_free_next :: u32
  bh_free_prev :: u32

record heap =
  hdrs :: "usize \<Rightarrow> block_header"
  hp_head :: usize
  hp_tail :: usize
  hp_end :: usize
  hp_free_head :: usize

definition bh_new :: "usize \<Rightarrow> bool \<Rightarrow> block_header" where
  "bh_new n used = \<lparr>bh_size = word_of_nat n, bh_prev = NULL_OFFSET, bh_free_next = NULL_OFFSET,
     bh_free_prev = NULL_OFFSET OR (if used then 1 else 0)\<rparr>"

definition from_offset :: "u32 \<Rightarrow> usize option" where
  "from_offset off = (if off = NULL_OFFSET then Some 0 else uadd KERNEL_HEAP_START (unat off))"

definition to_offset :: "usize \<Rightarrow> u32 option" where
  "to_offset p = (if p = 0 then Some NULL_OFFSET else do { d \<leftarrow> usub p KERNEL_HEAP_START; Some (word_of_nat d) })"

definition put_hdr :: "heap \<Rightarrow> usize \<Rightarrow> block_header \<Rightarrow> heap" where
  "put_hdr h p b = h\<lparr>hdrs := (hdrs h)(p := b)\<rparr>"

definition alloc_area_start :: "usize \<Rightarrow> usize option" where
  "alloc_area_start p = uadd p BLOCK_HEADER_SIZE"

definition blk_size :: "heap \<Rightarrow> usize \<Rightarrow> usize" where
  "blk_size h p = unat (bh_size (hdrs h p))"

definition blk_next :: "heap \<Rightarrow> usize \<Rightarrow> usize option" where
  "blk_next h p = do { a \<leftarrow> uadd p (blk_size h p); uadd a BLOCK_HEADER_SIZE }"

definition blk_prev :: "heap \<Rightarrow> usize \<Rightarrow> usize option" where
  "blk_prev h p = from_offset (bh_prev (hdrs h p))"

definition set_prev :: "heap \<Rightarrow> usize \<Rightarrow> usize \<Rightarrow> heap option" where
  "set_prev h p q = do { off \<leftarrow> to_offset q; Some (put_hdr h p ((hdrs h p)\<lparr>bh_prev := off\<rparr>)) }"

definition free_next :: "heap \<Rightarrow> usize \<Rightarrow> usize option" where
  "free_next h p = from_offset (bh_free_next (hdrs h p))"

definition set_free_next :: "heap \<Rightarrow> usize \<Rightarrow> usize \<Rightarrow> heap option" where
  "set_free_next h p q = do { off \<leftarrow> to_offset q; Some (put_hdr h p ((hdrs h p)\<lparr>bh_free_next := off\<rparr>)) }"

definition free_prev :: "heap \<Rightarrow> usize \<Rightarrow> usize option" where
  "free_prev h p =
     (let off = bh_free_prev (hdrs h p) AND NULL_OFFSET in
      if off = NULL_OFFSET then Some 0 else uadd KERNEL_HEAP_START (unat off))"

definition set_free_prev :: "heap \<Rightarrow> usize \<Rightarrow> usize \<Rightarrow> heap option" where
  "set_free_prev h p q =
     (let w = bh_free_prev (hdrs h p) AND OFFSET_LOWER_BITS_MASK in
      if q = 0 then Some (put_hdr h p ((hdrs h p)\<lparr>bh_free_prev := w OR NULL_OFFSET\<rparr>))
      else do {
        d \<leftarrow> usub q KERNEL_HEAP_START;
        Some (put_hdr h p ((hdrs h p)\<lparr>bh_free_prev := w OR word_of_nat d\<rparr>))
      })"

definition set_size :: "heap \<Rightarrow> usize \<Rightarrow> usize \<Rightarrow> heap" where
  "set_size h p n = put_hdr h p ((hdrs h p)\<lparr>bh_size := word_of_nat n\<rparr>)"

definition add_size :: "heap \<Rightarrow> usize \<Rightarrow> usize \<Rightarrow> heap option" where
  "add_size h p n =
     (let k = unat (bh_size (hdrs h p)) + unat (word_of_nat n :: u32) in
      if k < 2 ^ 32 then Some (put_hdr h p ((hdrs h p)\<lparr>bh_size := word_of_nat k\<rparr>)) else None)"

definition is_used :: "heap \<Rightarrow> usize \<Rightarrow> bool" where
  "is_used h p \<longleftrightarrow> bh_free_prev (hdrs h p) AND 1 \<noteq> 0"

definition set_used :: "heap \<Rightarrow> usize \<Rightarrow> heap" where
  "set_used h p = put_hdr h p ((hdrs h p)\<lparr>bh_free_prev := bh_free_prev (hdrs h p) OR 1\<rparr>)"

definition is_free :: "heap \<Rightarrow> usize \<Rightarrow> bool" where
  "is_free h p \<longleftrightarrow> bh_free_prev (hdrs h p) AND 1 = 0"

definition set_free :: "heap \<Rightarrow> usize \<Rightarrow> heap" where
  "set_free h p = put_hdr h p ((hdrs h p)\<lparr>bh_free_prev := bh_free_prev (hdrs h p) AND NOT 1\<rparr>)"

definition end_ptr :: "heap \<Rightarrow> usize \<Rightarrow> usize option" where
  "end_ptr h p = do { a \<leftarrow> uadd p BLOCK_HEADER_SIZE; uadd a (blk_size h p) }"

section \<open>The lists\<close>

definition heap_new :: heap where
  "heap_new = \<lparr>hdrs = (\<lambda>_. \<lparr>bh_size = 0, bh_prev = 0, bh_free_next = 0, bh_free_prev = 0\<rparr>),
     hp_head = 0, hp_tail = 0, hp_end = 0, hp_free_head = 0\<rparr>"

definition heap_init :: "heap \<Rightarrow> usize \<Rightarrow> usize \<Rightarrow> heap option" where
  "heap_init h heap_start heap_size = do {
     n \<leftarrow> usub heap_size BLOCK_HEADER_SIZE;
     e \<leftarrow> uadd heap_start heap_size;
     Some ((put_hdr h heap_start (bh_new n False))
       \<lparr>hp_head := heap_start, hp_tail := heap_start, hp_end := e, hp_free_head := heap_start\<rparr>)
   }"

definition insert_free_block :: "heap \<Rightarrow> usize \<Rightarrow> heap option" where
  "insert_free_block h this = do {
     h \<leftarrow> set_free_next h this (hp_free_head h);
     h \<leftarrow> set_free_prev h this 0;
     h \<leftarrow> (if hp_free_head h \<noteq> 0 then set_free_prev h (hp_free_head h) this else Some h);
     Some (h\<lparr>hp_free_head := this\<rparr>)
   }"

definition remove_free_block :: "heap \<Rightarrow> usize \<Rightarrow> heap option" where
  "remove_free_block h this = do {
     fp \<leftarrow> free_prev h this;
     fn \<leftarrow> free_next h this;
     h \<leftarrow> (if fp \<noteq> 0 then set_free_next h fp fn else Some (h\<lparr>hp_free_head := fn\<rparr>));
     fn \<leftarrow> free_next h this;
     fp \<leftarrow> free_prev h this;
     h \<leftarrow> (if fn \<noteq> 0 then set_free_prev h fn fp else Some h);
     h \<leftarrow> set_free_next h this 0;
     set_free_prev h this 0
   }"

definition append_to_list :: "heap \<Rightarrow> usize \<Rightarrow> heap option" where
  "append_to_list h this = do {
     h \<leftarrow> set_prev h this (hp_tail h);
     Some (h\<lparr>hp_tail := this\<rparr>)
   }"

definition insert_after :: "heap \<Rightarrow> usize \<Rightarrow> usize \<Rightarrow> heap option" where
  "insert_after h this new_block = do {
     nxt \<leftarrow> blk_next h this;
     h \<leftarrow> (if this \<noteq> hp_tail h then set_prev h nxt new_block else Some (h\<lparr>hp_tail := new_block\<rparr>));
     set_prev h new_block this
   }"

definition remove_from_list :: "heap \<Rightarrow> usize \<Rightarrow> heap option" where
  "remove_from_list h this = do {
     nxt \<leftarrow> blk_next h this;
     prv \<leftarrow> blk_prev h this;
     guard_assert (prv \<noteq> 0);
     (if this \<noteq> hp_tail h then set_prev h nxt prv else Some (h\<lparr>hp_tail := prv\<rparr>))
   }"

section \<open>Finding a block\<close>

definition align_up_to :: "usize \<Rightarrow> usize \<Rightarrow> usize option" where
  "align_up_to addr align = do {
     a \<leftarrow> uadd addr align;
     b \<leftarrow> usub a 1;
     c \<leftarrow> usub align 1;
     Some (b AND unot c)
   }"

text \<open>The loop of \<open>check_aligned_fit\<close> from the candidate \<open>aligned\<close>.\<close>

partial_function (option) aligned_loop ::
  "usize \<Rightarrow> usize \<Rightarrow> usize \<Rightarrow> usize \<Rightarrow> usize \<Rightarrow> usize option option" where
  "aligned_loop block e alloc_size align aligned = do {
     x \<leftarrow> uadd aligned alloc_size;
     y \<leftarrow> align_up_to x 8;
     z \<leftarrow> uadd y BLOCK_HEADER_SIZE;
     if z \<le> e then do {
       header \<leftarrow> usub aligned BLOCK_HEADER_SIZE;
       padding \<leftarrow> usub header block;
       if padding = 0 \<or> MIN_BLOCK_SIZE \<le> padding then Some (Some header)
       else do {
         a \<leftarrow> uadd aligned align;
         aligned_loop block e alloc_size align a
       }
     } else Some None
   }"

definition check_aligned_fit :: "heap \<Rightarrow> usize \<Rightarrow> usize \<Rightarrow> usize \<Rightarrow> usize option option" where
  "check_aligned_fit h block alloc_size align = do {
     start \<leftarrow> alloc_area_start block;
     e \<leftarrow> end_ptr h block;
     aligned \<leftarrow> align_up_to start align;
     aligned_loop block e alloc_size align aligned
   }"

text \<open>The two search loops of \<open>find_fit\<close>, from the free block \<open>p\<close>.\<close>

partial_function (option) first_fit :: "heap \<Rightarrow> usize \<Rightarrow> usize \<Rightarrow> usize option option" where
  "first_fit h total_needed p =
     (if p = 0 then Some None
      else if total_needed \<le> blk_size h p then Some (Some p)
      else do { q \<leftarrow> free_next h p; first_fit h total_needed q })"

partial_function (option) first_aligned_fit ::
  "heap \<Rightarrow> usize \<Rightarrow> usize \<Rightarrow> usize \<Rightarrow> (usize \<times> usize) option option" where
  "first_aligned_fit h n align p =
     (if p = 0 then Some None
      else do {
        r \<leftarrow> check_aligned_fit h p n align;
        case r of
          Some a \<Rightarrow> Some (Some (p, a))
        | None \<Rightarrow> do { q \<leftarrow> free_next h p; first_aligned_fit h n align q }
      })"

definition grow_and_fit ::
  "(usize \<Rightarrow> (usize \<times> usize) option) \<Rightarrow> heap \<Rightarrow> usize \<Rightarrow> usize \<Rightarrow> (heap \<times> (usize \<times> usize) option) option" where
  "grow_and_fit grow_heap_fn h n align = do {
     a \<leftarrow> uadd BLOCK_HEADER_SIZE align;
     b \<leftarrow> uadd a n;
     (case grow_heap_fn (max b PAGE_SIZE) of
        None \<Rightarrow> Some (h, None)
      | Some (new_heap, actual_size) \<Rightarrow> do {
          e \<leftarrow> uadd new_heap actual_size;
          let h = h\<lparr>hp_end := e\<rparr>;
          let last = hp_tail h;
          if is_free h last then do {
            h \<leftarrow> add_size h last actual_size;
            r \<leftarrow> check_aligned_fit h last n align;
            aligned_location \<leftarrow> r;
            Some (h, Some (last, aligned_location))
          } else do {
            let this = new_heap;
            k \<leftarrow> usub actual_size BLOCK_HEADER_SIZE;
            let h = put_hdr h this (bh_new k False);
            h \<leftarrow> insert_free_block h this;
            h \<leftarrow> append_to_list h this;
            r \<leftarrow> check_aligned_fit h this n align;
            aligned_location \<leftarrow> r;
            Some (h, Some (this, aligned_location))
          }
        })
   }"

definition find_fit ::
  "(usize \<Rightarrow> (usize \<times> usize) option) \<Rightarrow> heap \<Rightarrow> usize \<Rightarrow> usize \<Rightarrow> (heap \<times> (usize \<times> usize) option) option" where
  "find_fit grow_heap_fn h n align = do {
     total_needed \<leftarrow> align_up_to n 8;
     r \<leftarrow> (if align \<le> 8
          then do { r \<leftarrow> first_fit h total_needed (hp_free_head h); Some (map_option (\<lambda>p. (p, p)) r) }
          else first_aligned_fit h n align (hp_free_head h));
     (case r of
        Some pa \<Rightarrow> Some (h, Some pa)
      | None \<Rightarrow> grow_and_fit grow_heap_fn h n align)
   }"

section \<open>Allocation\<close>

definition split_exact :: "heap \<Rightarrow> usize \<Rightarrow> usize \<Rightarrow> (heap \<times> usize) option" where
  "split_exact h this n = do {
     total_needed \<leftarrow> align_up_to (max n MIN_ALLOC_SIZE) 8;
     excess \<leftarrow> usub (blk_size h this) total_needed;
     h \<leftarrow> (if MIN_BLOCK_SIZE \<le> excess then do {
            a \<leftarrow> alloc_area_start this;
            new_block \<leftarrow> uadd a total_needed;
            k \<leftarrow> usub excess BLOCK_HEADER_SIZE;
            let h = put_hdr h new_block (bh_new k False);
            h \<leftarrow> insert_free_block h new_block;
            h \<leftarrow> insert_after h this new_block;
            Some (set_size h this total_needed)
          } else Some h);
     h \<leftarrow> remove_free_block h this;
     let h = set_used h this;
     a \<leftarrow> alloc_area_start this;
     Some (h, a)
   }"

definition split_three :: "heap \<Rightarrow> usize \<Rightarrow> usize \<Rightarrow> usize \<Rightarrow> (heap \<times> usize) option" where
  "split_three h this aligned_block n = do {
     let this_size = blk_size h this;
     s \<leftarrow> alloc_area_start this;
     preceding_size \<leftarrow> usub aligned_block s;
     m \<leftarrow> align_up_to n 8;
     let aligned_block_size = max m (MIN_BLOCK_SIZE - BLOCK_HEADER_SIZE);
     x \<leftarrow> usub this_size (preceding_size + BLOCK_HEADER_SIZE);
     excess \<leftarrow> usub x (aligned_block_size + BLOCK_HEADER_SIZE);
     let h = set_size h this preceding_size;
     let h = put_hdr h aligned_block (bh_new aligned_block_size True);
     h \<leftarrow> insert_after h this aligned_block;
     h \<leftarrow> (if MIN_ALLOC_SIZE \<le> excess then do {
            new_block_addr \<leftarrow> end_ptr h aligned_block;
            let h = put_hdr h new_block_addr (bh_new excess False);
            h \<leftarrow> insert_free_block h new_block_addr;
            insert_after h aligned_block new_block_addr
          } else Some h);
     a \<leftarrow> alloc_area_start aligned_block;
     Some (h, a)
   }"

definition split_block :: "heap \<Rightarrow> usize \<Rightarrow> usize \<Rightarrow> usize \<Rightarrow> (heap \<times> usize) option" where
  "split_block h this aligned_block n =
     (if this = aligned_block then split_exact h this n else split_three h this aligned_block n)"

definition heap_alloc ::
  "(usize \<Rightarrow> (usize \<times> usize) option) \<Rightarrow> heap \<Rightarrow> usize \<Rightarrow> usize \<Rightarrow> (heap \<times> usize) option" where
  "heap_alloc grow_heap_fn h n align = do {
     (h, r) \<leftarrow> find_fit grow_heap_fn h n align;
     (case r of
        Some (block, aligned_block) \<Rightarrow> split_block h block aligned_block n
      | None \<Rightarrow> Some (h, 0))
   }"

section \<open>Deallocation\<close>

definition dealloc_and_coalesce :: "heap \<Rightarrow> usize \<Rightarrow> heap option" where
  "dealloc_and_coalesce h ptr = do {
     block_ptr \<leftarrow> usub ptr BLOCK_HEADER_SIZE;
     let h = set_free h block_ptr;
     nxt \<leftarrow> blk_next h block_ptr;
     h \<leftarrow> (if block_ptr \<noteq> hp_tail h \<and> is_free h nxt then do {
            h \<leftarrow> add_size h block_ptr (BLOCK_HEADER_SIZE + blk_size h nxt);
            h \<leftarrow> remove_free_block h nxt;
            remove_from_list h nxt
          } else Some h);
     prv \<leftarrow> blk_prev h block_ptr;
     (if prv \<noteq> 0 \<and> is_free h prv then do {
        h \<leftarrow> remove_from_list h block_ptr;
        add_size h prv (BLOCK_HEADER_SIZE + blk_size h block_ptr)
      } else insert_free_block h block_ptr)
   }"

definition heap_dealloc :: "heap \<Rightarrow> usize \<Rightarrow> heap option" where
  "heap_dealloc h ptr = (if ptr = 0 then Some h else dealloc_and_coalesce h ptr)"

section \<open>Allocating within a page\<close>

function next_pow2_from :: "nat \<Rightarrow> nat \<Rightarrow> nat" where
  "next_pow2_from n p = (if n \<le> p \<or> p = 0 then p else next_pow2_from n (2 * p))"
  by auto
termination by (relation "measure (\<lambda>(n, p). n - p)") auto

declare next_pow2_from.simps [simp del]

definition next_power_of_two :: "usize \<Rightarrow> usize" where
  "next_power_of_two n = next_pow2_from n 1"

text \<open>The layout \<open>alloc_within_page\<close> passes to the allocator.\<close>

definition alloc_within_page_layout :: "usize \<Rightarrow> (usize \<times> usize) option" where
  "alloc_within_page_layout n = do {
     guard_assert (n \<le> PAGE_SIZE);
     Some (n, min (next_power_of_two n) PAGE_SIZE)
   }"

section \<open>Reading back what the setters write\<close>

text \<open>The null pointer or an even address of the heap's range.\<close>

definition vp :: "usize \<Rightarrow> bool" where
  "vp q \<longleftrightarrow> q = 0 \<or> (KERNEL_HEAP_START \<le> q \<and> q < usize_bound \<and> even q)"

definition enc :: "usize \<Rightarrow> u32" where
  "enc q = (if q = 0 then NULL_OFFSET else word_of_nat (q - KERNEL_HEAP_START))"

lemma vp_off:
  assumes "vp q" "q \<noteq> 0"
  shows "q - KERNEL_HEAP_START < 2 ^ 30" "KERNEL_HEAP_START + (q - KERNEL_HEAP_START) = q" "even (q - KERNEL_HEAP_START)"
  using assms by (auto simp: vp_def KERNEL_HEAP_START_def usize_bound_def)

lemma unat_enc: "vp q \<Longrightarrow> q \<noteq> 0 \<Longrightarrow> unat (enc q) = q - KERNEL_HEAP_START"
  using vp_off(1)[of q] by (simp add: enc_def unat_of_nat)

lemma enc_null: "vp q \<Longrightarrow> enc q = NULL_OFFSET \<longleftrightarrow> q = 0"
  using unat_enc[of q] vp_off(1)[of q] by (auto simp: enc_def NULL_OFFSET_def)

lemma to_offset_enc: "vp q \<Longrightarrow> to_offset q = Some (enc q)"
  by (auto simp: to_offset_def enc_def vp_def)

lemma from_offset_enc: "vp q \<Longrightarrow> from_offset (enc q) = Some q"
  using unat_enc[of q] vp_off[of q] enc_null[of q] by (auto simp: from_offset_def vp_def)

lemma enc_even: "vp q \<Longrightarrow> \<not> bit (enc q) 0"
proof (cases "q = 0")
  case False
  assume "vp q"
  then show ?thesis using vp_off(3)[OF _ False] False by (simp add: enc_def bit_0)
qed (simp add: enc_def NULL_OFFSET_def bit_0)

lemma null_bits: "bit NULL_OFFSET n \<longleftrightarrow> 0 < n \<and> n < 32"
proof -
  have n: "NULL_OFFSET = NOT 1" by (simp add: NULL_OFFSET_def)
  show ?thesis unfolding n bit_not_iff bit_1_iff by auto
qed

lemma fp_word:
  assumes "vp q"
  shows "((w AND OFFSET_LOWER_BITS_MASK) OR enc q) AND NULL_OFFSET = enc q"
    "((w AND OFFSET_LOWER_BITS_MASK) OR enc q) AND 1 = w AND 1"
proof -
  have m: "bit OFFSET_LOWER_BITS_MASK n \<longleftrightarrow> n = 0" for n
    unfolding OFFSET_LOWER_BITS_MASK_def bit_not_iff by (auto simp: null_bits dest: bit_imp_le_length)
  have e: "bit (enc q) n \<Longrightarrow> 0 < n \<and> n < 32" for n
    using enc_even[OF assms] by (cases "n = 0") (auto dest: bit_imp_le_length)
  show "((w AND OFFSET_LOWER_BITS_MASK) OR enc q) AND NULL_OFFSET = enc q"
    by (rule bit_eqI) (auto simp: bit_and_iff bit_or_iff m null_bits dest: e)
  show "((w AND OFFSET_LOWER_BITS_MASK) OR enc q) AND 1 = w AND 1"
    by (rule bit_eqI) (auto simp: bit_and_iff bit_or_iff bit_1_iff m dest: e)
qed

text \<open>The effect of the checked setters on valid pointers.\<close>

definition w_prev :: "heap \<Rightarrow> usize \<Rightarrow> usize \<Rightarrow> heap" where
  "w_prev h p q = put_hdr h p ((hdrs h p)\<lparr>bh_prev := enc q\<rparr>)"

definition w_fnext :: "heap \<Rightarrow> usize \<Rightarrow> usize \<Rightarrow> heap" where
  "w_fnext h p q = put_hdr h p ((hdrs h p)\<lparr>bh_free_next := enc q\<rparr>)"

definition w_fprev :: "heap \<Rightarrow> usize \<Rightarrow> usize \<Rightarrow> heap" where
  "w_fprev h p q = put_hdr h p ((hdrs h p)\<lparr>bh_free_prev := (bh_free_prev (hdrs h p) AND OFFSET_LOWER_BITS_MASK) OR enc q\<rparr>)"

lemma set_prev_ok: "vp q \<Longrightarrow> set_prev h p q = Some (w_prev h p q)"
  by (simp add: set_prev_def to_offset_enc w_prev_def)

lemma set_free_next_ok: "vp q \<Longrightarrow> set_free_next h p q = Some (w_fnext h p q)"
  by (simp add: set_free_next_def to_offset_enc w_fnext_def)

lemma set_free_prev_ok: "vp q \<Longrightarrow> set_free_prev h p q = Some (w_fprev h p q)"
  by (auto simp: set_free_prev_def w_fprev_def enc_def Let_def vp_def)

lemmas setter_ok = set_prev_ok set_free_next_ok set_free_prev_ok

lemma add_size_ok:
  "blk_size h p + n < 2 ^ 32 \<Longrightarrow> add_size h p n = Some (set_size h p (blk_size h p + n))"
  by (simp add: add_size_def set_size_def blk_size_def Let_def unat_of_nat)

named_theorems heap_simps \<open>what each accessor reads after each setter\<close>

lemma hdrs_put [heap_simps]: "hdrs (put_hdr h p b) = (hdrs h)(p := b)"
  by (simp add: put_hdr_def)

lemma fields_put [heap_simps]:
  "hp_head (put_hdr h p b) = hp_head h" "hp_tail (put_hdr h p b) = hp_tail h"
  "hp_end (put_hdr h p b) = hp_end h" "hp_free_head (put_hdr h p b) = hp_free_head h"
  by (simp_all add: put_hdr_def)

lemma fields_setters [heap_simps]:
  "hp_head (w_prev h p q) = hp_head h" "hp_tail (w_prev h p q) = hp_tail h"
  "hp_end (w_prev h p q) = hp_end h" "hp_free_head (w_prev h p q) = hp_free_head h"
  "hp_head (w_fnext h p q) = hp_head h" "hp_tail (w_fnext h p q) = hp_tail h"
  "hp_end (w_fnext h p q) = hp_end h" "hp_free_head (w_fnext h p q) = hp_free_head h"
  "hp_head (w_fprev h p q) = hp_head h" "hp_tail (w_fprev h p q) = hp_tail h"
  "hp_end (w_fprev h p q) = hp_end h" "hp_free_head (w_fprev h p q) = hp_free_head h"
  "hp_head (set_size h p n) = hp_head h" "hp_tail (set_size h p n) = hp_tail h"
  "hp_end (set_size h p n) = hp_end h" "hp_free_head (set_size h p n) = hp_free_head h"
  "hp_head (set_used h p) = hp_head h" "hp_tail (set_used h p) = hp_tail h"
  "hp_end (set_used h p) = hp_end h" "hp_free_head (set_used h p) = hp_free_head h"
  "hp_head (set_free h p) = hp_head h" "hp_tail (set_free h p) = hp_tail h"
  "hp_end (set_free h p) = hp_end h" "hp_free_head (set_free h p) = hp_free_head h"
  by (simp_all add: w_prev_def w_fnext_def w_fprev_def set_size_def set_used_def set_free_def put_hdr_def)

lemmas acc_defs = blk_size_def blk_prev_def free_next_def free_prev_def is_free_def
lemmas set_defs = w_prev_def w_fnext_def w_fprev_def set_size_def set_used_def set_free_def put_hdr_def

lemma size_setters [heap_simps]:
  "blk_size (w_prev h p q) r = blk_size h r" "blk_size (w_fnext h p q) r = blk_size h r"
  "blk_size (w_fprev h p q) r = blk_size h r" "blk_size (set_used h p) r = blk_size h r"
  "blk_size (set_free h p) r = blk_size h r"
  "n < 2 ^ 32 \<Longrightarrow> blk_size (set_size h p n) r = (if r = p then n else blk_size h r)"
  by (auto simp: acc_defs set_defs unat_of_nat)

lemma prev_setters [heap_simps]:
  "vp q \<Longrightarrow> blk_prev (w_prev h p q) r = (if r = p then Some q else blk_prev h r)"
  "blk_prev (w_fnext h p q) r = blk_prev h r" "blk_prev (w_fprev h p q) r = blk_prev h r"
  "blk_prev (set_used h p) r = blk_prev h r" "blk_prev (set_free h p) r = blk_prev h r"
  "blk_prev (set_size h p n) r = blk_prev h r"
  by (auto simp: acc_defs set_defs from_offset_enc)

lemma fnext_setters [heap_simps]:
  "free_next (w_prev h p q) r = free_next h r"
  "vp q \<Longrightarrow> free_next (w_fnext h p q) r = (if r = p then Some q else free_next h r)"
  "free_next (w_fprev h p q) r = free_next h r" "free_next (set_used h p) r = free_next h r"
  "free_next (set_free h p) r = free_next h r" "free_next (set_size h p n) r = free_next h r"
  by (auto simp: acc_defs set_defs from_offset_enc)

lemma or1_null: "(w OR 1) AND NULL_OFFSET = w AND NULL_OFFSET" "(w AND NOT 1) AND NULL_OFFSET = w AND NULL_OFFSET"
  by (rule bit_eqI, auto simp: bit_simps null_bits)+

lemma and_m2_null: "(w AND - 2) AND NULL_OFFSET = w AND NULL_OFFSET"
  using or1_null(2)[of w] by simp

lemma fprev_setters [heap_simps]:
  "free_prev (w_prev h p q) r = free_prev h r" "free_prev (w_fnext h p q) r = free_prev h r"
  "vp q \<Longrightarrow> free_prev (w_fprev h p q) r = (if r = p then Some q else free_prev h r)"
  "free_prev (set_used h p) r = free_prev h r" "free_prev (set_free h p) r = free_prev h r"
  "free_prev (set_size h p n) r = free_prev h r"
  using from_offset_enc[of q]
  by (auto simp: acc_defs set_defs Let_def fp_word or1_null and_m2_null from_offset_def)

lemma free_setters [heap_simps]:
  "is_free (w_prev h p q) r = is_free h r" "is_free (w_fnext h p q) r = is_free h r"
  "vp q \<Longrightarrow> is_free (w_fprev h p q) r = is_free h r"
  "is_free (set_used h p) r = (r \<noteq> p \<and> is_free h r)" "is_free (set_free h p) r = (r = p \<or> is_free h r)"
  "is_free (set_size h p n) r = is_free h r"
proof -
  have "(w OR 1) AND 1 = (1 :: u32)" "(w AND NOT 1) AND 1 = (0 :: u32)" for w :: u32
    by (rule bit_eqI, auto simp: bit_simps)+
  then show "is_free (set_used h p) r = (r \<noteq> p \<and> is_free h r)" "is_free (set_free h p) r = (r = p \<or> is_free h r)"
    by (auto simp: acc_defs set_defs)
qed (auto simp: acc_defs set_defs fp_word)

lemma bh_new_null: "(NULL_OFFSET OR 1) AND NULL_OFFSET = NULL_OFFSET"
  by (rule bit_eqI) (auto simp: bit_simps null_bits)

lemma new_hdr [heap_simps]:
  "k < 2 ^ 32 \<Longrightarrow> blk_size (put_hdr h p (bh_new k u)) r = (if r = p then k else blk_size h r)"
  "blk_prev (put_hdr h p (bh_new k u)) r = (if r = p then Some 0 else blk_prev h r)"
  "free_next (put_hdr h p (bh_new k u)) r = (if r = p then Some 0 else free_next h r)"
  "free_prev (put_hdr h p (bh_new k u)) r = (if r = p then Some 0 else free_prev h r)"
  "is_free (put_hdr h p (bh_new k u)) r = (if r = p then \<not> u else is_free h r)"
  by (auto simp: acc_defs put_hdr_def bh_new_def from_offset_def unat_of_nat Let_def bh_new_null)
     (simp_all add: NULL_OFFSET_def)

lemma acc_fields [heap_simps]:
  "blk_size (h\<lparr>hp_tail := x\<rparr>) r = blk_size h r" "blk_size (h\<lparr>hp_free_head := x\<rparr>) r = blk_size h r"
  "blk_prev (h\<lparr>hp_tail := x\<rparr>) r = blk_prev h r" "blk_prev (h\<lparr>hp_free_head := x\<rparr>) r = blk_prev h r"
  "free_next (h\<lparr>hp_tail := x\<rparr>) r = free_next h r" "free_next (h\<lparr>hp_free_head := x\<rparr>) r = free_next h r"
  "free_prev (h\<lparr>hp_tail := x\<rparr>) r = free_prev h r" "free_prev (h\<lparr>hp_free_head := x\<rparr>) r = free_prev h r"
  "is_free (h\<lparr>hp_tail := x\<rparr>) r = is_free h r" "is_free (h\<lparr>hp_free_head := x\<rparr>) r = is_free h r"
  by (simp_all add: acc_defs)

section \<open>The free list\<close>

text \<open>
  \<open>dseg h pv ps nx\<close>: the blocks \<open>ps\<close> are linked in both directions, the first after \<open>pv\<close> and the last
  before \<open>nx\<close>.
\<close>

fun dseg :: "heap \<Rightarrow> usize \<Rightarrow> usize list \<Rightarrow> usize \<Rightarrow> bool" where
  "dseg h pv [] nx \<longleftrightarrow> True"
| "dseg h pv (p # ps) nx \<longleftrightarrow> free_prev h p = Some pv \<and> free_next h p = Some (hd (ps @ [nx])) \<and> dseg h p ps nx"

definition dlist :: "heap \<Rightarrow> usize list \<Rightarrow> bool" where
  "dlist h fl \<longleftrightarrow> dseg h 0 fl 0 \<and> hp_free_head h = hd (fl @ [0]) \<and> distinct fl \<and> (\<forall>p \<in> set fl. p \<noteq> 0 \<and> vp p)"

lemma dseg_append:
  "dseg h pv (xs @ ys) nx \<longleftrightarrow> dseg h pv xs (hd (ys @ [nx])) \<and> dseg h (last (pv # xs)) ys nx"
proof (induction xs arbitrary: pv)
  case (Cons x xs)
  have "hd ((xs @ ys) @ [nx]) = hd (xs @ [hd (ys @ [nx])])" by (cases xs) simp_all
  then show ?case using Cons by simp
qed simp

lemma dseg_cong:
  "(\<And>p. p \<in> set ps \<Longrightarrow> free_next h' p = free_next h p \<and> free_prev h' p = free_prev h p) \<Longrightarrow>
   dseg h' pv ps nx \<longleftrightarrow> dseg h pv ps nx"
  by (induction ps arbitrary: pv) simp_all

text \<open>Everything but the links of the free list is as it was.\<close>

definition same_blocks :: "heap \<Rightarrow> heap \<Rightarrow> bool" where
  "same_blocks h h' \<longleftrightarrow> (\<forall>r. blk_size h' r = blk_size h r \<and> blk_prev h' r = blk_prev h r \<and> is_free h' r = is_free h r) \<and>
     hp_head h' = hp_head h \<and> hp_tail h' = hp_tail h \<and> hp_end h' = hp_end h"

lemma vp_0 [simp]: "vp 0" by (simp add: vp_def)

lemma insert_free_block_ok:
  assumes d: "dlist h fl" and p: "p \<notin> set fl" "p \<noteq> 0" "vp p"
  obtains h' where "insert_free_block h p = Some h'" "dlist h' (p # fl)" "same_blocks h h'"
proof -
  let ?f = "hp_free_head h"
  have f: "?f = hd (fl @ [0])" "vp ?f" "?f \<noteq> p" using d p by (cases fl; auto simp: dlist_def)+
  define h1 where "h1 = w_fprev (w_fnext h p ?f) p 0"
  define h2 where "h2 = (if ?f \<noteq> 0 then w_fprev h1 ?f p else h1)"
  define h' where "h' = h2\<lparr>hp_free_head := p\<rparr>"
  have run: "insert_free_block h p = Some h'"
    using p(3) f by (simp add: insert_free_block_def setter_ok h'_def h2_def h1_def heap_simps)
  have acc: "free_next h' r = (if r = p then Some ?f else free_next h r)"
    "free_prev h' r = (if r = p then Some 0 else if r = ?f \<and> ?f \<noteq> 0 then Some p else free_prev h r)" for r
    using f p by (auto simp: h'_def h2_def h1_def heap_simps)
  have "same_blocks h h'" using f p by (simp add: same_blocks_def h'_def h2_def h1_def heap_simps)
  moreover have "dlist h' (p # fl)"
  proof (cases fl)
    case Nil
    then show ?thesis using d p f acc by (simp add: dlist_def h'_def)
  next
    case (Cons a as)
    then have fa: "?f = a" "a \<noteq> 0" "a \<notin> set as" "p \<notin> set as" "p \<noteq> a" using d p f by (auto simp: dlist_def)
    have "dseg h' a as 0 \<longleftrightarrow> dseg h a as 0" by (rule dseg_cong) (use fa acc in auto)
    then show ?thesis using d p fa acc Cons by (auto simp: dlist_def h'_def)
  qed
  ultimately show thesis using that run by blast
qed

lemma dlist_vp: "dlist h fl \<Longrightarrow> vp (hd (ys @ [0]))" if "\<exists>xs. fl = xs @ ys"
  using that by (cases ys) (auto simp: dlist_def)

lemma last_vp: "dlist h (xs @ ys) \<Longrightarrow> vp (last (0 # xs))"
  by (cases xs rule: rev_cases) (auto simp: dlist_def)

lemma dseg_new_next:
  assumes "dseg h pv xs a" "distinct xs" "xs \<noteq> []"
    and "\<And>r. free_next h' r = (if r = last xs then Some b else free_next h r)"
    and "\<And>r. r \<in> set xs \<Longrightarrow> free_prev h' r = free_prev h r"
  shows "dseg h' pv xs b"
  using assms
proof (induction xs arbitrary: pv)
  case (Cons x xs)
  show ?case
  proof (cases xs)
    case Nil
    then show ?thesis using Cons.prems by simp
  next
    case c: (Cons y ys)
    then have "x \<noteq> last xs" using Cons.prems(2) by (metis distinct.simps(2) last_in_set list.discI)
    then show ?thesis using Cons.IH[of x] Cons.prems c by simp
  qed
qed simp

lemma dseg_new_prev:
  assumes "dseg h pv ys nx" "distinct ys"
    and "\<And>r. r \<in> set ys \<Longrightarrow> free_next h' r = free_next h r"
    and "\<And>r. r \<in> set ys \<Longrightarrow> free_prev h' r = (if r = hd ys then Some b else free_prev h r)"
  shows "dseg h' b ys nx"
proof (cases ys)
  case (Cons y zs)
  have "dseg h' y zs nx \<longleftrightarrow> dseg h y zs nx" by (rule dseg_cong) (use assms Cons in auto)
  then show ?thesis using assms Cons by simp
qed simp

lemma remove_free_block_run:
  assumes "free_prev h p = Some a" "free_next h p = Some b" "vp a" "vp b" "p \<noteq> a" "p \<noteq> b"
    and h1: "h1 = (if a \<noteq> 0 then w_fnext h a b else h\<lparr>hp_free_head := b\<rparr>)"
    and h2: "h2 = (if b \<noteq> 0 then w_fprev h1 b a else h1)"
  shows "remove_free_block h p = Some (w_fprev (w_fnext h2 p 0) p 0)"
proof -
  have "free_next h1 p = Some b" "free_prev h1 p = Some a" using assms(1-6) by (auto simp: h1 heap_simps)
  then show ?thesis using assms(1-4) unfolding remove_free_block_def
    by (cases "a = 0"; cases "b = 0") (simp_all add: setter_ok h1 h2)
qed

lemma remove_free_block_ok:
  assumes d: "dlist h (xs @ p # ys)"
  obtains h' where "remove_free_block h p = Some h'" "dlist h' (xs @ ys)" "same_blocks h h'"
proof -
  let ?a = "last (0 # xs)" and ?b = "hd (ys @ [0])"
  have va: "vp ?a" "vp ?b" using last_vp[OF d] dlist_vp[OF _ d, of ys] by auto
  have p: "free_prev h p = Some ?a" "free_next h p = Some ?b" "p \<noteq> 0" "vp p" "p \<notin> set xs" "p \<notin> set ys"
    "distinct (xs @ ys)" "dseg h 0 xs p" "dseg h p ys 0"
    using d by (auto simp: dlist_def dseg_append)
  have pa: "p \<noteq> ?a" "p \<noteq> ?b" "?b \<noteq> 0 \<Longrightarrow> ?b \<in> set ys" "?a \<noteq> 0 \<Longrightarrow> ?a \<in> set xs"
    using p(3,5,6) by (cases ys; auto)+
  have nz: "xs \<noteq> [] \<Longrightarrow> ?a \<noteq> 0" "ys \<noteq> [] \<Longrightarrow> ?b \<noteq> 0" using d by (cases ys; auto simp: dlist_def)+
  define h1 where "h1 = (if ?a \<noteq> 0 then w_fnext h ?a ?b else h\<lparr>hp_free_head := ?b\<rparr>)"
  define h2 where "h2 = (if ?b \<noteq> 0 then w_fprev h1 ?b ?a else h1)"
  define h' where "h' = w_fprev (w_fnext h2 p 0) p 0"
  have run: "remove_free_block h p = Some h'"
    unfolding h'_def by (rule remove_free_block_run[OF p(1,2) va pa(1,2) h1_def h2_def])
  have acc: "free_next h' r = (if r = p then Some 0 else if r = ?a \<and> ?a \<noteq> 0 then Some ?b else free_next h r)"
    "free_prev h' r = (if r = p then Some 0 else if r = ?b \<and> ?b \<noteq> 0 then Some ?a else free_prev h r)" for r
    using va pa by (auto simp: h'_def h2_def h1_def heap_simps)
  have sb: "same_blocks h h'" using va by (simp add: same_blocks_def h'_def h2_def h1_def heap_simps)
  have ny: "free_next h' r = free_next h r" if "r \<in> set ys" for r
  proof -
    have "set xs \<inter> set ys = {}" using p(7) by simp
    then have "\<not> (r = ?a \<and> ?a \<noteq> 0)" using that pa(4) by blast
    then show ?thesis using acc(1)[of r] that p(6) by auto
  qed
  have nx: "free_prev h' r = free_prev h r" if "r \<in> set xs" for r
  proof -
    have "set xs \<inter> set ys = {}" using p(7) by simp
    then have "\<not> (r = ?b \<and> ?b \<noteq> 0)" using that pa(3) by blast
    then show ?thesis using acc(2)[of r] that p(5) by auto
  qed
  have "dseg h' 0 xs ?b"
  proof (cases "xs = []")
    case False
    let ?g = "h'\<lparr>hdrs := (hdrs h')(p := hdrs h p)\<rparr>"
    have g: "free_next ?g r = (if r = p then free_next h p else free_next h' r)"
      "free_prev ?g r = (if r = p then free_prev h p else free_prev h' r)" for r
      by (simp_all add: acc_defs)
    have "dseg ?g 0 xs ?b"
      by (rule dseg_new_next[OF p(8)]) (use False p(2,5,7) nz(1) pa(1) acc(1) nx g in auto)
    moreover have "dseg h' 0 xs ?b \<longleftrightarrow> dseg ?g 0 xs ?b" by (rule dseg_cong) (use g p(5) in auto)
    ultimately show ?thesis by simp
  qed simp
  moreover have "dseg h' ?a ys 0"
  proof (cases ys)
    case (Cons y zs)
    then have "free_prev h' r = (if r = hd ys then Some ?a else free_prev h r)" if "r \<in> set ys" for r
      using acc(2)[of r] that p(6) nz(2) by auto
    then show ?thesis using dseg_new_prev[OF p(9)] p(7) ny by simp
  qed simp
  moreover have "hp_free_head h' = hd ((xs @ ys) @ [0])"
    using d nz by (cases xs) (auto simp: dlist_def h'_def h2_def h1_def heap_simps)
  ultimately have "dlist h' (xs @ ys)" using d by (auto simp: dlist_def dseg_append)
  then show thesis using that run sb by blast
qed

section \<open>The blocks\<close>

text \<open>
  A heap is abstracted to the list of its blocks, each a size and whether it is used, laid out
  from an address without gaps; \<open>pv\<close> is the block before the first.
\<close>

type_synonym block = "usize \<times> bool"

fun span :: "block list \<Rightarrow> usize" where
  "span [] = 0"
| "span ((n, u) # bs) = 16 + n + span bs"

fun lst :: "usize \<Rightarrow> usize \<Rightarrow> block list \<Rightarrow> usize" where
  "lst pv a [] = pv"
| "lst pv a ((n, u) # bs) = lst a (a + 16 + n) bs"

fun blocks :: "heap \<Rightarrow> usize \<Rightarrow> usize \<Rightarrow> block list \<Rightarrow> usize \<Rightarrow> bool" where
  "blocks h pv a [] e \<longleftrightarrow> a = e"
| "blocks h pv a ((n, u) # bs) e \<longleftrightarrow> blk_size h a = n \<and> blk_prev h a = Some pv \<and> is_free h a = (\<not> u) \<and>
     16 \<le> n \<and> 8 dvd n \<and> blocks h a (a + 16 + n) bs e"

fun addrs :: "usize \<Rightarrow> block list \<Rightarrow> usize set" where
  "addrs a [] = {}"
| "addrs a ((n, u) # bs) = insert a (addrs (a + 16 + n) bs)"

text \<open>The used and the free blocks, with their addresses.\<close>

fun used_blocks :: "usize \<Rightarrow> block list \<Rightarrow> (usize \<times> usize) set" where
  "used_blocks a [] = {}"
| "used_blocks a ((n, u) # bs) = (if u then {(a, n)} else {}) \<union> used_blocks (a + 16 + n) bs"

fun free_addrs :: "usize \<Rightarrow> block list \<Rightarrow> usize set" where
  "free_addrs a [] = {}"
| "free_addrs a ((n, u) # bs) = (if u then {} else {a}) \<union> free_addrs (a + 16 + n) bs"

lemma span_append [simp]: "span (xs @ ys) = span xs + span ys"
  by (induction xs rule: span.induct) simp_all

lemma lst_append [simp]: "lst pv a (xs @ ys) = lst (lst pv a xs) (a + span xs) ys"
  by (induction xs arbitrary: pv a rule: span.induct) (simp_all add: add.assoc)

lemma blocks_append:
  "blocks h pv a (xs @ ys) e \<longleftrightarrow> blocks h pv a xs (a + span xs) \<and> blocks h (lst pv a xs) (a + span xs) ys e"
  by (induction xs arbitrary: pv a rule: span.induct) (auto simp: add.assoc)

lemma addrs_append [simp]: "addrs a (xs @ ys) = addrs a xs \<union> addrs (a + span xs) ys"
  by (induction xs arbitrary: a rule: span.induct) (simp_all add: add.assoc)

lemma used_blocks_append [simp]: "used_blocks a (xs @ ys) = used_blocks a xs \<union> used_blocks (a + span xs) ys"
  by (induction xs arbitrary: a rule: span.induct) (auto simp: add.assoc)

lemma free_addrs_append [simp]: "free_addrs a (xs @ ys) = free_addrs a xs \<union> free_addrs (a + span xs) ys"
  by (induction xs arbitrary: a rule: span.induct) (auto simp: add.assoc)

lemma addrs_bounds: "q \<in> addrs a bs \<Longrightarrow> a \<le> q \<and> q + 16 \<le> a + span bs"
  by (induction bs arbitrary: a rule: span.induct) fastforce+

lemma free_addrs_sub: "free_addrs a bs \<subseteq> addrs a bs"
  by (induction bs arbitrary: a rule: span.induct) auto

lemma blocks_end: "blocks h pv a bs e \<Longrightarrow> e = a + span bs"
proof (induction bs arbitrary: pv a rule: span.induct)
  case (2 n u bs)
  then have "e = a + 16 + n + span bs" using "2.IH"[of a "a + 16 + n"] by simp
  then show ?case by simp
qed simp

lemma blocks_cong:
  assumes "\<And>q. q \<in> addrs a bs \<Longrightarrow> blk_size h' q = blk_size h q \<and> blk_prev h' q = blk_prev h q \<and> is_free h' q = is_free h q"
  shows "blocks h' pv a bs e \<longleftrightarrow> blocks h pv a bs e"
  using assms
proof (induction bs arbitrary: pv a)
  case (Cons b bs)
  obtain n u where b: "b = (n, u)" by (cases b)
  have "blocks h' a (a + 16 + n) bs e = blocks h a (a + 16 + n) bs e" by (rule Cons.IH) (use Cons.prems b in simp)
  then show ?case using Cons.prems[of a] b by simp
qed simp

lemma blocks_new_prev:
  assumes "blocks h pv a bs e"
    and "\<And>q. q \<in> addrs a bs \<Longrightarrow> blk_size h' q = blk_size h q \<and> is_free h' q = is_free h q \<and>
      blk_prev h' q = (if q = a then Some pv' else blk_prev h q)"
  shows "blocks h' pv' a bs e"
proof (cases bs)
  case (Cons b bs')
  obtain n u where b: "b = (n, u)" by (cases b)
  have "blocks h' a (a + 16 + n) bs' e \<longleftrightarrow> blocks h a (a + 16 + n) bs' e"
  proof (rule blocks_cong)
    fix q assume q: "q \<in> addrs (a + 16 + n) bs'"
    then have "q \<noteq> a" using addrs_bounds[OF q] by simp
    then show "blk_size h' q = blk_size h q \<and> blk_prev h' q = blk_prev h q \<and> is_free h' q = is_free h q"
      using assms(2)[of q] q Cons b by simp
  qed
  then show ?thesis using assms(1) assms(2)[of a] Cons b by simp
qed (use assms in simp)

lemma lst_in: "bs \<noteq> [] \<Longrightarrow> lst pv a bs \<in> addrs a bs"
proof (induction bs arbitrary: pv a)
  case (Cons b bs)
  obtain n u where b: "b = (n, u)" by (cases b)
  show ?case using Cons.IH[of a "a + 16 + n"] b by (cases "bs = []") auto
qed simp

text \<open>
  \<open>heap_rep h bs fl x\<close>: the heap's blocks are \<open>bs\<close>, from the start of the heap to its end, linked
  backwards; the free list is \<open>fl\<close> and holds exactly the free blocks, except those in \<open>x\<close>.
\<close>

definition heap_rep :: "heap \<Rightarrow> block list \<Rightarrow> usize list \<Rightarrow> usize set \<Rightarrow> bool" where
  "heap_rep h bs fl x \<longleftrightarrow> hp_head h = KERNEL_HEAP_START \<and> bs \<noteq> [] \<and>
     blocks h 0 KERNEL_HEAP_START bs (hp_end h) \<and> hp_end h < usize_bound \<and>
     hp_tail h = lst 0 KERNEL_HEAP_START bs \<and> dlist h fl \<and>
     set fl = free_addrs KERNEL_HEAP_START bs - x"

lemma heap_rep_end: "heap_rep h bs fl x \<Longrightarrow> KERNEL_HEAP_START + span bs < usize_bound"
  by (auto simp: heap_rep_def dest: blocks_end)

lemma blocks_dvd: "blocks h pv a bs e \<Longrightarrow> 8 dvd a \<Longrightarrow> q \<in> addrs a bs \<Longrightarrow> 8 dvd q"
proof (induction bs arbitrary: pv a rule: span.induct)
  case (2 n u bs)
  have "8 dvd a + 16 + n" using 2 by (auto intro!: dvd_add)
  then show ?case using "2.IH"[of a "a + 16 + n"] "2.prems" by (cases "q = a") auto
qed simp

lemma heap_addr:
  assumes "heap_rep h bs fl x" "q \<in> addrs KERNEL_HEAP_START bs"
  shows "vp q" "q \<noteq> 0" "8 dvd q" "q + 16 < usize_bound"
proof -
  have "8 dvd q" using assms blocks_dvd[of h 0 KERNEL_HEAP_START bs _ q] by (auto simp: heap_rep_def KERNEL_HEAP_START_def)
  moreover have "KERNEL_HEAP_START \<le> q" "q + 16 < usize_bound"
    using addrs_bounds[OF assms(2)] heap_rep_end[OF assms(1)] by auto
  ultimately show "vp q" "q \<noteq> 0" "8 dvd q" "q + 16 < usize_bound"
    by (auto simp: vp_def KERNEL_HEAP_START_def elim: dvd_trans[rotated])
qed

text \<open>The block at address \<open>p\<close>, between the blocks before and after it.\<close>

lemma heap_block:
  assumes "heap_rep h (xs @ (n, u) # ys) fl x" "p = KERNEL_HEAP_START + span xs"
  shows "blk_size h p = n" "is_free h p = (\<not> u)" "blk_prev h p = Some (lst 0 KERNEL_HEAP_START xs)"
    "16 \<le> n" "8 dvd n" "blk_next h p = Some (p + 16 + n)" "vp p" "p \<noteq> 0" "8 dvd p" "n < 2 ^ 30"
    "p + 16 + n + span ys = hp_end h" "hp_end h < usize_bound"
    "vp (lst 0 KERNEL_HEAP_START xs)" "p = hp_tail h \<longleftrightarrow> ys = []"
proof -
  have b: "blocks h (lst 0 KERNEL_HEAP_START xs) p ((n, u) # ys) (hp_end h)"
    using assms by (auto simp: heap_rep_def blocks_append)
  then show s: "blk_size h p = n" "is_free h p = (\<not> u)" "blk_prev h p = Some (lst 0 KERNEL_HEAP_START xs)"
    "16 \<le> n" "8 dvd n" by auto
  have pin: "p \<in> addrs KERNEL_HEAP_START (xs @ (n, u) # ys)" using assms by simp
  show "vp p" "p \<noteq> 0" "8 dvd p" using heap_addr[OF assms(1) pin] by auto
  show e: "p + 16 + n + span ys = hp_end h" "hp_end h < usize_bound"
    using blocks_end[OF b] assms(1) by (auto simp: heap_rep_def)
  then show "n < 2 ^ 30" using assms(2) by (simp add: KERNEL_HEAP_START_def usize_bound_def)
  show "blk_next h p = Some (p + 16 + n)" using e s(1)
    by (simp add: blk_next_def BLOCK_HEADER_SIZE_def uadd_def)
  show "vp (lst 0 KERNEL_HEAP_START xs)"
    using lst_in[of xs 0 KERNEL_HEAP_START] heap_addr(1)[OF assms(1)] by (cases "xs = []") auto
  have "hp_tail h = lst p (p + 16 + n) ys" using assms by (simp add: heap_rep_def add.assoc)
  then show "p = hp_tail h \<longleftrightarrow> ys = []"
    using lst_in[of ys p "p + 16 + n"] addrs_bounds[of "lst p (p + 16 + n) ys" "p + 16 + n" ys] by (cases "ys = []") auto
qed

lemma dlist_cong:
  assumes "dlist h fl" "hp_free_head h' = hp_free_head h"
    and "\<And>r. r \<in> set fl \<Longrightarrow> free_next h' r = free_next h r \<and> free_prev h' r = free_prev h r"
  shows "dlist h' fl"
  using assms dseg_cong[of fl h' h 0 0] by (simp add: dlist_def)

lemma addrs_before: "q \<in> addrs a xs \<Longrightarrow> q < a + span xs"
  using addrs_bounds by fastforce

lemma free_before: "q \<in> free_addrs a xs \<Longrightarrow> a \<le> q \<and> q < a + span xs"
  using free_addrs_sub addrs_bounds addrs_before by blast

text \<open>Replacing one block of the layout.\<close>

lemma blocks_middle:
  assumes "blocks h 0 s (xs @ (n, u) # ys) e" "p = s + span xs"
    and "\<And>q. q \<noteq> p \<Longrightarrow> blk_size h' q = blk_size h q \<and> blk_prev h' q = blk_prev h q \<and> is_free h' q = is_free h q"
    and "blk_size h' p = n" "blk_prev h' p = blk_prev h p" "is_free h' p = (\<not> u')"
  shows "blocks h' 0 s (xs @ (n, u') # ys) e"
proof -
  have "blocks h' 0 s xs p \<longleftrightarrow> blocks h 0 s xs p"
    by (rule blocks_cong) (use assms addrs_before in fastforce)
  moreover have "blocks h' p (p + 16 + n) ys e \<longleftrightarrow> blocks h p (p + 16 + n) ys e"
    by (rule blocks_cong) (use assms addrs_bounds in fastforce)
  ultimately show ?thesis using assms by (simp add: blocks_append)
qed

lemma take_block:
  assumes r: "heap_rep h (xs @ (n, False) # ys) fl {}" and p: "p = KERNEL_HEAP_START + span xs"
  obtains h' where "remove_free_block h p = Some h'"
    "heap_rep (set_used h' p) (xs @ (n, True) # ys) (remove1 p fl) {}"
proof -
  have "p \<in> set fl" using r p by (simp add: heap_rep_def)
  then obtain as cs where fl: "fl = as @ p # cs" "p \<notin> set as" by (meson split_list_first)
  have d: "dlist h (as @ p # cs)" using r fl by (simp add: heap_rep_def)
  then have nc: "p \<notin> set cs" by (auto simp: dlist_def)
  obtain h' where h': "remove_free_block h p = Some h'" "dlist h' (as @ cs)" "same_blocks h h'"
    using remove_free_block_ok[OF d] by blast
  let ?h = "set_used h' p"
  have sb: "blk_size ?h q = blk_size h q" "blk_prev ?h q = blk_prev h q" "is_free ?h q = (q \<noteq> p \<and> is_free h q)" for q
    using h'(3) by (simp_all add: same_blocks_def heap_simps)
  have rm: "remove1 p fl = as @ cs" using fl by (simp add: remove1_append)
  have "blocks ?h 0 KERNEL_HEAP_START (xs @ (n, True) # ys) (hp_end h)"
    by (rule blocks_middle[OF _ p, of h n False]) (use r sb heap_block(1)[OF r p] in \<open>auto simp: heap_rep_def\<close>)
  moreover have "dlist ?h (as @ cs)"
    by (rule dlist_cong[OF h'(2)]) (simp_all add: heap_simps)
  moreover have "set (as @ cs) = free_addrs KERNEL_HEAP_START (xs @ (n, True) # ys)"
  proof -
    have "set (as @ cs) = set fl - {p}" using fl nc by auto
    also have "\<dots> = free_addrs KERNEL_HEAP_START (xs @ (n, True) # ys)"
      using r p free_before[of p KERNEL_HEAP_START xs] free_before[of p "p + 16 + n" ys]
      by (auto simp: heap_rep_def add.assoc)
    finally show ?thesis .
  qed
  moreover have "hp_tail ?h = lst 0 KERNEL_HEAP_START (xs @ (n, True) # ys)"
    using r h'(3) by (simp add: heap_rep_def same_blocks_def heap_simps)
  ultimately have "heap_rep ?h (xs @ (n, True) # ys) (remove1 p fl) {}"
    using r h'(3) rm by (simp add: heap_rep_def same_blocks_def heap_simps)
  then show thesis using that h'(1) by blast
qed

text \<open>Cutting a free block in two.\<close>

lemma split_layout:
  assumes b: "blocks h 0 s (xs @ (n, False) # ys) e" and p: "p = s + span xs"
    and t: "16 \<le> t" "8 dvd t" "t + 32 \<le> n" and nb: "nb = p + 16 + t"
    and sz: "\<And>q. blk_size h' q = (if q = p then t else if q = nb then n - t - 16 else blk_size h q)"
    and pv: "\<And>q. blk_prev h' q = (if q = nb then Some p else if q = p + 16 + n \<and> ys \<noteq> [] then Some nb else blk_prev h q)"
    and fr: "\<And>q. is_free h' q = (q = nb \<or> is_free h q)"
  shows "blocks h' 0 s (xs @ (t, False) # (n - t - 16, False) # ys) e"
proof -
  have o: "blocks h 0 s xs p" "blocks h (lst 0 s xs) p ((n, False) # ys) e"
    using b p by (simp_all add: blocks_append)
  have "blocks h' 0 s xs p \<longleftrightarrow> blocks h 0 s xs p"
  proof (rule blocks_cong)
    fix q assume "q \<in> addrs s xs"
    then have "q < p" using addrs_before p by blast
    then show "blk_size h' q = blk_size h q \<and> blk_prev h' q = blk_prev h q \<and> is_free h' q = is_free h q"
      using sz pv fr nb by simp
  qed
  moreover have "blocks h' nb (p + 16 + n) ys e"
  proof (rule blocks_new_prev[of h p])
    show "blocks h p (p + 16 + n) ys e" using o by simp
    fix q assume q: "q \<in> addrs (p + 16 + n) ys"
    then have "p + 16 + n \<le> q" "ys \<noteq> []" using addrs_bounds by (blast, auto)
    then show "blk_size h' q = blk_size h q \<and> is_free h' q = is_free h q \<and>
      blk_prev h' q = (if q = p + 16 + n then Some nb else blk_prev h q)"
      using sz pv fr nb t(3) by auto
  qed
  moreover have "blocks h' (lst 0 s xs) p ((t, False) # (n - t - 16, False) # ys) e"
  proof -
    have e: "nb + 16 + (n - t - 16) = p + 16 + n" using nb t(3) by simp
    have "8 dvd n - t - 16" "16 \<le> n - t - 16" using t o(2) by (auto intro!: dvd_diff_nat)
    moreover have "blk_size h' p = t" "blk_prev h' p = Some (lst 0 s xs)" "is_free h' p"
      using sz[of p] pv[of p] fr[of p] o(2) nb by auto
    moreover have "blk_size h' nb = n - t - 16" "blk_prev h' nb = Some p" "is_free h' nb"
      using sz[of nb] pv[of nb] fr[of nb] nb by auto
    moreover have "p + 16 + t = nb" using nb by simp
    ultimately show ?thesis using t(1,2) \<open>blocks h' nb (p + 16 + n) ys e\<close> e by simp
  qed
  ultimately show ?thesis using o(1) p by (simp add: blocks_append)
qed

lemma align_up_to_eq:
  assumes "x + 2 ^ k < usize_bound" "k \<le> 63"
  shows "align_up_to x (2 ^ k) = Some ((x + 2 ^ k - 1) div 2 ^ k * 2 ^ k)"
proof -
  have "(x + 2 ^ k - 1) AND unot (2 ^ k - 1) = (x + 2 ^ k - 1) div 2 ^ k * 2 ^ k"
    by (rule and_unot_mask) (use assms in auto)
  moreover have "(1::nat) \<le> 2 ^ k" by simp
  then have "usub (x + 2 ^ k) 1 = Some (x + 2 ^ k - 1)" "usub (2 ^ k) 1 = Some (2 ^ k - 1)"
    by (simp_all only: usub_def trans_le_add2 if_True)
  ultimately show ?thesis using assms by (simp only: align_up_to_def uadd_ok bind.bind_lunit)
qed

lemma align_8:
  assumes "x + 8 < usize_bound"
  obtains t where "align_up_to x 8 = Some t" "x \<le> t" "t < x + 8" "8 dvd t"
  using align_up_to_eq[of x 3] round_up_props[of 8 x] assms by simp

lemma cut_block:
  assumes r: "heap_rep h (xs @ (n, False) # ys) fl {}" and p: "p = KERNEL_HEAP_START + span xs"
    and t: "16 \<le> t" "8 dvd t" "t + 32 \<le> n" and nb: "nb = p + 16 + t"
  obtains h1 h2 where "insert_free_block (put_hdr h nb (bh_new (n - t - 16) False)) nb = Some h1"
    "insert_after h1 p nb = Some h2"
    "heap_rep (set_size h2 p t) (xs @ (t, False) # (n - t - 16, False) # ys) (nb # fl) {}"
proof -
  let ?h0 = "put_hdr h nb (bh_new (n - t - 16) False)"
  note hb = heap_block[OF r p]
  have vnb: "vp nb" "nb \<noteq> 0" using hb(7,8,9,11,12) t nb by (auto simp: vp_def elim!: dvd_trans[rotated] intro!: dvd_add)
  have outside: "nb \<notin> addrs KERNEL_HEAP_START (xs @ (n, False) # ys)"
    using addrs_before[of nb KERNEL_HEAP_START xs] addrs_bounds[of nb "p + 16 + n" ys] nb p t
    by (auto simp: add.assoc)
  have nfl: "nb \<notin> set fl" using r outside free_addrs_sub by (auto simp: heap_rep_def)
  have d0: "dlist ?h0 fl" by (rule dlist_cong[of h]) (use r nfl in \<open>auto simp: heap_rep_def heap_simps\<close>)
  obtain h1 where h1: "insert_free_block ?h0 nb = Some h1" "dlist h1 (nb # fl)" "same_blocks ?h0 h1"
    using insert_free_block_ok[OF d0 nfl vnb(2,1)] by blast
  have k: "n - t - 16 < 2 ^ 32" using hb(10) by simp
  have s1: "blk_size h1 q = (if q = nb then n - t - 16 else blk_size h q)"
    "blk_prev h1 q = (if q = nb then Some 0 else blk_prev h q)"
    "is_free h1 q = (q = nb \<or> is_free h q)" "hp_head h1 = hp_head h" "hp_tail h1 = hp_tail h" "hp_end h1 = hp_end h" for q
    using h1(3) k by (auto simp: same_blocks_def heap_simps)
  have nx: "blk_next h1 p = Some (p + 16 + n)" using hb s1(1)[of p] nb by (simp add: blk_next_def)
  have tl: "p = hp_tail h1 \<longleftrightarrow> ys = []" using hb(14) s1(5) by simp
  define h2 where "h2 = w_prev (if p \<noteq> hp_tail h1 then w_prev h1 (p + 16 + n) nb else h1\<lparr>hp_tail := nb\<rparr>) nb p"
  have run2: "insert_after h1 p nb = Some h2"
    using vnb hb(7) nx by (auto simp: insert_after_def h2_def setter_ok heap_simps)
  let ?h3 = "set_size h2 p t"
  have t32: "t < 2 ^ 32" using hb(10) t by simp
  have s3: "blk_size ?h3 q = (if q = p then t else if q = nb then n - t - 16 else blk_size h q)"
    "blk_prev ?h3 q = (if q = nb then Some p else if q = p + 16 + n \<and> ys \<noteq> [] then Some nb else blk_prev h q)"
    "is_free ?h3 q = (q = nb \<or> is_free h q)" "hp_head ?h3 = hp_head h" "hp_end ?h3 = hp_end h"
    "hp_free_head ?h3 = hp_free_head h1"
    "free_next ?h3 q = free_next h1 q" "free_prev ?h3 q = free_prev h1 q" for q
    using vnb hb(7) t32 tl s1 by (auto simp: h2_def heap_simps)
  have "blocks ?h3 0 KERNEL_HEAP_START (xs @ (t, False) # (n - t - 16, False) # ys) (hp_end h)"
    by (rule split_layout[OF _ p t nb s3(1-3)]) (use r in \<open>simp add: heap_rep_def\<close>)
  moreover have "dlist ?h3 (nb # fl)" by (rule dlist_cong[OF h1(2)]) (simp_all add: s3)
  moreover have e: "nb + 16 + (n - t - 16) = p + 16 + n" using nb t(3) by simp
  moreover have "hp_tail ?h3 = lst 0 KERNEL_HEAP_START (xs @ (t, False) # (n - t - 16, False) # ys)"
  proof (cases ys)
    case Nil
    then show ?thesis using tl p nb by (simp add: h2_def heap_simps)
  next
    case (Cons y zs)
    obtain m v where "y = (m, v)" by (cases y)
    then show ?thesis using tl Cons r p nb e s1(5) by (simp add: h2_def heap_simps heap_rep_def add.assoc)
  qed
  moreover have "set (nb # fl) = free_addrs KERNEL_HEAP_START (xs @ (t, False) # (n - t - 16, False) # ys)"
    using r p nb e by (auto simp: heap_rep_def add.assoc)
  ultimately have "heap_rep ?h3 (xs @ (t, False) # (n - t - 16, False) # ys) (nb # fl) {}"
    using r s3 by (simp add: heap_rep_def)
  then show thesis using that h1(1) run2 by blast
qed

text \<open>\<open>split_block\<close> for a block used from its start: the rest is cut off if it can hold a block.\<close>

lemma split_exact_ok:
  assumes r: "heap_rep h (xs @ (n, False) # ys) fl {}" and p: "p = KERNEL_HEAP_START + span xs"
    and a: "align_up_to (max m 16) 8 = Some t" "16 \<le> t" "8 dvd t" "t \<le> n"
  shows "\<exists>h' t' zs fl'. split_exact h p m = Some (h', p + 16) \<and> t \<le> t' \<and>
    heap_rep h' (xs @ (t', True) # zs) fl' {} \<and> used_blocks (p + 16 + t') zs = used_blocks (p + 16 + n) ys"
proof -
  note hb = heap_block[OF r p]
  have p16: "uadd p 16 = Some (p + 16)" "uadd (p + 16) t = Some (p + 16 + t)"
    using hb(11,12) a(4) by (auto simp: uadd_def)
  show ?thesis
  proof (cases "32 \<le> n - t")
    case True
    let ?nb = "p + 16 + t"
    have t: "t + 32 \<le> n" using True by simp
    obtain h1 h2 where h: "insert_free_block (put_hdr h ?nb (bh_new (n - t - 16) False)) ?nb = Some h1"
      "insert_after h1 p ?nb = Some h2"
      "heap_rep (set_size h2 p t) (xs @ (t, False) # (n - t - 16, False) # ys) (?nb # fl) {}"
      using cut_block[OF r p a(2,3) t refl] by blast
    obtain h3 where h3: "remove_free_block (set_size h2 p t) p = Some h3"
      "heap_rep (set_used h3 p) (xs @ (t, True) # (n - t - 16, False) # ys) (remove1 p (?nb # fl)) {}"
      using take_block[OF h(3) p] by blast
    have "split_exact h p m = Some (set_used h3 p, p + 16)"
      using True h h3 hb(1) p16 a(1,4)
      by (simp add: split_exact_def MIN_BLOCK_SIZE_def MIN_ALLOC_SIZE_def BLOCK_HEADER_SIZE_def alloc_area_start_def)
    moreover have e: "p + 16 + t + 16 + (n - t - 16) = p + 16 + n" using t by simp
    have "used_blocks (p + 16 + t) ((n - t - 16, False) # ys) = used_blocks (p + 16 + n) ys"
      by (simp only: used_blocks.simps e if_False Un_empty_left)
    ultimately show ?thesis using h3(2) order_refl[of t] by blast
  next
    case False
    obtain h3 where h3: "remove_free_block h p = Some h3"
      "heap_rep (set_used h3 p) (xs @ (n, True) # ys) (remove1 p fl) {}"
      using take_block[OF r p] by blast
    have "split_exact h p m = Some (set_used h3 p, p + 16)"
      using False h3 hb(1) p16 a(1,4)
      by (simp add: split_exact_def MIN_BLOCK_SIZE_def MIN_ALLOC_SIZE_def BLOCK_HEADER_SIZE_def alloc_area_start_def)
    then show ?thesis using h3(2) a(4) by blast
  qed
qed

text \<open>The search visits the free list in order and returns.\<close>

lemma first_fit_find:
  assumes "dseg h pv fl 0" "\<forall>p \<in> set fl. p \<noteq> 0"
  shows "first_fit h need (hd (fl @ [0])) = Some (find (\<lambda>p. need \<le> blk_size h p) fl)"
  using assms
proof (induction fl arbitrary: pv)
  case Nil
  then show ?case by (simp add: first_fit.simps)
next
  case (Cons p fl)
  then have "first_fit h need (hd (fl @ [0])) = Some (find (\<lambda>p. need \<le> blk_size h p) fl)" by auto
  then show ?case using Cons.prems by (subst first_fit.simps) simp
qed

lemma free_block_split:
  assumes "p \<in> free_addrs a bs"
  shows "\<exists>xs n ys. bs = xs @ (n, False) # ys \<and> p = a + span xs"
  using assms
proof (induction bs arbitrary: a rule: span.induct)
  case (2 n u bs)
  show ?case
  proof (cases "p = a \<and> \<not> u")
    case True
    then show ?thesis by (intro exI[of _ "[]"] exI[of _ n] exI[of _ bs]) simp
  next
    case False
    then have "p \<in> free_addrs (a + 16 + n) bs" using "2.prems" by (auto split: if_splits)
    then obtain xs n' ys where "bs = xs @ (n', False) # ys" "p = a + 16 + n + span xs" using "2.IH" by blast
    then show ?thesis by (intro exI[of _ "(n, u) # xs"] exI[of _ n'] exI[of _ ys]) simp
  qed
qed simp

lemma used_addrs: "(p, n) \<in> used_blocks a bs \<Longrightarrow> p \<in> addrs a bs"
  by (induction bs arbitrary: a rule: span.induct) (auto split: if_splits)

text \<open>Used blocks do not overlap.\<close>

lemma used_blocks_disjoint:
  "(p, n) \<in> used_blocks a bs \<Longrightarrow> (q, k) \<in> used_blocks a bs \<Longrightarrow> (p, n) \<noteq> (q, k) \<Longrightarrow> p + 16 + n \<le> q \<or> q + 16 + k \<le> p"
proof (induction bs arbitrary: a rule: span.induct)
  case (2 m u bs)
  have ge: "b + 16 + m \<le> r" if "(r, l) \<in> used_blocks (b + 16 + m) bs" for r l b
    using used_addrs[OF that] addrs_bounds by blast
  show ?case using "2.prems" "2.IH"[of "a + 16 + m"] ge[of p n a] ge[of q k a] by (auto split: if_splits)
qed simp

lemma used_blocks_apart:
  "\<forall>b \<in> used_blocks a bs. \<forall>c \<in> used_blocks a bs. b \<noteq> c \<longrightarrow> fst b + 16 + snd b \<le> fst c \<or> fst c + 16 + snd c \<le> fst b"
proof (intro ballI impI)
  fix b c assume "b \<in> used_blocks a bs" "c \<in> used_blocks a bs" "b \<noteq> c"
  then show "fst b + 16 + snd b \<le> fst c \<or> fst c + 16 + snd c \<le> fst b"
    using used_blocks_disjoint[of "fst b" "snd b" a bs "fst c" "snd c"] by (simp add: prod_eq_iff)
qed


text \<open>A freshly initialised heap is one free block.\<close>

lemma heap_init_rep:
  assumes "32 \<le> sz" "8 dvd sz" "KERNEL_HEAP_START + sz < usize_bound"
  shows "\<exists>h'. heap_init h KERNEL_HEAP_START sz = Some h' \<and> heap_rep h' [(sz - 16, False)] [KERNEL_HEAP_START] {}"
proof -
  let ?h = "put_hdr h KERNEL_HEAP_START (bh_new (sz - 16) False)"
  let ?h' = "?h\<lparr>hp_head := KERNEL_HEAP_START, hp_tail := KERNEL_HEAP_START, hp_end := KERNEL_HEAP_START + sz,
    hp_free_head := KERNEL_HEAP_START\<rparr>"
  have acc: "blk_size ?h' q = blk_size ?h q" "blk_prev ?h' q = blk_prev ?h q" "is_free ?h' q = is_free ?h q"
    "free_next ?h' q = free_next ?h q" "free_prev ?h' q = free_prev ?h q" for q by (simp_all add: acc_defs)
  have "heap_init h KERNEL_HEAP_START sz = Some ?h'"
    using assms by (simp add: heap_init_def BLOCK_HEADER_SIZE_def)
  moreover have "sz - 16 < 2 ^ 32" using assms by (simp add: KERNEL_HEAP_START_def usize_bound_def)
  moreover have "vp KERNEL_HEAP_START" "KERNEL_HEAP_START \<noteq> 0"
    by (simp_all add: vp_def KERNEL_HEAP_START_def usize_bound_def)
  moreover have "8 dvd sz - 16" using assms(2) by (auto intro!: dvd_diff_nat)
  ultimately show ?thesis using assms acc
    by (intro exI[of _ ?h']) (simp add: heap_rep_def dlist_def heap_simps)
qed


section \<open>Freeing and coalescing\<close>

lemma merge_layout:
  assumes b: "blocks h 0 s (xs @ (n, u) # (k, v) # zs) e" and p: "p = s + span xs"
    and sz: "\<And>q. q \<noteq> p + 16 + n \<Longrightarrow> blk_size h' q = (if q = p then n + 16 + k else blk_size h q)"
    and pv: "\<And>q. q \<noteq> p + 16 + n \<Longrightarrow> blk_prev h' q = (if q = p + 16 + n + 16 + k \<and> zs \<noteq> [] then Some p else blk_prev h q)"
    and fr: "\<And>q. q \<noteq> p + 16 + n \<Longrightarrow> is_free h' q = is_free h q"
  shows "blocks h' 0 s (xs @ (n + 16 + k, u) # zs) e"
proof -
  have o: "blocks h 0 s xs p" "blocks h (lst 0 s xs) p ((n, u) # (k, v) # zs) e"
    using b p by (simp_all add: blocks_append)
  have "blocks h' 0 s xs p \<longleftrightarrow> blocks h 0 s xs p"
  proof (rule blocks_cong)
    fix q assume "q \<in> addrs s xs"
    then have "q < p" using addrs_before p by blast
    then show "blk_size h' q = blk_size h q \<and> blk_prev h' q = blk_prev h q \<and> is_free h' q = is_free h q"
      using sz pv fr by simp
  qed
  moreover have "blocks h' p (p + 16 + n + 16 + k) zs e"
  proof (rule blocks_new_prev[of h "p + 16 + n"])
    show "blocks h (p + 16 + n) (p + 16 + n + 16 + k) zs e" using o by simp
    fix q assume q: "q \<in> addrs (p + 16 + n + 16 + k) zs"
    then have "p + 16 + n + 16 + k \<le> q" "zs \<noteq> []" using addrs_bounds by (blast, auto)
    then show "blk_size h' q = blk_size h q \<and> is_free h' q = is_free h q \<and>
      blk_prev h' q = (if q = p + 16 + n + 16 + k then Some p else blk_prev h q)"
      using sz[of q] pv[of q] fr[of q] by auto
  qed
  moreover have "blk_size h' p = n + 16 + k" "blk_prev h' p = Some (lst 0 s xs)" "is_free h' p = (\<not> u)" "16 \<le> n" "8 dvd n" "8 dvd k"
    using sz[of p] pv[of p] fr[of p] o(2) by auto
  moreover have "8 dvd n + 16 + k" using calculation by (auto intro!: dvd_add)
  moreover have "p + 16 + (n + 16 + k) = p + 16 + n + 16 + k" by simp
  ultimately have "blocks h' (lst 0 s xs) p ((n + 16 + k, u) # zs) e" by (simp only: blocks.simps) simp
  then show ?thesis using \<open>blocks h' 0 s xs p \<longleftrightarrow> blocks h 0 s xs p\<close> o(1) p by (simp add: blocks_append)
qed

lemma heap_rep_block2:
  assumes "heap_rep h (xs @ (n, u) # (k, v) # zs) fl x" "p = KERNEL_HEAP_START + span xs" "c = p + 16 + n"
  shows "blk_size h c = k" "is_free h c = (\<not> v)" "blk_prev h c = Some p" "blk_next h c = Some (c + 16 + k)"
    "vp c" "c \<noteq> 0" "c = hp_tail h \<longleftrightarrow> zs = []" "n + 16 + k < 2 ^ 30"
proof -
  have r: "heap_rep h ((xs @ [(n, u)]) @ (k, v) # zs) fl x" using assms(1) by simp
  have c: "c = KERNEL_HEAP_START + span (xs @ [(n, u)])" using assms by simp
  show "blk_size h c = k" "is_free h c = (\<not> v)" "blk_prev h c = Some p" "blk_next h c = Some (c + 16 + k)"
    "vp c" "c \<noteq> 0" "c = hp_tail h \<longleftrightarrow> zs = []"
    using heap_block[OF r c] assms by simp_all
  show "n + 16 + k < 2 ^ 30"
    using heap_block(11,12)[OF r c] assms by (simp add: KERNEL_HEAP_START_def usize_bound_def)
qed

text \<open>Taking the block \<open>c\<close> out of the block list and growing the one before it over it.\<close>

lemma merge_rep:
  assumes r: "heap_rep h (xs @ (n, False) # (k, False) # zs) fl x" and p: "p = KERNEL_HEAP_START + span xs"
    and c: "c = p + 16 + n"
    and acc: "\<And>q. blk_size h' q = (if q = p then n + 16 + k else blk_size h q)"
      "\<And>q. blk_prev h' q = (if q = c + 16 + k \<and> zs \<noteq> [] then Some p else blk_prev h q)"
      "\<And>q. is_free h' q = is_free h q" "hp_head h' = hp_head h" "hp_end h' = hp_end h"
      "hp_tail h' = (if zs = [] then p else hp_tail h)"
    and fl: "dlist h' fl'" "set fl' = set fl - {c}" "x \<subseteq> {p, c}"
  shows "heap_rep h' (xs @ (n + 16 + k, False) # zs) fl' (x - {c})"
proof -
  have "blocks h' 0 KERNEL_HEAP_START (xs @ (n + 16 + k, False) # zs) (hp_end h)"
    by (rule merge_layout[of h _ _ _ _ k False, OF _ p]) (use r acc c in \<open>auto simp: heap_rep_def\<close>)
  moreover have "hp_tail h' = lst 0 KERNEL_HEAP_START (xs @ (n + 16 + k, False) # zs)"
  proof (cases zs)
    case Nil
    then show ?thesis using acc(6) p by simp
  next
    case (Cons y ys)
    obtain m v where "y = (m, v)" by (cases y)
    then show ?thesis using Cons r acc(6) p c by (simp add: heap_rep_def add.assoc)
  qed
  moreover have "set fl' = free_addrs KERNEL_HEAP_START (xs @ (n + 16 + k, False) # zs) - (x - {c})"
  proof -
    have e: "p + 16 + n + 16 + k = p + 16 + (n + 16 + k)" by simp
    have "c \<notin> free_addrs KERNEL_HEAP_START xs" "c \<notin> free_addrs (p + 16 + (n + 16 + k)) zs" "c \<noteq> p"
      using free_before[of c KERNEL_HEAP_START xs] free_before[of c "p + 16 + (n + 16 + k)" zs] c p by auto
    moreover have "set fl = (free_addrs KERNEL_HEAP_START xs \<union> {p, c} \<union> free_addrs (p + 16 + (n + 16 + k)) zs) - x"
      using r p c e by (auto simp: heap_rep_def add.assoc)
    ultimately show ?thesis using fl p by (auto simp: add.assoc)
  qed
  ultimately show ?thesis using r acc fl(1) by (simp add: heap_rep_def)
qed

lemma remove_from_list_ok:
  assumes "blk_next h c = Some nx" "blk_prev h c = Some p" "p \<noteq> 0" "vp p"
  shows "remove_from_list h c = Some (if c \<noteq> hp_tail h then w_prev h nx p else h\<lparr>hp_tail := p\<rparr>)"
  using assms by (simp add: remove_from_list_def setter_ok)

text \<open>Merging a freed block with the free block after it.\<close>

lemma merge_next:
  assumes r: "heap_rep h (xs @ (n, False) # (k, False) # zs) fl {p}" and p: "p = KERNEL_HEAP_START + span xs"
    and c: "c = p + 16 + n"
  shows "\<exists>h1 h2 h3. add_size h p (16 + k) = Some h1 \<and> remove_free_block h1 c = Some h2 \<and> remove_from_list h2 c = Some h3 \<and>
    heap_rep h3 (xs @ (n + 16 + k, False) # zs) (remove1 c fl) {p}"
proof -
  note hb = heap_block[OF r p] and hc = heap_rep_block2[OF r p c]
  let ?h1 = "set_size h p (n + 16 + k)"
  have k32: "n + 16 + k < 2 ^ 32" using hc(8) by simp
  have run1: "add_size h p (16 + k) = Some ?h1" using add_size_ok[of h p "16 + k"] hb(1) k32 by (simp add: add.assoc)
  have "c \<in> set fl" using r p c by (auto simp: heap_rep_def add.assoc)
  then obtain as cs where fl: "fl = as @ c # cs" "c \<notin> set as" by (meson split_list_first)
  have "dlist ?h1 (as @ c # cs)" by (rule dlist_cong[of h]) (use r fl in \<open>auto simp: heap_rep_def heap_simps\<close>)
  then obtain h2 where h2: "remove_free_block ?h1 c = Some h2" "dlist h2 (as @ cs)" "same_blocks ?h1 h2"
    using remove_free_block_ok by blast
  have nc: "c \<notin> set cs" using r fl by (auto simp: heap_rep_def dlist_def)
  have s2: "blk_size h2 q = (if q = p then n + 16 + k else blk_size h q)" "blk_prev h2 q = blk_prev h q"
    "is_free h2 q = is_free h q" "hp_head h2 = hp_head h" "hp_end h2 = hp_end h" "hp_tail h2 = hp_tail h" for q
    using h2(3) k32 by (simp_all add: same_blocks_def heap_simps)
  have "blk_next h2 c = Some (c + 16 + k)" using hc(4) s2(1)[of c] c by (simp add: blk_next_def)
  then have run3: "remove_from_list h2 c = Some (if c \<noteq> hp_tail h2 then w_prev h2 (c + 16 + k) p else h2\<lparr>hp_tail := p\<rparr>)"
    using remove_from_list_ok hc(3) s2(2) hb(7,8) by simp
  let ?h3 = "if c \<noteq> hp_tail h2 then w_prev h2 (c + 16 + k) p else h2\<lparr>hp_tail := p\<rparr>"
  have acc: "blk_size ?h3 q = (if q = p then n + 16 + k else blk_size h q)"
    "blk_prev ?h3 q = (if q = c + 16 + k \<and> zs \<noteq> [] then Some p else blk_prev h q)" "is_free ?h3 q = is_free h q"
    "hp_head ?h3 = hp_head h" "hp_end ?h3 = hp_end h" "hp_tail ?h3 = (if zs = [] then p else hp_tail h)" for q
    using hc(7) hb(7) s2 by (auto simp: heap_simps)
  have d3: "dlist ?h3 (as @ cs)" by (rule dlist_cong[OF h2(2)]) (auto simp: heap_simps)
  have rm: "remove1 c fl = as @ cs" "set (as @ cs) = set fl - {c}" using fl nc by (auto simp: remove1_append)
  have "heap_rep ?h3 (xs @ (n + 16 + k, False) # zs) (as @ cs) ({p} - {c})"
    by (rule merge_rep[OF r p c acc d3 rm(2)]) auto
  moreover have "{p} - {c} = {p}" using c by auto
  ultimately show ?thesis using run1 h2(1) run3 rm(1) by metis
qed

text \<open>Merging a freed block into the free block before it.\<close>

lemma merge_prev:
  assumes r: "heap_rep h (ws @ (k, False) # (n, False) # ys) fl {p}" and q: "q = KERNEL_HEAP_START + span ws"
    and p: "p = q + 16 + k"
  shows "\<exists>h1 h2. remove_from_list h p = Some h1 \<and> add_size h1 q (16 + n) = Some h2 \<and> blk_size h1 p = n \<and>
    heap_rep h2 (ws @ (k + 16 + n, False) # ys) fl {}"
proof -
  note hb = heap_block[OF r q] and hc = heap_rep_block2[OF r q p]
  let ?h1 = "if p \<noteq> hp_tail h then w_prev h (p + 16 + n) q else h\<lparr>hp_tail := q\<rparr>"
  have run1: "remove_from_list h p = Some ?h1" by (rule remove_from_list_ok) (use hc hb in auto)
  have k32: "k + 16 + n < 2 ^ 32" using hc(8) by simp
  have s1: "blk_size ?h1 x = blk_size h x" for x by (simp add: heap_simps)
  let ?h2 = "set_size ?h1 q (k + 16 + n)"
  have run2: "add_size ?h1 q (16 + n) = Some ?h2"
    using add_size_ok[of ?h1 q "16 + n"] s1[of q] hb(1) k32 by (simp add: add.assoc)
  have acc: "blk_size ?h2 x = (if x = q then k + 16 + n else blk_size h x)"
    "blk_prev ?h2 x = (if x = p + 16 + n \<and> ys \<noteq> [] then Some q else blk_prev h x)" "is_free ?h2 x = is_free h x"
    "hp_head ?h2 = hp_head h" "hp_end ?h2 = hp_end h" "hp_tail ?h2 = (if ys = [] then q else hp_tail h)" for x
    using hc(7) hb(7) k32 by (auto simp: heap_simps)
  have d2: "dlist ?h2 fl" by (rule dlist_cong[of h]) (use r in \<open>auto simp: heap_rep_def heap_simps\<close>)
  have "set fl = set fl - {p}" using r by (auto simp: heap_rep_def)
  then have "heap_rep ?h2 (ws @ (k + 16 + n, False) # ys) fl ({p} - {p})"
    by (intro merge_rep[OF r q p acc d2]) auto
  then show ?thesis using run1 run2 s1[of p] hc(1) by (intro exI[of _ ?h1] exI[of _ ?h2]) simp
qed

lemma set_free_rep:
  assumes r: "heap_rep h (xs @ (n, True) # ys) fl {}" and p: "p = KERNEL_HEAP_START + span xs"
  shows "heap_rep (set_free h p) (xs @ (n, False) # ys) fl {p}"
proof -
  let ?h = "set_free h p"
  have "blocks ?h 0 KERNEL_HEAP_START (xs @ (n, False) # ys) (hp_end h)"
    by (rule blocks_middle[OF _ p, of h n True]) (use r heap_block(1)[OF r p] in \<open>auto simp: heap_rep_def heap_simps\<close>)
  moreover have "dlist ?h fl" by (rule dlist_cong[of h]) (use r in \<open>auto simp: heap_rep_def heap_simps\<close>)
  moreover have "set fl = free_addrs KERNEL_HEAP_START (xs @ (n, False) # ys) - {p}"
    using r p free_before[of p KERNEL_HEAP_START xs] free_before[of p "p + 16 + n" ys]
    by (auto simp: heap_rep_def add.assoc)
  ultimately show ?thesis using r by (simp add: heap_rep_def heap_simps)
qed

lemma insert_rep:
  assumes r: "heap_rep h (xs @ (n, False) # ys) fl {p}" and p: "p = KERNEL_HEAP_START + span xs"
  shows "\<exists>h'. insert_free_block h p = Some h' \<and> heap_rep h' (xs @ (n, False) # ys) (p # fl) {}"
proof -
  have d: "dlist h fl" "p \<notin> set fl" using r by (auto simp: heap_rep_def)
  obtain h' where h': "insert_free_block h p = Some h'" "dlist h' (p # fl)" "same_blocks h h'"
    using insert_free_block_ok[OF d] heap_block(7,8)[OF r p] by blast
  have "blocks h' 0 KERNEL_HEAP_START (xs @ (n, False) # ys) (hp_end h) \<longleftrightarrow>
      blocks h 0 KERNEL_HEAP_START (xs @ (n, False) # ys) (hp_end h)"
    by (rule blocks_cong) (use h'(3) in \<open>auto simp: same_blocks_def\<close>)
  moreover have "set (p # fl) = free_addrs KERNEL_HEAP_START (xs @ (n, False) # ys)"
    using r p by (auto simp: heap_rep_def)
  ultimately have "heap_rep h' (xs @ (n, False) # ys) (p # fl) {}"
    using r h'(2,3) by (simp add: heap_rep_def same_blocks_def)
  then show ?thesis using h'(1) by blast
qed

lemma used_block_split:
  assumes "(p, n) \<in> used_blocks a bs"
  shows "\<exists>xs ys. bs = xs @ (n, True) # ys \<and> p = a + span xs"
  using assms
proof (induction bs arbitrary: a rule: span.induct)
  case (2 m u bs)
  show ?case
  proof (cases "u \<and> p = a \<and> n = m")
    case True
    then show ?thesis by (intro exI[of _ "[]"] exI[of _ bs]) simp
  next
    case False
    then have "(p, n) \<in> used_blocks (a + 16 + m) bs" using "2.prems" by (auto split: if_splits)
    then obtain xs ys where "bs = xs @ (n, True) # ys" "p = a + 16 + m + span xs" using "2.IH" by blast
    then show ?thesis by (intro exI[of _ "(m, u) # xs"] exI[of _ ys]) simp
  qed
qed simp

text \<open>No two adjacent blocks are free.\<close>

definition coalesced :: "block list \<Rightarrow> bool" where
  "coalesced bs \<longleftrightarrow> successively (\<lambda>a b. snd a \<or> snd b) bs"

text \<open>The forward half of \<open>dealloc_and_coalesce\<close>.\<close>

lemma coalesce_next:
  assumes r: "heap_rep h (xs @ (n, False) # ys) fl {p}" and p: "p = KERNEL_HEAP_START + span xs"
  shows "\<exists>h1 n1 zs fl1. blk_next h p = Some (p + 16 + n) \<and>
    (if p \<noteq> hp_tail h \<and> is_free h (p + 16 + n) then do {
       h \<leftarrow> add_size h p (BLOCK_HEADER_SIZE + blk_size h (p + 16 + n));
       h \<leftarrow> remove_free_block h (p + 16 + n);
       remove_from_list h (p + 16 + n)
     } else Some h) = Some h1 \<and> heap_rep h1 (xs @ (n1, False) # zs) fl1 {p} \<and>
    used_blocks (p + 16 + n1) zs = used_blocks (p + 16 + n) ys \<and>
    (coalesced ys \<longrightarrow> coalesced zs \<and> (zs = [] \<or> snd (hd zs)))"
proof -
  note hb = heap_block[OF r p]
  consider "ys = []" | k zs where "ys = (k, True) # zs" | k zs where "ys = (k, False) # zs"
    by (metis list.exhaust surj_pair)
  then show ?thesis
  proof cases
    case 1
    then show ?thesis using r hb(6,14) by (intro exI[of _ h] exI[of _ n] exI[of _ ys] exI[of _ fl]) simp
  next
    case (2 k zs)
    then have "\<not> is_free h (p + 16 + n)" using heap_rep_block2(2)[OF _ p refl, of h n False k True zs fl "{p}"] r by simp
    then show ?thesis using r hb(6) 2 by (intro exI[of _ h] exI[of _ n] exI[of _ ys] exI[of _ fl]) simp
  next
    case (3 k zs)
    note hc = heap_rep_block2[OF r[unfolded 3] p refl]
    obtain h1 h2 h3 where h: "add_size h p (16 + k) = Some h1" "remove_free_block h1 (p + 16 + n) = Some h2"
      "remove_from_list h2 (p + 16 + n) = Some h3"
      "heap_rep h3 (xs @ (n + 16 + k, False) # zs) (remove1 (p + 16 + n) fl) {p}"
      using merge_next[OF r[unfolded 3] p refl] by blast
    have e: "p + 16 + n + 16 + k = p + 16 + (n + 16 + k)" by simp
    have "used_blocks (p + 16 + (n + 16 + k)) zs = used_blocks (p + 16 + n) ys"
      unfolding 3 used_blocks.simps e by simp
    moreover have "coalesced ys \<longrightarrow> coalesced zs \<and> (zs = [] \<or> snd (hd zs))"
      using 3 by (cases zs) (auto simp: coalesced_def)
    ultimately show ?thesis using h hb(6,14) hc(1,2) 3
      by (intro exI[of _ h3] exI[of _ "n + 16 + k"] exI[of _ zs] exI[of _ "remove1 (p + 16 + n) fl"])
         (simp add: BLOCK_HEADER_SIZE_def)
  qed
qed

text \<open>The backward half.\<close>

lemma coalesce_prev:
  assumes r: "heap_rep h (xs @ (n, False) # ys) fl {p}" and p: "p = KERNEL_HEAP_START + span xs"
  shows "\<exists>prv h' bs fl'. blk_prev h p = Some prv \<and>
    (if prv \<noteq> 0 \<and> is_free h prv then do {
       h \<leftarrow> remove_from_list h p;
       add_size h prv (BLOCK_HEADER_SIZE + blk_size h p)
     } else insert_free_block h p) = Some h' \<and> heap_rep h' bs fl' {} \<and>
    used_blocks KERNEL_HEAP_START bs = used_blocks KERNEL_HEAP_START (xs @ (n, False) # ys) \<and>
    (coalesced xs \<and> coalesced ys \<and> (ys = [] \<or> snd (hd ys)) \<longrightarrow> coalesced bs)"
proof -
  note hb = heap_block[OF r p]
  obtain h' where ins: "insert_free_block h p = Some h'" "heap_rep h' (xs @ (n, False) # ys) (p # fl) {}"
    using insert_rep[OF r p] by blast
  consider "xs = []" | ws k where "xs = ws @ [(k, True)]" | ws k where "xs = ws @ [(k, False)]"
    by (metis rev_exhaust surj_pair)
  then show ?thesis
  proof cases
    case 1
    then have "coalesced ys \<and> (ys = [] \<or> snd (hd ys)) \<longrightarrow> coalesced (xs @ (n, False) # ys)"
      by (cases ys) (auto simp: coalesced_def)
    then show ?thesis using ins hb(3) 1 by (intro exI[of _ 0] exI[of _ h'] exI[of _ "xs @ (n, False) # ys"] exI[of _ "p # fl"]) simp
  next
    case (2 ws k)
    let ?q = "KERNEL_HEAP_START + span ws"
    have r2: "heap_rep h (ws @ (k, True) # (n, False) # ys) fl {p}" using r 2 by simp
    have "\<not> is_free h ?q" using heap_block(2)[OF r2 refl] by simp
    moreover have "coalesced xs \<and> coalesced ys \<and> (ys = [] \<or> snd (hd ys)) \<longrightarrow> coalesced (xs @ (n, False) # ys)"
      using 2 by (cases ys) (auto simp: coalesced_def successively_append_iff)
    moreover have "lst 0 KERNEL_HEAP_START xs = ?q" using 2 by simp
    ultimately show ?thesis using ins hb(3)
      by (intro exI[of _ ?q] exI[of _ h'] exI[of _ "xs @ (n, False) # ys"] exI[of _ "p # fl"]) simp
  next
    case (3 ws k)
    let ?q = "KERNEL_HEAP_START + span ws"
    have r2: "heap_rep h (ws @ (k, False) # (n, False) # ys) fl {p}" using r 3 by simp
    have pq: "p = ?q + 16 + k" using p 3 by simp
    obtain h1 h2 where m: "remove_from_list h p = Some h1" "add_size h1 ?q (16 + n) = Some h2" "blk_size h1 p = n"
      "heap_rep h2 (ws @ (k + 16 + n, False) # ys) fl {}" using merge_prev[OF r2 refl pq] by blast
    have "coalesced xs \<and> coalesced ys \<and> (ys = [] \<or> snd (hd ys)) \<longrightarrow> coalesced (ws @ (k + 16 + n, False) # ys)"
      using 3 by (cases ys; cases ws rule: rev_cases) (auto simp: coalesced_def successively_append_iff)
    moreover have "lst 0 KERNEL_HEAP_START xs = ?q" "?q \<noteq> 0" "is_free h ?q"
      using 3 heap_block(2,8)[OF r2 refl] by simp_all
    moreover have "?q + 16 + (k + 16 + n) = ?q + 16 + k + 16 + n" by simp
    ultimately show ?thesis using m hb(3) 3
      by (intro exI[of _ ?q] exI[of _ h2] exI[of _ "ws @ (k + 16 + n, False) # ys"] exI[of _ fl])
         (simp add: BLOCK_HEADER_SIZE_def add.assoc)
  qed
qed

text \<open>
  C21: Freeing a used block of a well-formed heap returns and keeps it well formed: exactly that block
  is no longer used, and it is merged with the free blocks on both sides, so that a heap without
  adjacent free blocks stays without them.
\<close>

theorem heap_dealloc_correct:
  assumes r: "heap_rep h bs fl {}" and u: "(p, n) \<in> used_blocks KERNEL_HEAP_START bs"
  shows "\<exists>h' bs' fl'. heap_dealloc h (p + 16) = Some h' \<and> heap_rep h' bs' fl' {} \<and>
    used_blocks KERNEL_HEAP_START bs' = used_blocks KERNEL_HEAP_START bs - {(p, n)} \<and>
    (coalesced bs \<longrightarrow> coalesced bs')"
proof -
  obtain xs ys where s: "bs = xs @ (n, True) # ys" "p = KERNEL_HEAP_START + span xs" using used_block_split[OF u] by blast
  let ?h0 = "set_free h p"
  have r0: "heap_rep ?h0 (xs @ (n, False) # ys) fl {p}" using set_free_rep r s by blast
  obtain h1 n1 zs fl1 where f: "blk_next ?h0 p = Some (p + 16 + n)"
    "(if p \<noteq> hp_tail ?h0 \<and> is_free ?h0 (p + 16 + n) then do {
       h \<leftarrow> add_size ?h0 p (BLOCK_HEADER_SIZE + blk_size ?h0 (p + 16 + n));
       h \<leftarrow> remove_free_block h (p + 16 + n);
       remove_from_list h (p + 16 + n)
     } else Some ?h0) = Some h1" "heap_rep h1 (xs @ (n1, False) # zs) fl1 {p}"
    "used_blocks (p + 16 + n1) zs = used_blocks (p + 16 + n) ys"
    "coalesced ys \<longrightarrow> coalesced zs \<and> (zs = [] \<or> snd (hd zs))"
    using coalesce_next[OF r0 s(2)] by blast
  obtain prv h' bs' fl' where b: "blk_prev h1 p = Some prv"
    "(if prv \<noteq> 0 \<and> is_free h1 prv then do {
       h \<leftarrow> remove_from_list h1 p;
       add_size h prv (BLOCK_HEADER_SIZE + blk_size h p)
     } else insert_free_block h1 p) = Some h'" "heap_rep h' bs' fl' {}"
    "used_blocks KERNEL_HEAP_START bs' = used_blocks KERNEL_HEAP_START (xs @ (n1, False) # zs)"
    "coalesced xs \<and> coalesced zs \<and> (zs = [] \<or> snd (hd zs)) \<longrightarrow> coalesced bs'"
    using coalesce_prev[OF f(3) s(2)] by blast
  have "p \<noteq> 0" using heap_block(8)[OF f(3) s(2)] .
  then have "heap_dealloc h (p + 16) = Some h'"
    unfolding heap_dealloc_def dealloc_and_coalesce_def using f(1,2) b(1,2)
    by (simp add: BLOCK_HEADER_SIZE_def)
  moreover have "used_blocks KERNEL_HEAP_START bs' = used_blocks KERNEL_HEAP_START bs - {(p, n)}"
  proof -
    have "(p, n) \<notin> used_blocks KERNEL_HEAP_START xs \<union> used_blocks (p + 16 + n) ys"
      using used_addrs[of p n KERNEL_HEAP_START xs] used_addrs[of p n "p + 16 + n" ys] s(2)
        addrs_before[of p KERNEL_HEAP_START xs] addrs_bounds[of p "p + 16 + n" ys] by auto
    then show ?thesis using b(4) f(4) s by auto
  qed
  moreover have "coalesced bs \<longrightarrow> coalesced bs'"
    using b(5) f(5) s(1) by (auto simp: coalesced_def successively_append_iff successively_Cons)
  ultimately show ?thesis using b(3) by blast
qed

theorem heap_dealloc_correct_witness:
  "\<exists>h h' bs' fl'. heap_rep h [(0x4000 - 16, True)] [] {} \<and> heap_dealloc h (KERNEL_HEAP_START + 16) = Some h' \<and>
     heap_rep h' bs' fl' {} \<and> used_blocks KERNEL_HEAP_START bs' = {}"
proof -
  obtain h where h: "heap_rep h [(0x4000 - 16, False)] [KERNEL_HEAP_START] {}"
    using heap_init_rep[of "0x4000" heap_new] by (auto simp: KERNEL_HEAP_START_def usize_bound_def)
  then have r: "heap_rep h ([] @ (0x4000 - 16, False) # []) [KERNEL_HEAP_START] {}" by simp
  obtain h1 where "heap_rep (set_used h1 KERNEL_HEAP_START) ([] @ (0x4000 - 16, True) # []) (remove1 KERNEL_HEAP_START [KERNEL_HEAP_START]) {}"
    using take_block[OF r, of KERNEL_HEAP_START] by auto
  then have r1: "heap_rep (set_used h1 KERNEL_HEAP_START) [(0x4000 - 16, True)] [] {}" by simp
  show ?thesis using heap_dealloc_correct[OF r1, of KERNEL_HEAP_START "0x4000 - 16"] r1 by fastforce
qed

section \<open>Allocations within a page\<close>

lemma next_pow2_from_ok:
  "\<exists>k. p = 2 ^ k \<Longrightarrow> \<exists>k. next_pow2_from n p = 2 ^ k \<and> n \<le> next_pow2_from n p"
proof (induction n p rule: next_pow2_from.induct)
  case (1 n p)
  then obtain k where k: "p = 2 ^ k" by blast
  show ?case
  proof (cases "n \<le> p \<or> p = 0")
    case True
    then show ?thesis using k by (subst (1 2) next_pow2_from.simps) auto
  next
    case False
    have "\<exists>j. 2 * p = 2 ^ j" using k by (intro exI[of _ "Suc k"]) simp
    then show ?thesis using "1.IH"[OF False] False by (subst (1 2) next_pow2_from.simps) simp
  qed
qed

text \<open>
  C22: A buffer shared with hardware lies in one page: an allocation with the layout that
  \<open>alloc_within_page\<close> computes, placed at any multiple of its alignment, has its first and its last
  byte in the same page, and sizes above a page are refused.
\<close>

theorem alloc_within_page_one_page:
  assumes "alloc_within_page_layout n = Some (sz, align)" "0 < n" "align dvd a"
  shows "sz = n \<and> n \<le> PAGE_SIZE \<and> a div PAGE_SIZE = (a + sz - 1) div PAGE_SIZE"
proof -
  have n: "n \<le> 4096" "sz = n" and al: "align = min (next_power_of_two n) 4096"
    using assms(1) by (auto simp: alloc_within_page_layout_def guard_assert_def PAGE_SIZE_def split: if_splits)
  obtain k where k: "next_power_of_two n = 2 ^ k" "n \<le> 2 ^ k"
    using next_pow2_from_ok[of 1 n] unfolding next_power_of_two_def by (metis power_0)
  have d: "align dvd 4096" "n \<le> align"
  proof -
    have "(2::nat) ^ k dvd 2 ^ 12" if "k \<le> 12" using that by (rule le_imp_power_dvd)
    moreover have "min ((2::nat) ^ k) 4096 = 4096" if "\<not> k \<le> 12"
      using that power_increasing[of 12 k "2::nat"] by simp
    ultimately show "align dvd 4096" using al k(1) by (cases "k \<le> 12") (auto simp: min_def)
    show "n \<le> align" using al k n(1) by simp
  qed
  obtain q where "a = align * q" using assms(3) by (rule dvdE)
  moreover obtain r where "4096 = align * r" using d(1) by (rule dvdE)
  ultimately have "a = align * q" "4096 = align * r" by simp_all
  moreover from this have "a div 4096 = q div r" using d(2) assms(2) by (simp only: div_mult_mult1)
  moreover have "(a + n - 1) div align = q"
    using \<open>a = align * q\<close> d(2) assms(2) by (intro div_nat_eqI) auto
  then have "(a + n - 1) div (align * r) = q div r" by (simp only: div_mult2_eq)
  then have "(a + n - 1) div 4096 = q div r" using \<open>4096 = align * r\<close> by (simp only:)
  ultimately show ?thesis using n by (simp add: PAGE_SIZE_def)
qed

theorem alloc_within_page_one_page_witness:
  "alloc_within_page_layout 100 = Some (100, 128) \<and> (0x1f80::nat) div PAGE_SIZE = (0x1f80 + 100 - 1) div PAGE_SIZE"
proof -
  have l: "alloc_within_page_layout 100 = Some (100, 128)" by code_simp
  show ?thesis using alloc_within_page_one_page[OF l, of "0x1f80"] l by simp
qed

section \<open>Two defects\<close>

declare first_fit.simps [code] first_aligned_fit.simps [code] aligned_loop.simps [code]

text \<open>
  An aligned allocation inside a freed hole, then the block after the hole is freed and a large
  block is requested.
\<close>

definition stale_prev_run :: "(usize \<times> usize) option" where
  "stale_prev_run = do {
     h \<leftarrow> heap_init heap_new KERNEL_HEAP_START 0x4000;
     (h, b) \<leftarrow> heap_alloc (\<lambda>_. None) h 512 8;
     (h, c) \<leftarrow> heap_alloc (\<lambda>_. None) h 64 8;
     h \<leftarrow> heap_dealloc h b;
     (h, d) \<leftarrow> heap_alloc (\<lambda>_. None) h 64 128;
     h \<leftarrow> heap_dealloc h c;
     (h, e) \<leftarrow> heap_alloc (\<lambda>_. None) h 1000 8;
     Some (d, e)
   }"


text \<open>
  When the heap has to grow and its last block is used, an allocation of 4072 bytes panics
  although memory is available: \<open>find_fit\<close> asks for a page, and \<open>check_aligned_fit\<close> refuses the new
  block because it reserves room for a second header.
\<close>

theorem growth_can_panic:
  "(case do { h \<leftarrow> heap_init heap_new KERNEL_HEAP_START 0x4000; heap_alloc (\<lambda>_. None) h 16368 8 } of
      None \<Rightarrow> False
    | Some (h, a) \<Rightarrow>
        heap_alloc (\<lambda>sz. Some (KERNEL_HEAP_START + 0x4000, (sz + 4095) div 4096 * 4096)) h 4072 8 = None)"
  by code_simp

end
