(* ===== verification/Block_Layer.thy ===== *)
theory Block_Layer
  imports Bytes "HOL-Library.Sublist"
begin

text \<open>
  The block layer above the drivers: buffer validation (\<open>src/src/drivers/block.rs\<close>), the LRU cache
  (\<open>src/src/collections/lru.rs\<close>), the partition table (\<open>src/src/block/partition.rs\<close>), volumes
  (\<open>src/src/block/volume/\<close>, \<open>src/src/block/disk/mod.rs\<close>) and the block cache (\<open>src/src/block/cache.rs\<close>).
  The device is an argument: the data a read of so many bytes from a 32-bit sector number returns.
\<close>

unbundle bit_operations_syntax

section \<open>Drivers\<close>

datatype block_error = Timeout | IoError | InvalidInput

definition BLOCK_SIZE :: usize where "BLOCK_SIZE = 512"
definition BLOCK_PAGE_SIZE :: usize where "BLOCK_PAGE_SIZE = 4096"

text \<open>\<open>validate_read_buffer\<close> of the buffer of \<open>len\<close> bytes at \<open>addr\<close>.\<close>

definition validate_read_buffer :: "usize \<Rightarrow> usize \<Rightarrow> (block_error + u32) option" where
  "validate_read_buffer addr len =
     (if len = 0 \<or> len mod BLOCK_SIZE \<noteq> 0 then Some (Inl InvalidInput)
      else if addr mod BLOCK_SIZE \<noteq> 0 then Some (Inl InvalidInput)
      else do {
        let start_page = addr div BLOCK_PAGE_SIZE;
        a \<leftarrow> uadd addr len;
        b \<leftarrow> usub a 1;
        let end_page = b div BLOCK_PAGE_SIZE;
        if start_page \<noteq> end_page then Some (Inl InvalidInput)
        else Some (Inr (word_of_nat (len div BLOCK_SIZE)))
      })"

section \<open>The LRU cache\<close>

text \<open>
  The front of \<open>lru_slots\<close> is the most recently used entry. \<open>strong_count\<close> is the reference count of
  a value at the time of the call.
\<close>

record ('k, 'v) lru =
  lru_slots :: "('k \<times> 'v) list"
  lru_capacity :: usize

definition lru_new :: "usize \<Rightarrow> ('k, 'v) lru" where
  "lru_new c = \<lparr>lru_slots = [], lru_capacity = c\<rparr>"

definition remove_at :: "nat \<Rightarrow> 'a list \<Rightarrow> 'a list" where
  "remove_at i xs = take i xs @ drop (Suc i) xs"

definition lru_get :: "('k, 'v) lru \<Rightarrow> 'k \<Rightarrow> ('k, 'v) lru \<times> 'v option" where
  "lru_get c key = (case position (\<lambda>e. fst e = key) (lru_slots c) of
     None \<Rightarrow> (c, None)
   | Some pos \<Rightarrow>
       let entry = lru_slots c ! pos in
       (c\<lparr>lru_slots := entry # remove_at pos (lru_slots c)\<rparr>, Some (snd entry)))"

fun lru_evict :: "('v \<Rightarrow> nat) \<Rightarrow> nat \<Rightarrow> nat \<Rightarrow> ('k \<times> 'v) list \<Rightarrow> ('k \<times> 'v) list" where
  "lru_evict strong_count needed 0 slots = slots"
| "lru_evict strong_count needed (Suc i) slots =
     (if needed = 0 then slots
      else if strong_count (snd (slots ! i)) = 1
      then lru_evict strong_count (needed - 1) i (remove_at i slots)
      else lru_evict strong_count needed i slots)"

definition lru_insert :: "('v \<Rightarrow> nat) \<Rightarrow> ('k, 'v) lru \<Rightarrow> 'k \<Rightarrow> 'v \<Rightarrow> ('k, 'v) lru" where
  "lru_insert strong_count c key v =
     (let needed = (length (lru_slots c) + 1) - lru_capacity c;
          slots = lru_evict strong_count needed (length (lru_slots c)) (lru_slots c)
      in c\<lparr>lru_slots := (key, v) # slots\<rparr>)"

section \<open>The partition table\<close>

record partition =
  part_number :: nat
  lba_start :: u32
  num_sectors :: u32

definition MBR_SIGNATURE :: u16 where "MBR_SIGNATURE = 0xaa55"
definition MBR_SIGNATURE_OFFSET :: usize where "MBR_SIGNATURE_OFFSET = 510"
definition MBR_PARTITION_TABLE_OFFSET :: usize where "MBR_PARTITION_TABLE_OFFSET = 446"
definition MBR_PARTITION_ENTRY_SIZE :: usize where "MBR_PARTITION_ENTRY_SIZE = 16"
definition PARTITION_TYPE_OFFSET :: usize where "PARTITION_TYPE_OFFSET = 4"
definition PARTITION_LBA_OFFSET :: usize where "PARTITION_LBA_OFFSET = 8"
definition PARTITION_SECTORS_OFFSET :: usize where "PARTITION_SECTORS_OFFSET = 12"

definition parse_mbr_entry :: "u8 list \<Rightarrow> nat \<Rightarrow> partition list option" where
  "parse_mbr_entry block0 i = do {
     let offset = MBR_PARTITION_TABLE_OFFSET + i * MBR_PARTITION_ENTRY_SIZE;
     entry_bytes \<leftarrow> slice block0 offset (offset + MBR_PARTITION_ENTRY_SIZE);
     partition_type \<leftarrow> list_get entry_bytes PARTITION_TYPE_OFFSET;
     lba \<leftarrow> slice entry_bytes PARTITION_LBA_OFFSET (PARTITION_LBA_OFFSET + 4);
     num \<leftarrow> slice entry_bytes PARTITION_SECTORS_OFFSET (PARTITION_SECTORS_OFFSET + 4);
     let lba_start = (word_of_nat (le_nat lba) :: u32);
     let num_sectors = (word_of_nat (le_nat num) :: u32);
     if partition_type = 0 \<and> num_sectors = 0 then Some []
     else Some [\<lparr>part_number = i + 1, lba_start = lba_start, num_sectors = num_sectors\<rparr>]
   }"

definition parse_mbr :: "u8 list \<Rightarrow> partition list option" where
  "parse_mbr block0 = do {
     sg \<leftarrow> slice block0 MBR_SIGNATURE_OFFSET (MBR_SIGNATURE_OFFSET + 2);
     let signature = (word_of_nat (le_nat sg) :: u16);
     if signature \<noteq> MBR_SIGNATURE then Some []
     else do {
       p1 \<leftarrow> parse_mbr_entry block0 0;
       p2 \<leftarrow> parse_mbr_entry block0 1;
       p3 \<leftarrow> parse_mbr_entry block0 2;
       p4 \<leftarrow> parse_mbr_entry block0 3;
       Some (p1 @ p2 @ p3 @ p4)
     }
   }"

section \<open>Volumes\<close>

type_synonym device = "u32 \<Rightarrow> usize \<Rightarrow> block_error + u8 list"

definition CACHE_BLOCK_SIZE :: usize where "CACHE_BLOCK_SIZE = 4096"

text \<open>\<open>BlockDisk::read_blocks\<close>: the block address is truncated to 32 bits.\<close>

definition disk_read_blocks :: "device \<Rightarrow> u64 \<Rightarrow> usize \<Rightarrow> block_error + u8 list" where
  "disk_read_blocks dev lba len = dev (ucast lba) len"

definition whole_disk_read_blocks :: "device \<Rightarrow> u64 \<Rightarrow> usize \<Rightarrow> block_error + u8 list" where
  "whole_disk_read_blocks dev lba len = disk_read_blocks dev lba len"

definition whole_disk_size_blocks :: u64 where
  "whole_disk_size_blocks = 0xFFFFFFFFFFFFFFFF"

text \<open>The sum in the bounds check is a checked 64-bit addition.\<close>

definition partition_read_blocks :: "device \<Rightarrow> partition \<Rightarrow> u64 \<Rightarrow> usize \<Rightarrow> (block_error + u8 list) option" where
  "partition_read_blocks dev p lba len = do {
     let sectors = len div BLOCK_SIZE;
     s \<leftarrow> uadd (unat lba) sectors;
     if s > unat (num_sectors p) then Some (Inl InvalidInput)
     else do {
       d \<leftarrow> uadd (unat (lba_start p)) (unat lba);
       Some (disk_read_blocks dev (word_of_nat d) len)
     }
   }"

definition partition_size_blocks :: "partition \<Rightarrow> u64" where
  "partition_size_blocks p = ucast (num_sectors p)"

text \<open>
  The default \<open>get_block\<close> of a volume with the read function \<open>read\<close>. A block buffer has an identity,
  on which its reference count depends.
\<close>

record block_buf =
  bb_id :: nat
  bb_data :: "u8 list"

definition volume_get_block ::
  "(u64 \<Rightarrow> usize \<Rightarrow> (block_error + u8 list) option) \<Rightarrow> nat \<Rightarrow> u64 \<Rightarrow> (block_error + block_buf) option" where
  "volume_get_block read fresh lba = do {
     r \<leftarrow> read lba CACHE_BLOCK_SIZE;
     Some (case r of Inl e \<Rightarrow> Inl e | Inr data \<Rightarrow> Inr \<lparr>bb_id = fresh, bb_data = data\<rparr>)
   }"

section \<open>The block cache\<close>

definition CACHE_CAPACITY :: usize where "CACHE_CAPACITY = 16"

type_synonym block_cache = "(u64, block_buf) lru"

definition cache_new :: block_cache where
  "cache_new = lru_new CACHE_CAPACITY"

text \<open>
  \<open>get_block\<close> takes the cache's lock twice: to look up, and after the read to insert. Between the
  two other threads may use the cache.
\<close>

definition cache_lookup :: "block_cache \<Rightarrow> u64 \<Rightarrow> block_cache \<times> block_buf option" where
  "cache_lookup c lba = lru_get c lba"

definition cache_fill :: "(block_buf \<Rightarrow> nat) \<Rightarrow> block_cache \<Rightarrow> u64 \<Rightarrow> block_buf \<Rightarrow> block_cache" where
  "cache_fill strong_count c lba buf = lru_insert strong_count c lba buf"

definition cached_get_block ::
  "(u64 \<Rightarrow> usize \<Rightarrow> (block_error + u8 list) option) \<Rightarrow> nat \<Rightarrow> (block_buf \<Rightarrow> nat) \<Rightarrow> block_cache \<Rightarrow> u64 \<Rightarrow>
   (block_cache \<times> (block_error + block_buf)) option" where
  "cached_get_block read fresh strong_count c lba =
     (case cache_lookup c lba of
        (c', Some buf) \<Rightarrow> Some (c', Inr buf)
      | (c', None) \<Rightarrow> do {
          r \<leftarrow> volume_get_block read fresh lba;
          (case r of
             Inl e \<Rightarrow> Some (c', Inl e)
           | Inr buf \<Rightarrow> Some (cache_fill strong_count c' lba buf, Inr buf))
        })"

section \<open>The LRU cache keeps recent and pinned entries\<close>

text \<open>Dropping \<open>n\<close> unpinned entries from the front of a list, the reference for the backward pass.\<close>

fun drop_unpinned :: "('a \<Rightarrow> bool) \<Rightarrow> nat \<Rightarrow> 'a list \<Rightarrow> 'a list" where
  "drop_unpinned unpinned n [] = []"
| "drop_unpinned unpinned n (x # xs) =
     (if n = 0 then x # xs else if unpinned x then drop_unpinned unpinned (n - 1) xs
      else x # drop_unpinned unpinned n xs)"

lemma remove_at_append: "length xs = i \<Longrightarrow> remove_at i (xs @ y # ys) = xs @ ys"
  by (simp add: remove_at_def)

lemma drop_unpinned_0 [simp]: "drop_unpinned u 0 xs = xs"
  by (cases xs) simp_all

lemma lru_evict_eq:
  "length xs = i \<Longrightarrow> lru_evict sc n i (xs @ ys) = rev (drop_unpinned (\<lambda>e. sc (snd e) = 1) n (rev xs)) @ ys"
proof (induction i arbitrary: xs ys n)
  case (Suc i)
  obtain zs z where xs: "xs = zs @ [z]" "length zs = i" using Suc.prems by (cases xs rule: rev_cases) auto
  have z: "(xs @ ys) ! i = z" using xs by (simp add: nth_append)
  have r: "remove_at i (xs @ ys) = zs @ ys" using xs remove_at_append[of zs i z ys] by simp
  show ?case
  proof (cases "n = 0")
    case True
    then show ?thesis by simp
  next
    case False
    then show ?thesis using Suc.IH[OF xs(2), of "n - 1" ys] Suc.IH[OF xs(2), of n "z # ys"] z r xs by simp
  qed
qed simp

lemma subseq_rev_mono: "subseq xs ys \<Longrightarrow> subseq (rev xs) (rev ys)"
  by (induction rule: list_emb.induct) (auto intro: subseq_rev_drop_many list_emb_append_mono)

lemma subseq_subset: "subseq xs ys \<Longrightarrow> set xs \<subseteq> set ys"
  by (induction rule: list_emb.induct) auto

lemma drop_unpinned_subseq: "subseq (drop_unpinned u n xs) xs"
  by (induction xs arbitrary: n) auto

lemma drop_unpinned_pinned: "filter (\<lambda>x. \<not> u x) (drop_unpinned u n xs) = filter (\<lambda>x. \<not> u x) xs"
  by (induction xs arbitrary: n) auto

lemma drop_unpinned_length: "length (drop_unpinned u n xs) = length xs - min n (length (filter u xs))"
proof (induction xs arbitrary: n)
  case (Cons x xs)
  have "length (filter u xs) \<le> length xs" by simp
  then show ?case using Cons by (cases n) (auto simp: min_def simp del: length_filter_le)
qed simp

lemma drop_unpinned_all: "\<forall>x \<in> set xs. u x \<Longrightarrow> drop_unpinned u n xs = drop n xs"
  by (induction xs arbitrary: n) (auto simp: drop_Cons')

lemma lru_insert_slots:
  "lru_slots (lru_insert sc c k v) = (k, v) #
     rev (drop_unpinned (\<lambda>e. sc (snd e) = 1) ((length (lru_slots c) + 1) - lru_capacity c) (rev (lru_slots c)))"
  using lru_evict_eq[of "lru_slots c" "length (lru_slots c)" sc _ "[]"] by (simp add: lru_insert_def Let_def)

lemma lru_insert_subseq: "subseq (tl (lru_slots (lru_insert sc c k v))) (lru_slots c)"
  using subseq_rev_mono[OF drop_unpinned_subseq, of _ _ "rev (lru_slots c)"] by (simp add: lru_insert_slots)

text \<open>
  C24: Inserting puts the new entry in front and keeps the order of the others; entries that are
  referenced from outside are never evicted; the cache is over capacity only by pinned entries; and
  without pinned entries exactly the least recently used ones beyond the capacity go.
\<close>

theorem lru_insert_spec:
  "lru_slots (lru_insert sc c k v) = (k, v) # tl (lru_slots (lru_insert sc c k v)) \<and>
   subseq (tl (lru_slots (lru_insert sc c k v))) (lru_slots c) \<and>
   filter (\<lambda>e. sc (snd e) \<noteq> 1) (tl (lru_slots (lru_insert sc c k v))) = filter (\<lambda>e. sc (snd e) \<noteq> 1) (lru_slots c) \<and>
   length (lru_slots (lru_insert sc c k v)) \<le> max (max 1 (lru_capacity c)) (1 + length (filter (\<lambda>e. sc (snd e) \<noteq> 1) (lru_slots c))) \<and>
   ((\<forall>e \<in> set (lru_slots c). sc (snd e) = 1) \<and> 0 < lru_capacity c \<longrightarrow>
      lru_slots (lru_insert sc c k v) = (k, v) # take (lru_capacity c - 1) (lru_slots c))"
proof -
  let ?u = "\<lambda>e :: 'a \<times> 'b. sc (snd e) = 1" and ?xs = "lru_slots c"
  let ?n = "(length ?xs + 1) - lru_capacity c"
  let ?r = "rev (drop_unpinned ?u ?n (rev ?xs))"
  have r: "lru_slots (lru_insert sc c k v) = (k, v) # ?r" by (rule lru_insert_slots)
  have "subseq ?r ?xs" using lru_insert_subseq[of sc c k v] by (simp add: r)
  moreover have "filter (\<lambda>e. \<not> ?u e) ?r = filter (\<lambda>e. \<not> ?u e) ?xs"
    using drop_unpinned_pinned[of ?u ?n "rev ?xs"] by (metis rev_filter rev_rev_ident)
  moreover have "length ?r + 1 \<le> max (max 1 (lru_capacity c)) (1 + length (filter (\<lambda>e. \<not> ?u e) ?xs))"
  proof -
    have "length (filter ?u ?xs) + length (filter (\<lambda>e. \<not> ?u e) ?xs) = length ?xs" by (rule sum_length_filter_compl)
    moreover have "length ?r = length ?xs - min ?n (length (filter ?u ?xs))"
      using drop_unpinned_length[of ?u ?n "rev ?xs"] by (simp add: rev_filter[symmetric])
    ultimately show ?thesis by linarith
  qed
  moreover have "?r = take (lru_capacity c - 1) ?xs" if "\<forall>e \<in> set ?xs. ?u e" "0 < lru_capacity c"
    using drop_unpinned_all[of "rev ?xs" ?u ?n] that by (cases "lru_capacity c \<le> length ?xs") (simp_all add: rev_drop)
  ultimately show ?thesis unfolding r by simp
qed

theorem lru_insert_spec_witness:
  "lru_slots (lru_insert (\<lambda>_. 1) \<lparr>lru_slots = [(1::nat, 10::nat), (2, 20)], lru_capacity = 2\<rparr> 3 30) = [(3, 30), (1, 10)]"
  using lru_insert_spec[of "\<lambda>_. 1" "\<lparr>lru_slots = [(1::nat, 10::nat), (2, 20)], lru_capacity = 2\<rparr>" 3 30] by simp

lemma lru_get_props:
  assumes "lru_get c key = (c', r)"
  shows "set (lru_slots c') = set (lru_slots c)" "lru_capacity c' = lru_capacity c"
    "r = Some v \<Longrightarrow> (key, v) \<in> set (lru_slots c)" "r = None \<longleftrightarrow> (\<forall>e \<in> set (lru_slots c). fst e \<noteq> key)"
    "r = Some v \<Longrightarrow> lru_slots c' \<noteq> [] \<and> hd (lru_slots c') = (key, v)"
proof -
  have split: "set (xs ! i # remove_at i xs) = set xs" if "i < length xs" for i and xs :: "('a \<times> 'b) list"
    using arg_cong[OF id_take_nth_drop[OF that], of set] by (auto simp: remove_at_def)
  have "set (lru_slots c') = set (lru_slots c) \<and> lru_capacity c' = lru_capacity c \<and>
    (\<forall>v. r = Some v \<longrightarrow> (key, v) \<in> set (lru_slots c)) \<and> (r = None \<longleftrightarrow> (\<forall>e \<in> set (lru_slots c). fst e \<noteq> key)) \<and>
    (\<forall>v. r = Some v \<longrightarrow> lru_slots c' \<noteq> [] \<and> hd (lru_slots c') = (key, v))"
  proof (cases "position (\<lambda>e. fst e = key) (lru_slots c)")
    case None
    then have all: "\<forall>e \<in> set (lru_slots c). fst e \<noteq> key" by simp
    show ?thesis using assms all unfolding lru_get_def None by auto
  next
    case (Some i)
    then have i: "i < length (lru_slots c)" "fst (lru_slots c ! i) = key" using position_SomeD by fastforce+
    define e where "e = lru_slots c ! i"
    have e: "e \<in> set (lru_slots c)" "e = (key, snd e)" using i by (simp_all add: e_def prod_eq_iff)
    have c': "c' = c\<lparr>lru_slots := e # remove_at i (lru_slots c)\<rparr>" "r = Some (snd e)"
      using assms unfolding lru_get_def Some Let_def e_def by auto
    have "set (e # remove_at i (lru_slots c)) = set (lru_slots c)" using split[OF i(1)] by (simp add: e_def)
    moreover have "\<exists>e \<in> set (lru_slots c). fst e = key" using e by (metis fst_conv)
    ultimately show ?thesis using c' e by (auto simp del: set_simps(2))
  qed
  then show "set (lru_slots c') = set (lru_slots c)" "lru_capacity c' = lru_capacity c"
    "r = Some v \<Longrightarrow> (key, v) \<in> set (lru_slots c)" "r = None \<longleftrightarrow> (\<forall>e \<in> set (lru_slots c). fst e \<noteq> key)"
    "r = Some v \<Longrightarrow> lru_slots c' \<noteq> [] \<and> hd (lru_slots c') = (key, v)" by blast+
qed

section \<open>The cache is transparent\<close>

text \<open>
  The states of a cache over the volume \<open>read\<close> under every interleaving of lookups and insertions;
  a thread inserts what it read from the volume.
\<close>

inductive cache_reachable :: "(u64 \<Rightarrow> usize \<Rightarrow> (block_error + u8 list) option) \<Rightarrow> block_cache \<Rightarrow> bool" for read where
  start: "cache_reachable read cache_new"
| lookup: "cache_reachable read c \<Longrightarrow> cache_reachable read (fst (cache_lookup c lba))"
| fill: "cache_reachable read c \<Longrightarrow> volume_get_block read fresh lba = Some (Inr buf) \<Longrightarrow>
    cache_reachable read (cache_fill strong_count c lba buf)"

lemma cache_reachable_inv:
  "cache_reachable read c \<Longrightarrow> (\<forall>(lba, buf) \<in> set (lru_slots c). read lba CACHE_BLOCK_SIZE = Some (Inr (bb_data buf)))"
proof (induction rule: cache_reachable.induct)
  case start
  then show ?case by (simp add: cache_new_def lru_new_def)
next
  case (lookup c lba)
  then show ?case using lru_get_props(1)[of c lba "fst (cache_lookup c lba)" "snd (cache_lookup c lba)"]
    by (simp add: cache_lookup_def)
next
  case (fill c fresh lba buf sc)
  obtain r where "read lba CACHE_BLOCK_SIZE = Some r" "(case r of Inl e \<Rightarrow> Inl e | Inr data \<Rightarrow> Inr \<lparr>bb_id = fresh, bb_data = data\<rparr>) = Inr buf"
    using fill.hyps(2) by (auto simp: volume_get_block_def bind_eq_Some_conv)
  then have new: "read lba CACHE_BLOCK_SIZE = Some (Inr (bb_data buf))" by (cases r) auto
  have "lru_slots (cache_fill sc c lba buf) = (lba, buf) # tl (lru_slots (cache_fill sc c lba buf))"
    by (simp add: cache_fill_def lru_insert_slots)
  moreover have "set (tl (lru_slots (cache_fill sc c lba buf))) \<subseteq> set (lru_slots c)"
    unfolding cache_fill_def using subseq_subset[OF lru_insert_subseq] .
  ultimately have "set (lru_slots (cache_fill sc c lba buf)) \<subseteq> insert (lba, buf) (set (lru_slots c))"
    by (metis insert_mono list.simps(15))
  then show ?case using fill.IH new by auto
qed

text \<open>
  C25: The block cache is transparent under every interleaving of its users: a block served from the
  cache holds what a read of the volume returns for that address, and a miss returns the volume's
  answer, error included. Afterwards the block is in the cache.
\<close>

theorem cache_transparent:
  assumes "cache_reachable read c" "cached_get_block read fresh sc c lba = Some (c', r)"
  shows "(\<forall>buf. r = Inr buf \<longrightarrow> read lba CACHE_BLOCK_SIZE = Some (Inr (bb_data buf)) \<and> hd (lru_slots c') = (lba, buf)) \<and>
    (\<forall>e. r = Inl e \<longrightarrow> read lba CACHE_BLOCK_SIZE = Some (Inl e) \<and> c' = c) \<and> cache_reachable read c'"
proof (cases "cache_lookup c lba")
  case (Pair d h)
  note inv = cache_reachable_inv[OF assms(1)]
  note lp = lru_get_props[of c lba d h]
  have get: "lru_get c lba = (d, h)" using Pair by (simp add: cache_lookup_def)
  have d: "cache_reachable read d" using cache_reachable.lookup[OF assms(1), of lba] Pair by simp
  show ?thesis
  proof (cases h)
    case (Some buf)
    then have r: "c' = d" "r = Inr buf" using assms(2) Pair by (auto simp: cached_get_block_def)
    then show ?thesis using inv lp(3,5)[OF get Some] d by auto
  next
    case None
    have dc: "d = c" using get None by (auto simp: lru_get_def Let_def split: option.splits)
    obtain x where x: "read lba CACHE_BLOCK_SIZE = Some x"
      using assms(2) Pair None by (auto simp: cached_get_block_def volume_get_block_def bind_eq_Some_conv)
    show ?thesis
    proof (cases x)
      case (Inl e)
      then show ?thesis using assms Pair None x dc by (auto simp: cached_get_block_def volume_get_block_def)
    next
      case (Inr data)
      let ?b = "\<lparr>bb_id = fresh, bb_data = data\<rparr>"
      have v: "volume_get_block read fresh lba = Some (Inr ?b)" using x Inr by (simp add: volume_get_block_def)
      have "c' = cache_fill sc c lba ?b" "r = Inr ?b"
        using assms(2) Pair None v dc by (auto simp: cached_get_block_def)
      then show ?thesis using x Inr cache_reachable.fill[OF assms(1) v, of sc]
        by (auto simp: cache_fill_def lru_insert_slots)
    qed
  qed
qed

theorem cache_transparent_witness:
  "\<exists>c' buf. cached_get_block (\<lambda>lba n. Some (Inr (replicate n 7))) 1 (\<lambda>_. 1) cache_new 5 = Some (c', Inr buf) \<and>
     bb_data buf = replicate CACHE_BLOCK_SIZE 7 \<and> hd (lru_slots c') = (5, buf)"
proof -
  let ?rd = "\<lambda>(lba :: u64) n. Some (Inr (replicate n (7 :: u8))) :: (block_error + u8 list) option"
  obtain c' buf where g: "cached_get_block ?rd 1 (\<lambda>_. 1) cache_new 5 = Some (c', Inr buf)"
    by (simp add: cached_get_block_def cache_lookup_def lru_get_def cache_new_def lru_new_def volume_get_block_def)
  show ?thesis using cache_transparent[OF cache_reachable.start g] g by auto
qed

section \<open>Partitions\<close>

text \<open>
  C26: A volume over a partition reads only inside the partition. If the partition ends below sector
  \<open>2^32\<close>, a read either is refused, exactly when it goes beyond the partition's last sector, or
  is a read of the device whose first and last sector lie in the partition.
\<close>

theorem partition_read_isolated:
  assumes "unat (lba_start p) + unat (num_sectors p) \<le> 2 ^ 32" "len < usize_bound div 2" "unat lba < usize_bound div 2"
  shows "(unat lba + len div BLOCK_SIZE > unat (num_sectors p) \<longrightarrow>
      partition_read_blocks dev p lba len = Some (Inl InvalidInput)) \<and>
    (unat lba + len div BLOCK_SIZE \<le> unat (num_sectors p) \<and> BLOCK_SIZE \<le> len \<longrightarrow>
      (\<exists>sector. partition_read_blocks dev p lba len = Some (dev sector len) \<and>
         unat sector = unat (lba_start p) + unat lba \<and> unat (lba_start p) \<le> unat sector \<and>
         unat sector + len div BLOCK_SIZE \<le> unat (lba_start p) + unat (num_sectors p)))"
proof -
  have s: "uadd (unat lba) (len div BLOCK_SIZE) = Some (unat lba + len div BLOCK_SIZE)"
  proof (rule uadd_ok)
    have "len div BLOCK_SIZE \<le> len" by simp
    then show "unat lba + len div BLOCK_SIZE < usize_bound" using assms(2,3) unfolding usize_bound_def by linarith
  qed
  let ?d = "unat (lba_start p) + unat lba"
  {
    assume a: "unat lba + len div BLOCK_SIZE \<le> unat (num_sectors p)" "BLOCK_SIZE \<le> len"
    then have "0 < len div BLOCK_SIZE" by (simp add: BLOCK_SIZE_def)
    then have d: "?d < 2 ^ 32" using a assms(1) by simp
    then have "uadd (unat (lba_start p)) (unat lba) = Some ?d" by (intro uadd_ok) (simp add: usize_bound_def)
    then have "partition_read_blocks dev p lba len = Some (dev (ucast (word_of_nat ?d :: u64)) len)"
      using s a by (simp add: partition_read_blocks_def disk_read_blocks_def)
    moreover have "unat (ucast (word_of_nat ?d :: u64) :: u32) = ?d"
      using d by (simp add: unsigned_ucast_eq take_bit_eq_mod unat_of_nat del: of_nat_add)
    ultimately have "\<exists>sector. partition_read_blocks dev p lba len = Some (dev sector len) \<and>
         unat sector = ?d \<and> unat (lba_start p) \<le> unat sector \<and>
         unat sector + len div BLOCK_SIZE \<le> unat (lba_start p) + unat (num_sectors p)"
      using a by (intro exI[of _ "ucast (word_of_nat ?d :: u64) :: u32"]) simp
  }
  then show ?thesis using s by (simp add: partition_read_blocks_def)
qed

theorem partition_read_isolated_witness:
  "\<exists>sector. partition_read_blocks (\<lambda>_ n. Inr (replicate n 0)) \<lparr>part_number = 1, lba_start = 2048, num_sectors = 100\<rparr> 92 4096
      = Some (Inr (replicate 4096 0)) \<and> unat (sector :: u32) = 2140"
  using partition_read_isolated[of "\<lparr>part_number = 1, lba_start = 2048, num_sectors = 100\<rparr>" 4096 92 "\<lambda>_ n. Inr (replicate n 0)"]
  by (auto simp: usize_bound_def BLOCK_SIZE_def)

section \<open>The partition table\<close>

text \<open>An entry of the table on disk: the fields the parser does not read are arbitrary.\<close>

definition mbr_entry :: "u8 list \<Rightarrow> u8 \<Rightarrow> u8 list \<Rightarrow> u32 \<Rightarrow> u32 \<Rightarrow> u8 list" where
  "mbr_entry chs1 ty chs2 lba num = chs1 @ [ty] @ chs2 @ to_le 4 (unat lba) @ to_le 4 (unat num)"

definition entry_parts :: "nat \<Rightarrow> u8 \<Rightarrow> u32 \<Rightarrow> u32 \<Rightarrow> partition list" where
  "entry_parts i ty lba num =
     (if ty = 0 \<and> num = 0 then [] else [\<lparr>part_number = i, lba_start = lba, num_sectors = num\<rparr>])"

lemma le_u32: "word_of_nat (le_nat (to_le 4 (unat (x :: u32)))) = x"
proof -
  have "unat x < 2 ^ 32" using unsigned_less[of x] by (rule order.strict_trans2) simp
  then have "le_nat (to_le 4 (unat x)) = unat x" by (intro le_nat_to_le) simp
  then show ?thesis by simp
qed

lemma parse_mbr_entry_ok:
  assumes "length pre = 446 + i * 16" "length c1 = 4" "length c2 = 3"
  shows "parse_mbr_entry (pre @ mbr_entry c1 ty c2 lba num @ post) i = Some (entry_parts (i + 1) ty lba num)"
proof -
  let ?e = "mbr_entry c1 ty c2 lba num"
  have len: "length ?e = 16" using assms by (simp add: mbr_entry_def)
  have "slice (pre @ ?e @ post) (446 + i * 16) (446 + i * 16 + 16) = Some ?e" using assms len by simp
  moreover have "list_get ?e 4 = Some ty" using assms len by (simp add: mbr_entry_def nth_append)
  moreover have "slice ?e 8 12 = Some (to_le 4 (unat lba))" "slice ?e 12 16 = Some (to_le 4 (unat num))"
    using assms len by (simp_all add: mbr_entry_def)
  ultimately show ?thesis
    by (simp add: parse_mbr_entry_def MBR_PARTITION_TABLE_OFFSET_def MBR_PARTITION_ENTRY_SIZE_def PARTITION_TYPE_OFFSET_def
        PARTITION_LBA_OFFSET_def PARTITION_SECTORS_OFFSET_def le_u32 entry_parts_def)
qed

text \<open>
  C27: Parsing inverts writing a partition table. From a boot sector with the signature the parser
  returns, in order and numbered 1 to 4, exactly the entries that are not empty, with the start and
  the size they were written with; from a sector without the signature it returns none.
\<close>

theorem mbr_roundtrip:
  assumes "length boot = 446" "\<forall>c \<in> {a1, b1, d1, e1}. length c = 4" "\<forall>c \<in> {a2, b2, d2, e2}. length c = 3"
    and "length sg = 2"
  shows "parse_mbr (boot @ mbr_entry a1 t1 a2 l1 n1 @ mbr_entry b1 t2 b2 l2 n2 @ mbr_entry d1 t3 d2 l3 n3 @
      mbr_entry e1 t4 e2 l4 n4 @ sg) =
    Some (if sg = [0x55, 0xaa]
      then entry_parts 1 t1 l1 n1 @ entry_parts 2 t2 l2 n2 @ entry_parts 3 t3 l3 n3 @ entry_parts 4 t4 l4 n4
      else [])"
proof -
  let ?A = "mbr_entry a1 t1 a2 l1 n1" and ?B = "mbr_entry b1 t2 b2 l2 n2"
  let ?C = "mbr_entry d1 t3 d2 l3 n3" and ?D = "mbr_entry e1 t4 e2 l4 n4"
  define s where "s = boot @ ?A @ ?B @ ?C @ ?D @ sg"
  have len: "length ?A = 16" "length ?B = 16" "length ?C = 16" "length ?D = 16"
    using assms(2,3) by (simp_all add: mbr_entry_def)
  have "slice s 510 512 = Some sg" unfolding s_def using len assms(1,4) by simp
  moreover have "((word_of_nat (le_nat sg) :: u16) = MBR_SIGNATURE) = (sg = [0x55, 0xaa])"
  proof -
    have "le_nat sg < 2 ^ 16" using le_nat_less[of sg] assms(4) by simp
    then have "((word_of_nat (le_nat sg) :: u16) = MBR_SIGNATURE) = (le_nat sg = 0xaa55)"
      by (simp add: word_unat_eq_iff unat_of_nat MBR_SIGNATURE_def)
    moreover have "le_nat sg = 0xaa55 \<Longrightarrow> sg = [0x55, 0xaa]" using to_le_le_nat[of sg] assms(4)
      by (simp add: numeral_2_eq_2)
    ultimately show ?thesis by auto
  qed
  moreover have "parse_mbr_entry s 0 = Some (entry_parts 1 t1 l1 n1)"
    using parse_mbr_entry_ok[of boot 0 a1 a2 t1 l1 n1 "?B @ ?C @ ?D @ sg"] assms by (simp add: s_def)
  moreover have "parse_mbr_entry s 1 = Some (entry_parts 2 t2 l2 n2)"
    using parse_mbr_entry_ok[of "boot @ ?A" 1 b1 b2 t2 l2 n2 "?C @ ?D @ sg"] assms len by (simp add: numeral_2_eq_2 s_def)
  moreover have "parse_mbr_entry s 2 = Some (entry_parts 3 t3 l3 n3)"
    using parse_mbr_entry_ok[of "boot @ ?A @ ?B" 2 d1 d2 t3 l3 n3 "?D @ sg"] assms len by (simp add: s_def)
  moreover have "parse_mbr_entry s 3 = Some (entry_parts 4 t4 l4 n4)"
    using parse_mbr_entry_ok[of "boot @ ?A @ ?B @ ?C" 3 e1 e2 t4 l4 n4 sg] assms len by (simp add: s_def)
  ultimately show ?thesis unfolding s_def[symmetric] by (simp add: parse_mbr_def MBR_SIGNATURE_OFFSET_def)
qed

theorem mbr_roundtrip_witness:
  "parse_mbr (replicate 446 0 @ mbr_entry [0,0,0,0] 0x83 [0,0,0] 2048 1000 @ mbr_entry [0,0,0,0] 0 [0,0,0] 0 0 @
      mbr_entry [0,0,0,0] 0x0c [0,0,0] 4096 50 @ mbr_entry [0,0,0,0] 0 [0,0,0] 0 0 @ [0x55, 0xaa]) =
    Some [\<lparr>part_number = 1, lba_start = 2048, num_sectors = 1000\<rparr>, \<lparr>part_number = 3, lba_start = 4096, num_sectors = 50\<rparr>]"
  using mbr_roundtrip[of "replicate 446 0" "[0,0,0,0]" "[0,0,0,0]" "[0,0,0,0]" "[0,0,0,0]" "[0,0,0]" "[0,0,0]" "[0,0,0]" "[0,0,0]"
      "[0x55, 0xaa]" "0x83" 2048 1000 0 0 0 "0x0c" 4096 50 0 0 0]
  by (simp add: entry_parts_def)

end
