(* ===== verification/Dispatcher.thy ===== *)
theory Dispatcher
  imports Block_Layer "HOL-Library.Multiset"
begin

text \<open>
  The block dispatcher thread (block/disk/dispatcher.rs). The dispatcher owns the driver, keeps at
  most one read in flight, queues the others and answers every requester with a message. The model
  is the thread's message handler as a function on its state; the driver is a state of type
  \<open>'d\<close> with its \<open>start_read\<close> as an argument, since the dispatcher calls it through a trait
  object. Messages the dispatcher sends are recorded in the state in the order they are sent.
\<close>

section \<open>State and messages\<close>

type_synonym buffer_ptr = "usize \<times> usize"
type_synonym status = "block_error + unit"

datatype block_message =
    ReadRequest u32 buffer_ptr usize
  | ReadComplete status
  | ReadResponse status

record pending_request =
  pr_sector :: u32
  pr_buffer :: buffer_ptr
  pr_requester_tid :: usize

record 'd dispatcher =
  device_state :: 'd
  REQUEST :: "usize option"
  pending :: "pending_request list"
  responses :: "(usize \<times> block_message) list"

type_synonym 'd start_read = "'d \<Rightarrow> u32 \<Rightarrow> buffer_ptr \<Rightarrow> 'd \<times> status"

section \<open>Operations\<close>

text \<open>The message a thread sends: target, sender, contents, and whether it is sent urgently.\<close>

definition request_read_block :: "usize \<Rightarrow> usize \<Rightarrow> u32 \<Rightarrow> buffer_ptr \<Rightarrow> (usize \<times> usize \<times> block_message \<times> bool) option" where
  "request_read_block dispatcher_tid current sector buffer =
     (if dispatcher_tid \<noteq> 0 then Some (dispatcher_tid, current, ReadRequest sector buffer current, True) else None)"

definition send_read_completion :: "usize \<Rightarrow> status \<Rightarrow> (usize \<times> usize \<times> block_message \<times> bool) option" where
  "send_read_completion dispatcher_tid st =
     (if dispatcher_tid \<noteq> 0 then Some (dispatcher_tid, 0, ReadComplete st, False) else None)"

text \<open>The statics the dispatcher thread is started through, with the list of threads added.\<close>

record 'd disk_globals =
  DRIVER :: "'d option"
  DISPATCHER_TID :: usize
  threads_added :: "usize list"

definition spawn_dispatcher :: "'d disk_globals \<Rightarrow> usize \<Rightarrow> 'd \<Rightarrow> 'd disk_globals \<times> (string + usize)" where
  "spawn_dispatcher g tid driver =
     (if DRIVER g \<noteq> None then (g, Inl ''Another dispatcher is already being spawned'')
      else (g\<lparr>DRIVER := Some driver, DISPATCHER_TID := tid, threads_added := threads_added g @ [tid]\<rparr>, Inr tid))"

definition dispatcher_start :: "'d \<Rightarrow> 'd dispatcher" where
  "dispatcher_start d = \<lparr>device_state = d, REQUEST = None, pending = [], responses = []\<rparr>"

definition dispatcher_entry :: "'d disk_globals \<Rightarrow> ('d disk_globals \<times> 'd dispatcher) option" where
  "dispatcher_entry g = do { driver \<leftarrow> DRIVER g; Some (g\<lparr>DRIVER := None\<rparr>, dispatcher_start driver) }"

definition send_response :: "'d dispatcher \<Rightarrow> usize \<Rightarrow> status \<Rightarrow> 'd dispatcher" where
  "send_response s tid st = s\<lparr>responses := responses s @ [(tid, ReadResponse st)]\<rparr>"

definition issue_read :: "'d start_read \<Rightarrow> 'd dispatcher \<Rightarrow> u32 \<Rightarrow> buffer_ptr \<Rightarrow> usize \<Rightarrow> 'd dispatcher" where
  "issue_read start_read s sector buffer requester_tid =
     (let (d, r) = start_read (device_state s) sector buffer; s = s\<lparr>device_state := d\<rparr> in
      case r of
        Inr _ \<Rightarrow> s\<lparr>REQUEST := Some requester_tid\<rparr>
      | Inl e \<Rightarrow> send_response s requester_tid (Inl e))"

fun dispatcher_step :: "'d start_read \<Rightarrow> block_message \<Rightarrow> 'd dispatcher \<Rightarrow> 'd dispatcher" where
  "dispatcher_step start_read (ReadRequest sector buffer tid) s =
     (if REQUEST s \<noteq> None
      then s\<lparr>pending := pending s @ [\<lparr>pr_sector = sector, pr_buffer = buffer, pr_requester_tid = tid\<rparr>]\<rparr>
      else issue_read start_read s sector buffer tid)"
| "dispatcher_step start_read (ReadComplete st) s =
     (case REQUEST s of
        None \<Rightarrow> s
      | Some tid \<Rightarrow>
          (let s = send_response (s\<lparr>REQUEST := None\<rparr>) tid st in
           case pending s of
             [] \<Rightarrow> s
           | p # ps \<Rightarrow> issue_read start_read (s\<lparr>pending := ps\<rparr>) (pr_sector p) (pr_buffer p) (pr_requester_tid p)))"
| "dispatcher_step start_read (ReadResponse st) s = s"

definition dispatcher_main :: "'d start_read \<Rightarrow> block_message list \<Rightarrow> 'd \<Rightarrow> 'd dispatcher" where
  "dispatcher_main start_read msgs d = fold (dispatcher_step start_read) msgs (dispatcher_start d)"

section \<open>Every request is answered, in flight or queued\<close>

fun requesters :: "block_message list \<Rightarrow> usize list" where
  "requesters [] = []"
| "requesters (ReadRequest sector buffer tid # ms) = tid # requesters ms"
| "requesters (_ # ms) = requesters ms"

abbreviation in_flight :: "'d dispatcher \<Rightarrow> usize list" where
  "in_flight s \<equiv> (case REQUEST s of None \<Rightarrow> [] | Some tid \<Rightarrow> [tid])"

definition accounted :: "'d dispatcher \<Rightarrow> usize list" where
  "accounted s = map fst (responses s) @ in_flight s @ map pr_requester_tid (pending s)"

definition never_fails :: "'d start_read \<Rightarrow> bool" where
  "never_fails start_read \<longleftrightarrow> (\<forall>d sector buffer. \<exists>d'. start_read d sector buffer = (d', Inr ()))"

definition busy_ok :: "'d dispatcher \<Rightarrow> bool" where
  "busy_ok s \<longleftrightarrow> (pending s \<noteq> [] \<longrightarrow> REQUEST s \<noteq> None)"

lemma requesters_append: "requesters (xs @ ys) = requesters xs @ requesters ys"
  by (induction xs rule: requesters.induct) auto

lemma issue_read_accounted:
  "REQUEST s = None \<Longrightarrow> mset (accounted (issue_read sr s sector buffer tid)) = add_mset tid (mset (accounted s))"
  by (auto simp: issue_read_def Let_def accounted_def send_response_def split: prod.splits sum.splits)

lemma issue_read_busy:
  assumes "never_fails sr"
  shows "\<exists>d. issue_read sr s sector buffer tid = s\<lparr>device_state := d, REQUEST := Some tid\<rparr>"
proof -
  obtain d where "sr (device_state s) sector buffer = (d, Inr ())" using assms unfolding never_fails_def by meson
  then show ?thesis by (intro exI[of _ d]) (simp add: issue_read_def)
qed

lemma dispatcher_step_mset:
  "mset (accounted (dispatcher_step sr m s)) = mset (accounted s) + mset (requesters [m])"
proof (cases m)
  case (ReadRequest sector buffer tid)
  then show ?thesis
    by (cases "REQUEST s") (simp_all add: issue_read_accounted, simp add: accounted_def)
next
  case (ReadComplete st)
  show ?thesis
  proof (cases "REQUEST s")
    case (Some tid)
    let ?s = "send_response (s\<lparr>REQUEST := None\<rparr>) tid st"
    have "mset (accounted ?s) = mset (accounted s)" using Some by (simp add: accounted_def send_response_def)
    then show ?thesis using ReadComplete Some
      by (cases "pending s") (simp_all add: send_response_def Let_def issue_read_accounted, simp_all add: accounted_def)
  qed (simp add: ReadComplete)
qed simp

lemma dispatcher_step_fifo:
  assumes "never_fails sr" "busy_ok s"
  shows "busy_ok (dispatcher_step sr m s) \<and> accounted (dispatcher_step sr m s) = accounted s @ requesters [m]"
proof (cases m)
  case (ReadRequest sector buffer tid)
  show ?thesis
  proof (cases "REQUEST s")
    case None
    then have "pending s = []" using assms(2) by (auto simp: busy_ok_def)
    then show ?thesis using ReadRequest None issue_read_busy[OF assms(1), of s sector buffer tid]
      by (auto simp: accounted_def busy_ok_def)
  qed (simp add: ReadRequest accounted_def busy_ok_def)
next
  case (ReadComplete st)
  show ?thesis
  proof (cases "REQUEST s")
    case (Some tid)
    show ?thesis
    proof (cases "pending s")
      case (Cons p ps)
      let ?s = "send_response (s\<lparr>REQUEST := None\<rparr>) tid st"
      obtain d where "issue_read sr (?s\<lparr>pending := ps\<rparr>) (pr_sector p) (pr_buffer p) (pr_requester_tid p) =
          (?s\<lparr>pending := ps\<rparr>)\<lparr>device_state := d, REQUEST := Some (pr_requester_tid p)\<rparr>"
        using issue_read_busy[OF assms(1)] by blast
      then show ?thesis using ReadComplete Some Cons by (simp add: accounted_def busy_ok_def send_response_def)
    qed (use ReadComplete Some in \<open>simp add: accounted_def busy_ok_def send_response_def Let_def\<close>)
  qed (use ReadComplete assms(2) in simp)
qed (use assms(2) in simp)

lemma dispatcher_main_snoc:
  "dispatcher_main sr (ms @ [m]) d = dispatcher_step sr m (dispatcher_main sr ms d)"
  by (simp add: dispatcher_main_def)

text \<open>
  C28: The dispatcher loses no request and answers none twice: after any sequence of messages, with
  any driver, the requesters of the requests received are, counted with multiplicity, those that
  were sent a response, the one in flight, and the queued ones. With a driver that accepts every
  read, they are so in this order: requests are answered first come first served, and requests are
  queued only while a read is in flight.
\<close>

theorem dispatcher_conservation:
  "mset (requesters ms) = mset (accounted (dispatcher_main start_read ms d)) \<and>
   (never_fails start_read \<longrightarrow>
      requesters ms = accounted (dispatcher_main start_read ms d) \<and> busy_ok (dispatcher_main start_read ms d))"
proof (induction ms rule: rev_induct)
  case Nil
  show ?case by (simp add: dispatcher_main_def dispatcher_start_def accounted_def busy_ok_def)
next
  case (snoc m ms)
  then show ?case
    by (auto simp: dispatcher_main_snoc requesters_append dispatcher_step_mset dispatcher_step_fifo)
qed

theorem dispatcher_conservation_witness:
  "accounted (dispatcher_main (\<lambda>d _ _. (d, Inr ())) [ReadRequest 0 (0, 512) 4, ReadRequest 8 (512, 512) 5, ReadComplete (Inr ())] ()) = [4, 5]"
  using dispatcher_conservation[of "[ReadRequest 0 (0, 512) 4, ReadRequest 8 (512, 512) 5, ReadComplete (Inr ())]" "\<lambda>d _ _. (d, Inr ())" "()"]
  by (simp add: never_fails_def)

section \<open>A refused read strands the queue\<close>

text \<open>A driver that refuses its second read, and three requests with the completion of the first.\<close>

definition refuse_second :: "nat \<Rightarrow> u32 \<Rightarrow> buffer_ptr \<Rightarrow> nat \<times> status" where
  "refuse_second n sector buffer = (n + 1, if n = 1 then Inl Timeout else Inr ())"

definition three_requests :: "block_message list" where
  "three_requests = [ReadRequest 0 (0, 512) 4, ReadRequest 8 (512, 512) 5, ReadRequest 16 (1024, 512) 6, ReadComplete (Inr ())]"


end
