(* ===== verification/Uart.thy ===== *)
theory Uart
  imports Spsc_Ring
begin

text \<open>
  The UART driver (drivers/uart.rs) and the UART writer thread (kthread/uart_writer.rs).

  The device is a 16550 as the driver sees it through its registers: an interrupt enable register,
  a receive FIFO, and a transmit FIFO that the line drains. The line takes a byte from the FIFO
  each time the driver polls an occupied transmitter, and empties it before the device raises its
  transmitter-empty interrupt; a byte written to a full transmit FIFO is lost. The writer thread runs
  with interrupts disabled; interrupts are taken where it blocks, waiting for a message or for room in
  its ring. What happens while it is blocked is an argument of the model: for each \<open>block_now\<close> the
  list of events up to its return, which are UART interrupts, bytes received by the device, and
  messages sent to the thread.
\<close>

unbundle bit_operations_syntax

section \<open>The device\<close>

record uart_hw =
  ier :: u8
  rx_fifo :: "u8 list"
  tx_fifo :: "u8 list"
  line :: "u8 list"

definition IER_RDA :: u8 where "IER_RDA = 0x01"
definition IER_THRE :: u8 where "IER_THRE = 0x02"
definition LSR_DR :: u8 where "LSR_DR = 0x01"
definition LSR_THRE :: u8 where "LSR_THRE = 0x20"

definition hw_iir :: "uart_hw \<Rightarrow> u8" where
  "hw_iir hw = (if ier hw AND IER_RDA \<noteq> 0 \<and> rx_fifo hw \<noteq> [] then 0x04
                else if ier hw AND IER_THRE \<noteq> 0 \<and> tx_fifo hw = [] then 0x02
                else 0x01)"

definition hw_lsr :: "uart_hw \<Rightarrow> u8" where
  "hw_lsr hw = (if rx_fifo hw \<noteq> [] then LSR_DR else 0) OR (if tx_fifo hw = [] then LSR_THRE else 0)"

definition hw_read :: "uart_hw \<Rightarrow> nat \<Rightarrow> uart_hw \<times> u8" where
  "hw_read hw reg =
     (if reg = 0 then (case rx_fifo hw of [] \<Rightarrow> (hw, 0) | b # bs \<Rightarrow> (hw\<lparr>rx_fifo := bs\<rparr>, b))
      else if reg = 1 then (hw, ier hw)
      else if reg = 2 then (hw, hw_iir hw)
      else if reg = 5 then (hw, hw_lsr hw)
      else (hw, 0))"

definition hw_write :: "uart_hw \<Rightarrow> nat \<Rightarrow> u8 \<Rightarrow> uart_hw" where
  "hw_write hw reg v =
     (if reg = 0 then (if length (tx_fifo hw) < 16 then hw\<lparr>tx_fifo := tx_fifo hw @ [v]\<rparr> else hw)
      else if reg = 1 then hw\<lparr>ier := v\<rparr>
      else if reg = 2 then hw\<lparr>rx_fifo := (if v AND 0x02 \<noteq> 0 then [] else rx_fifo hw),
                              tx_fifo := (if v AND 0x04 \<noteq> 0 then [] else tx_fifo hw)\<rparr>
      else hw)"

definition hw_tick :: "uart_hw \<Rightarrow> uart_hw" where
  "hw_tick hw = (case tx_fifo hw of [] \<Rightarrow> hw | b # bs \<Rightarrow> hw\<lparr>tx_fifo := bs, line := line hw @ [b]\<rparr>)"

definition hw_flush :: "uart_hw \<Rightarrow> uart_hw" where
  "hw_flush hw = hw\<lparr>tx_fifo := [], line := line hw @ tx_fifo hw\<rparr>"

section \<open>Driver\<close>

record uart =
  base :: usize
  reg_shift :: usize
  reg_io_width :: usize

definition QEMU_UART :: uart where
  "QEMU_UART = \<lparr>base = 0x10000000, reg_shift = 0, reg_io_width = 1\<rparr>"

definition NANO_UART :: uart where
  "NANO_UART = \<lparr>base = 0x04140000, reg_shift = 2, reg_io_width = 4\<rparr>"

definition QEMU_UART_IRQ :: u32 where "QEMU_UART_IRQ = 10"
definition NANO_UART_IRQ :: u32 where "NANO_UART_IRQ = 0x2c"

definition TX_FIFO_SIZE :: usize where "TX_FIFO_SIZE = 16"

definition reg_addr :: "uart \<Rightarrow> usize \<Rightarrow> usize option" where
  "reg_addr u n = uadd (base u) (push_bit (reg_shift u) n mod usize_bound)"

text \<open>The bus: the device's registers are spaced by \<open>2 ^ reg_shift\<close> from its base.\<close>

definition bus_reg :: "uart \<Rightarrow> usize \<Rightarrow> nat" where
  "bus_reg u addr = (addr - base u) div 2 ^ reg_shift u"

definition read_reg :: "uart \<Rightarrow> uart_hw \<Rightarrow> usize \<Rightarrow> (uart_hw \<times> u8) option" where
  "read_reg u hw off = do { a \<leftarrow> reg_addr u off; Some (hw_read hw (bus_reg u a)) }"

definition write_reg :: "uart \<Rightarrow> uart_hw \<Rightarrow> usize \<Rightarrow> u8 \<Rightarrow> uart_hw option" where
  "write_reg u hw off val = do { a \<leftarrow> reg_addr u off; Some (hw_write hw (bus_reg u a) val) }"

definition enable_tx_interrupt :: "uart \<Rightarrow> uart_hw \<Rightarrow> uart_hw option" where
  "enable_tx_interrupt u hw = do { (hw, current) \<leftarrow> read_reg u hw 1; write_reg u hw 1 (current OR IER_THRE) }"

definition disable_tx_interrupt :: "uart \<Rightarrow> uart_hw \<Rightarrow> uart_hw option" where
  "disable_tx_interrupt u hw = do { (hw, current) \<leftarrow> read_reg u hw 1; write_reg u hw 1 (current AND NOT IER_THRE) }"

definition enable_rx_interrupt :: "uart \<Rightarrow> uart_hw \<Rightarrow> uart_hw option" where
  "enable_rx_interrupt u hw = do { (hw, current) \<leftarrow> read_reg u hw 1; write_reg u hw 1 (current OR IER_RDA) }"

definition write_byte_nowait :: "uart \<Rightarrow> uart_hw \<Rightarrow> u8 \<Rightarrow> uart_hw option" where
  "write_byte_nowait u hw byte = write_reg u hw 0 byte"

definition tx_ready :: "uart \<Rightarrow> uart_hw \<Rightarrow> (uart_hw \<times> bool) option" where
  "tx_ready u hw = do { (hw, lsr) \<leftarrow> read_reg u hw 5; Some (hw, lsr AND LSR_THRE \<noteq> 0) }"

text \<open>The polling loop of \<open>write_byte\<close> and of the TX pump; the line proceeds between two polls.\<close>

partial_function (option) wait_tx_ready :: "uart \<Rightarrow> uart_hw \<Rightarrow> uart_hw option" where
  "wait_tx_ready u hw = do {
     (hw, ready) \<leftarrow> tx_ready u hw;
     if ready then Some hw else wait_tx_ready u (hw_tick hw)
   }"

definition write_byte :: "uart \<Rightarrow> uart_hw \<Rightarrow> u8 \<Rightarrow> uart_hw option" where
  "write_byte u hw byte = do { hw \<leftarrow> wait_tx_ready u hw; write_reg u hw 0 byte }"

definition uart_write_str :: "uart \<Rightarrow> u8 list \<Rightarrow> uart_hw \<Rightarrow> uart_hw option" where
  "uart_write_str u bytes hw = ofold (\<lambda>byte hw. write_byte u hw byte) bytes hw"

definition read_byte :: "uart \<Rightarrow> uart_hw \<Rightarrow> (uart_hw \<times> u8 option) option" where
  "read_byte u hw = do {
     (hw, lsr) \<leftarrow> read_reg u hw 5;
     if lsr AND LSR_DR \<noteq> 0 then do { (hw, b) \<leftarrow> read_reg u hw 0; Some (hw, Some b) } else Some (hw, None)
   }"

datatype cpu_type = Qemu | LicheeRVNano | UnknownCpu

text \<open>\<open>init\<close> returns the configuration it stores and the interrupt it registers.\<close>

definition uart_init :: "cpu_type \<Rightarrow> uart_hw \<Rightarrow> (uart \<times> u32 \<times> uart_hw) option" where
  "uart_init cpu hw =
     (let (config, irq) = (if cpu = LicheeRVNano then (NANO_UART, NANO_UART_IRQ) else (QEMU_UART, QEMU_UART_IRQ)) in do {
      hw \<leftarrow> write_reg config hw 2 (0x01 OR 0x02 OR 0x04);
      Some (config, irq, hw)
     })"

section \<open>The writer thread\<close>

datatype writer_message = WriteData "u8 list"

record writer =
  UART :: uart
  hw :: uart_hw
  TX_RING :: ring
  WRITER_THREAD_ID :: usize
  TX_ACTIVE :: bool
  WAITING_FOR_SPACE :: bool
  BUFFER_SPACE_AVAILABLE :: bool
  woken :: "usize list"
  inbox :: "writer_message list"

definition uart_get :: "writer \<Rightarrow> uart option" where
  "uart_get s = (if base (UART s) \<noteq> 0 then Some (UART s) else None)"

text \<open>The loop over the FIFO; the flag tells that it returned from \<open>drain_ring_to_fifo\<close>.\<close>

fun drain_loop :: "uart \<Rightarrow> nat \<Rightarrow> writer \<Rightarrow> (writer \<times> bool) option" where
  "drain_loop u 0 s = Some (s, False)"
| "drain_loop u (Suc n) s = do {
     (ring, ob) \<leftarrow> pop TX_RING_SIZE (TX_RING s);
     let s = s\<lparr>TX_RING := ring\<rparr>;
     (case ob of
        Some byte \<Rightarrow> do { h \<leftarrow> write_byte_nowait u (hw s) byte; drain_loop u n (s\<lparr>hw := h\<rparr>) }
      | None \<Rightarrow> do { h \<leftarrow> disable_tx_interrupt u (hw s); Some (s\<lparr>TX_ACTIVE := False, hw := h\<rparr>, True) })
   }"

definition drain_ring_to_fifo :: "writer \<Rightarrow> writer option" where
  "drain_ring_to_fifo s = do {
     u \<leftarrow> uart_get s;
     h \<leftarrow> wait_tx_ready u (hw s);
     (s, returned) \<leftarrow> drain_loop u TX_FIFO_SIZE (s\<lparr>hw := h\<rparr>);
     if returned then Some s
     else if \<not> ring_is_empty (TX_RING s)
     then do { h \<leftarrow> enable_tx_interrupt u (hw s); Some (s\<lparr>TX_ACTIVE := True, hw := h\<rparr>) }
     else Some s
   }"

definition notify_tx_ready :: "writer \<Rightarrow> writer option" where
  "notify_tx_ready s = do {
     s \<leftarrow> drain_ring_to_fifo s;
     if WAITING_FOR_SPACE s
     then Some (s\<lparr>WAITING_FOR_SPACE := False, BUFFER_SPACE_AVAILABLE := True, woken := woken s @ [WRITER_THREAD_ID s]\<rparr>)
     else Some s
   }"

partial_function (option) drain_rx :: "uart \<Rightarrow> uart_hw \<Rightarrow> uart_hw option" where
  "drain_rx u h = do {
     (h, ob) \<leftarrow> read_byte u h;
     (case ob of None \<Rightarrow> Some h | Some b \<Rightarrow> drain_rx u h)
   }"

partial_function (option) handle_irq :: "writer \<Rightarrow> writer option" where
  "handle_irq s = do {
     u \<leftarrow> uart_get s;
     (h, iir) \<leftarrow> read_reg u (hw s) 2;
     if iir AND 0x01 \<noteq> 0 then Some (s\<lparr>hw := h\<rparr>)
     else if iir AND 0x0e = 0x04 \<or> iir AND 0x0e = 0x0c
     then do { h \<leftarrow> drain_rx u h; handle_irq (s\<lparr>hw := h\<rparr>) }
     else if iir AND 0x0e = 0x02 then notify_tx_ready (s\<lparr>hw := h\<rparr>)
     else handle_irq (s\<lparr>hw := h\<rparr>)
   }"

text \<open>
  \<open>block_now\<close>: what happens until the thread runs again. The device empties its FIFO before it
  interrupts; a message is appended to the thread's inbox.
\<close>

datatype event = UartIrq | RxByte u8 | Send writer_message

primrec happen :: "event \<Rightarrow> writer \<Rightarrow> writer option" where
  "happen UartIrq s = handle_irq (s\<lparr>hw := hw_flush (hw s)\<rparr>)"
| "happen (RxByte b) s = Some (s\<lparr>hw := (hw s)\<lparr>rx_fifo := rx_fifo (hw s) @ [b]\<rparr>\<rparr>)"
| "happen (Send m) s = Some (s\<lparr>inbox := inbox s @ [m]\<rparr>)"

definition block :: "event list \<Rightarrow> writer \<Rightarrow> writer option" where
  "block es s = ofold happen es s"

text \<open>The loop of \<open>push_slice_blocking\<close> that waits for room; it never ends if the events do.\<close>

fun wait_for_space :: "event list list \<Rightarrow> writer \<Rightarrow> (event list list \<times> writer) option" where
  "wait_for_space [] s = (if BUFFER_SPACE_AVAILABLE s then Some ([], s) else None)"
| "wait_for_space (es # ks) s =
     (if BUFFER_SPACE_AVAILABLE s then Some (es # ks, s)
      else do { s \<leftarrow> block es s; wait_for_space ks s })"

partial_function (option) push_slice_blocking :: "u8 list \<Rightarrow> event list list \<Rightarrow> writer \<Rightarrow> (event list list \<times> writer) option" where
  "push_slice_blocking remaining ks s =
     (if remaining = [] then Some (ks, s)
      else do {
        (ring, pushed) \<leftarrow> push_slice TX_RING_SIZE (TX_RING s) remaining;
        let s = s\<lparr>TX_RING := ring\<rparr>;
        if pushed = 0
        then do {
          u \<leftarrow> uart_get s;
          h \<leftarrow> enable_tx_interrupt u (hw s);
          (ks, s) \<leftarrow> wait_for_space ks (s\<lparr>TX_ACTIVE := True, hw := h, BUFFER_SPACE_AVAILABLE := False, WAITING_FOR_SPACE := True\<rparr>);
          push_slice_blocking remaining ks (s\<lparr>WAITING_FOR_SPACE := False\<rparr>)
        }
        else do { rest \<leftarrow> slice remaining pushed (length remaining); push_slice_blocking rest ks s }
      })"

function write_chunks :: "u8 list \<Rightarrow> event list list \<Rightarrow> writer \<Rightarrow> (event list list \<times> writer) option" where
  "write_chunks remaining ks s =
     (if remaining = [] then Some (ks, s)
      else
        (let newline_pos = position (\<lambda>b. b = 10) remaining;
             chunk_end = (case newline_pos of Some i \<Rightarrow> i | None \<Rightarrow> length remaining) in do {
         (ks, s) \<leftarrow> (if 0 < chunk_end then push_slice_blocking (take chunk_end remaining) ks s else Some (ks, s));
         (case newline_pos of
            Some i \<Rightarrow> do { (ks, s) \<leftarrow> push_slice_blocking [13, 10] ks s; write_chunks (drop (chunk_end + 1) remaining) ks s }
          | None \<Rightarrow> write_chunks [] ks s)
        }))"
  by pat_completeness auto
termination by (relation "measure (\<lambda>(remaining, ks, s). length remaining)") auto

declare write_chunks.simps [simp del]

definition write_data :: "u8 list \<Rightarrow> event list list \<Rightarrow> writer \<Rightarrow> (event list list \<times> writer) option" where
  "write_data data ks s = do {
     (ks, s) \<leftarrow> write_chunks data ks s;
     s \<leftarrow> drain_ring_to_fifo s;
     Some (ks, s)
   }"

text \<open>Sending a message to the writer.\<close>

definition send_write :: "usize \<Rightarrow> usize \<Rightarrow> u8 list \<Rightarrow> usize \<times> usize \<times> writer_message" where
  "send_write writer_tid sender data = (writer_tid, sender, WriteData data)"

text \<open>\<open>write\<close> of the console device: the message sent and the count returned.\<close>

definition uart_file_write :: "usize \<Rightarrow> usize \<Rightarrow> u8 list \<Rightarrow> (usize \<times> usize \<times> writer_message) \<times> usize" where
  "uart_file_write writer_tid sender data = (send_write writer_tid sender data, length data)"

text \<open>
  The thread's loop. \<open>receive_message\<close> takes the first message of the inbox and blocks while there is
  none; it yields no message when the events end while the thread waits for one.
\<close>

fun writer_receive :: "event list list \<Rightarrow> writer \<Rightarrow> (event list list \<times> writer \<times> writer_message option) option" where
  "writer_receive ks s =
     (case inbox s of
        m # ms \<Rightarrow> Some (ks, s\<lparr>inbox := ms\<rparr>, Some m)
      | [] \<Rightarrow> (case ks of [] \<Rightarrow> Some ([], s, None)
               | es # ks \<Rightarrow> do { s \<leftarrow> block es s; writer_receive ks s }))"

declare writer_receive.simps [simp del]

partial_function (option) writer_entry :: "event list list \<Rightarrow> writer \<Rightarrow> writer option" where
  "writer_entry ks s = do {
     (ks, s, msg) \<leftarrow> writer_receive ks s;
     (case msg of
        None \<Rightarrow> Some s
      | Some (WriteData data) \<Rightarrow> do { (ks, s) \<leftarrow> write_data data ks s; writer_entry ks s })
   }"

section \<open>The driver on a 16550\<close>

definition uart_ok :: "uart \<Rightarrow> bool" where
  "uart_ok u \<longleftrightarrow> u = QEMU_UART \<or> u = NANO_UART"

lemma bus_reg_addr: "uart_ok u \<Longrightarrow> n < 8 \<Longrightarrow> \<exists>a. reg_addr u n = Some a \<and> bus_reg u a = n"
  by (auto simp: uart_ok_def QEMU_UART_def NANO_UART_def reg_addr_def bus_reg_def uadd_def usize_bound_def push_bit_eq_mult)

lemma read_reg_ok: "uart_ok u \<Longrightarrow> off < 8 \<Longrightarrow> read_reg u h off = Some (hw_read h off)"
  using bus_reg_addr[of u off] by (auto simp: read_reg_def)

lemma write_reg_ok: "uart_ok u \<Longrightarrow> off < 8 \<Longrightarrow> write_reg u h off v = Some (hw_write h off v)"
  using bus_reg_addr[of u off] by (auto simp: write_reg_def)

named_theorems uart_simps \<open>the driver's operations on the device\<close>

lemma enable_tx_ok [uart_simps]: "uart_ok u \<Longrightarrow> enable_tx_interrupt u h = Some (h\<lparr>ier := ier h OR IER_THRE\<rparr>)"
  by (simp add: enable_tx_interrupt_def read_reg_ok write_reg_ok hw_read_def hw_write_def)

lemma disable_tx_ok [uart_simps]: "uart_ok u \<Longrightarrow> disable_tx_interrupt u h = Some (h\<lparr>ier := ier h AND NOT IER_THRE\<rparr>)"
  by (simp add: disable_tx_interrupt_def read_reg_ok write_reg_ok hw_read_def hw_write_def)

lemma write_byte_nowait_ok [uart_simps]:
  "uart_ok u \<Longrightarrow> length (tx_fifo h) < TX_FIFO_SIZE \<Longrightarrow> write_byte_nowait u h b = Some (h\<lparr>tx_fifo := tx_fifo h @ [b]\<rparr>)"
  by (simp add: write_byte_nowait_def write_reg_ok hw_write_def TX_FIFO_SIZE_def)

lemma tx_ready_ok [uart_simps]: "uart_ok u \<Longrightarrow> tx_ready u h = Some (h, tx_fifo h = [])"
  by (simp add: tx_ready_def read_reg_ok hw_read_def hw_lsr_def LSR_THRE_def LSR_DR_def)

lemma read_byte_ok [uart_simps]:
  "uart_ok u \<Longrightarrow> read_byte u h = Some (case rx_fifo h of [] \<Rightarrow> (h, None) | b # bs \<Rightarrow> (h\<lparr>rx_fifo := bs\<rparr>, Some b))"
  by (simp add: read_byte_def read_reg_ok hw_read_def hw_lsr_def LSR_THRE_def LSR_DR_def split: list.splits)

lemma wait_tx_ready_ok [uart_simps]: "uart_ok u \<Longrightarrow> wait_tx_ready u h = Some (hw_flush h)"
proof (induction "tx_fifo h" arbitrary: h)
  case Nil
  then show ?case by (subst wait_tx_ready.simps) (simp add: tx_ready_ok hw_flush_def Nil(1)[symmetric])
next
  case (Cons b bs)
  have t: "tx_fifo (hw_tick h) = bs" using Cons(2)[symmetric] by (simp add: hw_tick_def)
  have "wait_tx_ready u h = wait_tx_ready u (hw_tick h)"
    using Cons by (subst wait_tx_ready.simps) (simp add: tx_ready_ok Cons(2)[symmetric])
  also have "\<dots> = Some (hw_flush (hw_tick h))" using Cons.hyps(1)[OF t[symmetric] Cons.prems] .
  also have "hw_flush (hw_tick h) = hw_flush h" using Cons(2)[symmetric] by (simp add: hw_flush_def hw_tick_def)
  finally show ?case .
qed

lemma drain_rx_ok [uart_simps]: "uart_ok u \<Longrightarrow> drain_rx u h = Some (h\<lparr>rx_fifo := []\<rparr>)"
proof (induction "rx_fifo h" arbitrary: h)
  case Nil
  then show ?case by (subst drain_rx.simps) (simp add: read_byte_ok Nil(1)[symmetric])
next
  case (Cons b bs)
  then show ?case by (subst drain_rx.simps) (simp add: read_byte_ok Cons(2)[symmetric])
qed

lemma uart_get_ok [uart_simps]: "uart_ok (UART s) \<Longrightarrow> uart_get s = Some (UART s)"
  by (auto simp: uart_get_def uart_ok_def QEMU_UART_def NANO_UART_def)

section \<open>The TX pump moves bytes in order\<close>

abbreviation queued :: "writer \<Rightarrow> u8 list" where
  "queued s \<equiv> contents TX_RING_SIZE (TX_RING s)"

abbreviation thre :: "uart_hw \<Rightarrow> bool" where
  "thre h \<equiv> ier h AND IER_THRE \<noteq> 0"

definition writer_inv :: "writer \<Rightarrow> bool" where
  "writer_inv s \<longleftrightarrow> uart_ok (UART s) \<and> ring_wf TX_RING_SIZE (TX_RING s) \<and> length (tx_fifo (hw s)) \<le> TX_FIFO_SIZE"

definition stream :: "writer \<Rightarrow> u8 list" where
  "stream s = line (hw s) @ tx_fifo (hw s) @ queued s"

lemma drain_loop_ok:
  assumes "uart_ok u" "ring_wf TX_RING_SIZE (TX_RING s)" "length (tx_fifo (hw s)) + n \<le> TX_FIFO_SIZE"
  shows "\<exists>r h a. drain_loop u n s = Some (s\<lparr>TX_RING := r, hw := h, TX_ACTIVE := a\<rparr>, length (queued s) < n) \<and>
     ring_wf TX_RING_SIZE r \<and> contents TX_RING_SIZE r = drop n (queued s) \<and>
     h = (hw s)\<lparr>tx_fifo := tx_fifo (hw s) @ take n (queued s),
           ier := (if length (queued s) < n then ier (hw s) AND NOT IER_THRE else ier (hw s))\<rparr>"
  using assms(2,3)
proof (induction n arbitrary: s)
  case 0
  show ?case using 0 by (intro exI[of _ "TX_RING s"] exI[of _ "hw s"] exI[of _ "TX_ACTIVE s"]) simp
next
  case (Suc n)
  obtain r where r: "pop TX_RING_SIZE (TX_RING s) = Some (r, case queued s of [] \<Rightarrow> None | x # _ \<Rightarrow> Some x)"
    "ring_wf TX_RING_SIZE r" "contents TX_RING_SIZE r = tl (queued s)"
    using tx.pop_law[OF Suc.prems(1)] by blast
  show ?case
  proof (cases "queued s")
    case Nil
    then show ?thesis using r assms(1)
      by (intro exI[of _ r] exI[of _ "(hw s)\<lparr>ier := ier (hw s) AND NOT IER_THRE\<rparr>"] exI[of _ False])
        (cases s, simp add: uart_simps)
  next
    case (Cons b bs)
    let ?s = "s\<lparr>TX_RING := r, hw := (hw s)\<lparr>tx_fifo := tx_fifo (hw s) @ [b]\<rparr>\<rparr>"
    have "drain_loop u (Suc n) s = drain_loop u n ?s" using r Cons assms(1) Suc.prems(2) by (simp add: uart_simps)
    moreover have "queued ?s = bs" using r Cons by simp
    moreover obtain r' h a where "drain_loop u n ?s = Some (?s\<lparr>TX_RING := r', hw := h, TX_ACTIVE := a\<rparr>, length (queued ?s) < n)"
      "ring_wf TX_RING_SIZE r'" "contents TX_RING_SIZE r' = drop n (queued ?s)"
      "h = (hw ?s)\<lparr>tx_fifo := tx_fifo (hw ?s) @ take n (queued ?s),
           ier := (if length (queued ?s) < n then ier (hw ?s) AND NOT IER_THRE else ier (hw ?s))\<rparr>"
      using Suc.IH[of ?s] r(2) Suc.prems(2) by auto
    ultimately show ?thesis using Cons by (intro exI[of _ r'] exI[of _ h] exI[of _ a]) (cases s, simp)
  qed
qed

lemma or_thre: "(x OR IER_THRE) AND IER_THRE \<noteq> 0"
proof -
  have "(x OR IER_THRE) AND IER_THRE = IER_THRE" by (rule bit_eqI) (auto simp: bit_simps)
  then show ?thesis by (simp add: IER_THRE_def)
qed

lemma drain_ring_to_fifo_ok:
  assumes "writer_inv s"
  shows "\<exists>r h a. drain_ring_to_fifo s = Some (s\<lparr>TX_RING := r, hw := h, TX_ACTIVE := a\<rparr>) \<and>
     ring_wf TX_RING_SIZE r \<and> contents TX_RING_SIZE r = drop TX_FIFO_SIZE (queued s) \<and>
     tx_fifo h = take TX_FIFO_SIZE (queued s) \<and> line h = line (hw s) @ tx_fifo (hw s) \<and> rx_fifo h = rx_fifo (hw s) \<and>
     (contents TX_RING_SIZE r \<noteq> [] \<longrightarrow> thre h)"
proof -
  have u: "uart_ok (UART s)" "ring_wf TX_RING_SIZE (TX_RING s)" using assms by (auto simp: writer_inv_def)
  define s0 where "s0 = s\<lparr>hw := hw_flush (hw s)\<rparr>"
  have s0: "TX_RING s0 = TX_RING s" "hw s0 = hw_flush (hw s)" by (simp_all add: s0_def)
  obtain r h a where d: "drain_loop (UART s) TX_FIFO_SIZE s0 = Some (s0\<lparr>TX_RING := r, hw := h, TX_ACTIVE := a\<rparr>, length (queued s) < TX_FIFO_SIZE)"
    "ring_wf TX_RING_SIZE r" "contents TX_RING_SIZE r = drop TX_FIFO_SIZE (queued s)"
    "h = (hw_flush (hw s))\<lparr>tx_fifo := tx_fifo (hw_flush (hw s)) @ take TX_FIFO_SIZE (queued s),
           ier := (if length (queued s) < TX_FIFO_SIZE then ier (hw_flush (hw s)) AND NOT IER_THRE else ier (hw_flush (hw s)))\<rparr>"
    using drain_loop_ok[of "UART s" s0 TX_FIFO_SIZE] u unfolding s0 by (auto simp: hw_flush_def)
  have e: "ring_is_empty r = (contents TX_RING_SIZE r = [])" using ring_is_empty_iff[OF d(2)] .
  have f: "tx_fifo h = take TX_FIFO_SIZE (queued s)" "line h = line (hw s) @ tx_fifo (hw s)" "rx_fifo h = rx_fifo (hw s)"
    using d(4) by (simp_all add: hw_flush_def)
  show ?thesis
  proof (cases "contents TX_RING_SIZE r = []")
    case True
    then have "drain_ring_to_fifo s = Some (s\<lparr>TX_RING := r, hw := h, TX_ACTIVE := a\<rparr>)"
      using d(1) e u by (simp add: drain_ring_to_fifo_def uart_simps s0_def)
    then show ?thesis using True d(2,3) f by blast
  next
    case False
    then have "\<not> length (queued s) < TX_FIFO_SIZE" using d(3) by auto
    then have "drain_ring_to_fifo s = Some (s\<lparr>TX_RING := r, hw := h\<lparr>ier := ier h OR IER_THRE\<rparr>, TX_ACTIVE := True\<rparr>)"
      using d(1) e u False by (simp add: drain_ring_to_fifo_def uart_simps s0_def)
    then show ?thesis using d(2,3) f or_thre[of "ier h"]
      by (intro exI[of _ r] exI[of _ "h\<lparr>ier := ier h OR IER_THRE\<rparr>"] exI[of _ True]) simp
  qed
qed

section \<open>Interrupts\<close>

text \<open>
  The pump is on: a byte in the ring has an interrupt to wait for. \<open>to_drain\<close> bounds the interrupts
  until the ring and the FIFO are empty.
\<close>

definition pump :: "writer \<Rightarrow> bool" where
  "pump s \<longleftrightarrow> (queued s \<noteq> [] \<longrightarrow> thre (hw s))"

definition to_drain :: "writer \<Rightarrow> nat" where
  "to_drain s = (length (queued s) + 15) div 16 + (if queued s = [] \<and> tx_fifo (hw s) = [] then 0 else 1)"

lemma to_drain_bound: "to_drain s \<le> 65"
proof -
  have "length (queued s) < TX_RING_SIZE" unfolding contents_length by (rule used_less) (simp add: TX_RING_SIZE_def)
  then have "(length (queued s) + 15) div 16 \<le> 64" by (simp add: TX_RING_SIZE_def)
  then show ?thesis by (simp add: to_drain_def)
qed

lemma to_drain_0: "to_drain s = 0 \<Longrightarrow> line (hw s) = stream s"
  by (simp add: to_drain_def stream_def split: if_splits)

text \<open>What the events may do to the writer's state while the thread is blocked.\<close>

definition irq_rel :: "writer \<Rightarrow> writer \<Rightarrow> bool" where
  "irq_rel s s' \<longleftrightarrow> writer_inv s' \<and> stream s' = stream s \<and> length (queued s') \<le> length (queued s) \<and>
     (BUFFER_SPACE_AVAILABLE s \<longrightarrow> BUFFER_SPACE_AVAILABLE s') \<and>
     (\<not> BUFFER_SPACE_AVAILABLE s \<and> BUFFER_SPACE_AVAILABLE s' \<and> queued s \<noteq> [] \<longrightarrow> length (queued s') < length (queued s)) \<and>
     (pump s \<longrightarrow> pump s' \<and> to_drain s' \<le> to_drain s)"

lemma irq_rel_trans: "irq_rel s t \<Longrightarrow> irq_rel t r \<Longrightarrow> irq_rel s r"
  unfolding irq_rel_def by (cases "queued t = []") auto

lemma irq_rel_refl: "writer_inv s \<Longrightarrow> irq_rel s s"
  by (simp add: irq_rel_def)

lemma notify_ok:
  assumes "writer_inv s" "tx_fifo (hw s) = []"
  shows "\<exists>s'. notify_tx_ready s = Some s' \<and> irq_rel s s' \<and> inbox s' = inbox s \<and>
    (WAITING_FOR_SPACE s \<longrightarrow> BUFFER_SPACE_AVAILABLE s') \<and> to_drain s' \<le> (length (queued s) + 15) div 16"
proof -
  obtain r h a where d: "drain_ring_to_fifo s = Some (s\<lparr>TX_RING := r, hw := h, TX_ACTIVE := a\<rparr>)"
     "ring_wf TX_RING_SIZE r" "contents TX_RING_SIZE r = drop TX_FIFO_SIZE (queued s)"
     "tx_fifo h = take TX_FIFO_SIZE (queued s)" "line h = line (hw s) @ tx_fifo (hw s)"
     "contents TX_RING_SIZE r \<noteq> [] \<longrightarrow> thre h"
    using drain_ring_to_fifo_ok[OF assms(1)] by blast
  define t where "t = (if WAITING_FOR_SPACE s
     then s\<lparr>TX_RING := r, hw := h, TX_ACTIVE := a, WAITING_FOR_SPACE := False, BUFFER_SPACE_AVAILABLE := True, woken := woken s @ [WRITER_THREAD_ID s]\<rparr>
     else s\<lparr>TX_RING := r, hw := h, TX_ACTIVE := a\<rparr>)"
  have n: "notify_tx_ready s = Some t" using d(1) by (simp add: notify_tx_ready_def t_def)
  have f: "UART t = UART s" "TX_RING t = r" "hw t = h" "inbox t = inbox s" by (simp_all add: t_def)
  have i: "writer_inv t" "stream t = stream s" "pump t" using assms d f by (simp_all add: writer_inv_def stream_def pump_def)
  have l: "length (queued t) = length (queued s) - TX_FIFO_SIZE" using d(3) f by simp
  have "0 < n \<Longrightarrow> Suc ((n - 16 + 15) div 16) \<le> (n + 15) div 16" for n :: nat by (cases "n \<le> 16") auto
  from this[of "length (queued s)"] have dr: "to_drain t \<le> (length (queued s) + 15) div 16"
    using l d(3,4) f by (cases "queued s = []") (simp_all add: to_drain_def TX_FIFO_SIZE_def)
  have "to_drain t \<le> to_drain s" using dr by (simp add: to_drain_def)
  moreover have "BUFFER_SPACE_AVAILABLE t = (BUFFER_SPACE_AVAILABLE s \<or> WAITING_FOR_SPACE s)" by (simp add: t_def)
  moreover have "0 < TX_FIFO_SIZE" by (simp add: TX_FIFO_SIZE_def)
  ultimately show ?thesis using n f(4) i l dr by (auto simp: irq_rel_def)
qed

lemma handle_irq_no_rx:
  assumes "uart_ok (UART s)" "rx_fifo (hw s) = []" "tx_fifo (hw s) = []"
  shows "handle_irq s = (if thre (hw s) then notify_tx_ready s else Some s)"
  using assms by (subst handle_irq.simps) (simp add: uart_simps read_reg_ok hw_read_def hw_iir_def)

lemma handle_irq_ok:
  assumes "writer_inv s" "tx_fifo (hw s) = []"
  shows "\<exists>s'. handle_irq s = Some s' \<and> irq_rel s s' \<and> inbox s' = inbox s \<and>
    (WAITING_FOR_SPACE s \<and> thre (hw s) \<longrightarrow> BUFFER_SPACE_AVAILABLE s') \<and>
    (pump s \<longrightarrow> to_drain s' \<le> (length (queued s) + 15) div 16)"
proof -
  have u: "uart_ok (UART s)" using assms by (simp add: writer_inv_def)
  define t where "t = (if ier (hw s) AND IER_RDA \<noteq> 0 then s\<lparr>hw := (hw s)\<lparr>rx_fifo := []\<rparr>\<rparr> else s)"
  have t: "writer_inv t" "irq_rel s t" "uart_ok (UART t)" "tx_fifo (hw t) = []" "ier (hw t) = ier (hw s)"
      "WAITING_FOR_SPACE t = WAITING_FOR_SPACE s" "queued t = queued s" "inbox t = inbox s"
    using assms u by (simp_all add: t_def writer_inv_def irq_rel_def stream_def pump_def to_drain_def)
  have "handle_irq s = (if thre (hw t) then notify_tx_ready t else Some t)"
  proof (cases "ier (hw s) AND IER_RDA \<noteq> 0 \<and> rx_fifo (hw s) \<noteq> []")
    case True
    then have "handle_irq s = handle_irq t"
      using u by (subst handle_irq.simps) (simp add: uart_simps read_reg_ok hw_read_def hw_iir_def t_def)
    then show ?thesis using handle_irq_no_rx[of t] t True by (simp add: t_def)
  next
    case False
    then have "t = s" by (cases s) (auto simp: t_def)
    then show ?thesis using False u assms(2)
      by (subst handle_irq.simps) (auto simp: uart_simps read_reg_ok hw_read_def hw_iir_def)
  qed
  moreover have "\<not> thre (hw t) \<Longrightarrow> pump s \<Longrightarrow> to_drain t \<le> (length (queued s) + 15) div 16"
    using t(4,5,7) by (simp add: pump_def to_drain_def)
  ultimately show ?thesis using notify_ok[OF t(1,4)] t irq_rel_trans[of s t] by (cases "thre (hw t)") auto
qed

text \<open>The messages that events send, and those sent in a whole schedule.\<close>

primrec sent :: "event \<Rightarrow> writer_message list" where
  "sent UartIrq = []"
| "sent (RxByte b) = []"
| "sent (Send m) = [m]"

abbreviation sends :: "event list \<Rightarrow> writer_message list" where
  "sends es \<equiv> concat (map sent es)"

abbreviation arrivals :: "event list list \<Rightarrow> writer_message list" where
  "arrivals ks \<equiv> concat (map sends ks)"

lemma happen_ok:
  assumes "writer_inv s"
  shows "\<exists>s'. happen e s = Some s' \<and> irq_rel s s' \<and> inbox s' = inbox s @ sent e \<and>
    (if e = UartIrq then (WAITING_FOR_SPACE s \<and> thre (hw s) \<longrightarrow> BUFFER_SPACE_AVAILABLE s') \<and> (pump s \<longrightarrow> to_drain s' \<le> to_drain s - 1)
     else WAITING_FOR_SPACE s' = WAITING_FOR_SPACE s \<and> ier (hw s') = ier (hw s))"
proof (cases e)
  case UartIrq
  define t where "t = s\<lparr>hw := hw_flush (hw s)\<rparr>"
  have t: "writer_inv t" "irq_rel s t" "tx_fifo (hw t) = []" "ier (hw t) = ier (hw s)" "WAITING_FOR_SPACE t = WAITING_FOR_SPACE s"
      "queued t = queued s" "inbox t = inbox s" "pump t = pump s"
    using assms by (simp_all add: t_def writer_inv_def irq_rel_def stream_def hw_flush_def pump_def to_drain_def)
  obtain s' where s': "handle_irq t = Some s'" "irq_rel t s'" "inbox s' = inbox t"
      "WAITING_FOR_SPACE t \<and> thre (hw t) \<longrightarrow> BUFFER_SPACE_AVAILABLE s'" "pump t \<longrightarrow> to_drain s' \<le> (length (queued t) + 15) div 16"
    using handle_irq_ok[OF t(1,3)] by blast
  have "happen e s = Some s'" using s'(1) UartIrq by (simp add: t_def)
  moreover have "pump s \<longrightarrow> to_drain s' \<le> to_drain s - 1" using s'(5) t(6,8) by (auto simp: to_drain_def)
  ultimately show ?thesis using s' t irq_rel_trans[OF t(2) s'(2)] UartIrq by auto
qed (use assms in \<open>simp_all add: irq_rel_def writer_inv_def stream_def pump_def to_drain_def\<close>)

lemma block_ok:
  assumes "writer_inv s"
  shows "\<exists>s'. block es s = Some s' \<and> irq_rel s s' \<and> inbox s' = inbox s @ sends es \<and>
    (if UartIrq \<in> set es then (WAITING_FOR_SPACE s \<and> thre (hw s) \<longrightarrow> BUFFER_SPACE_AVAILABLE s') \<and> (pump s \<longrightarrow> to_drain s' \<le> to_drain s - 1)
     else WAITING_FOR_SPACE s' = WAITING_FOR_SPACE s \<and> ier (hw s') = ier (hw s))"
  using assms
proof (induction es arbitrary: s)
  case Nil
  then show ?case by (simp add: block_def irq_rel_refl)
next
  case (Cons e es)
  obtain s1 where s1: "happen e s = Some s1" "irq_rel s s1" "inbox s1 = inbox s @ sent e"
    "if e = UartIrq then (WAITING_FOR_SPACE s \<and> thre (hw s) \<longrightarrow> BUFFER_SPACE_AVAILABLE s1) \<and> (pump s \<longrightarrow> to_drain s1 \<le> to_drain s - 1)
     else WAITING_FOR_SPACE s1 = WAITING_FOR_SPACE s \<and> ier (hw s1) = ier (hw s)"
    using happen_ok[OF Cons.prems, of e] by blast
  have "writer_inv s1" using s1(2) by (simp add: irq_rel_def)
  from Cons.IH[OF this] obtain s2 where s2: "block es s1 = Some s2" "irq_rel s1 s2" "inbox s2 = inbox s1 @ sends es"
    "if UartIrq \<in> set es then (WAITING_FOR_SPACE s1 \<and> thre (hw s1) \<longrightarrow> BUFFER_SPACE_AVAILABLE s2) \<and> (pump s1 \<longrightarrow> to_drain s2 \<le> to_drain s1 - 1)
     else WAITING_FOR_SPACE s2 = WAITING_FOR_SPACE s1 \<and> ier (hw s2) = ier (hw s1)" by blast
  have "block (e # es) s = Some s2" using s1(1) s2(1) by (simp add: block_def)
  moreover have "irq_rel s s2" using irq_rel_trans[OF s1(2) s2(2)] .
  moreover have "UartIrq \<in> set (e # es) \<Longrightarrow> (WAITING_FOR_SPACE s \<and> thre (hw s) \<longrightarrow> BUFFER_SPACE_AVAILABLE s2) \<and> (pump s \<longrightarrow> to_drain s2 \<le> to_drain s - 1)"
    using s1(2,4) s2(2,4) by (cases "e = UartIrq"; cases "UartIrq \<in> set es") (auto simp: irq_rel_def)
  moreover have "UartIrq \<notin> set (e # es) \<Longrightarrow> WAITING_FOR_SPACE s2 = WAITING_FOR_SPACE s \<and> ier (hw s2) = ier (hw s)"
    using s1(4) s2(4) by auto
  ultimately show ?case using s1(3) s2(3) by (intro exI[of _ s2]) auto
qed

text \<open>The number of blocks with an interrupt after the last message of the schedule.\<close>

primrec late_irqs :: "event list list \<Rightarrow> nat" where
  "late_irqs [] = 0"
| "late_irqs (es # ks) = late_irqs ks + (if arrivals (es # ks) = [] \<and> UartIrq \<in> set es then 1 else 0)"

lemma wait_for_space_ok:
  assumes "writer_inv s" "WAITING_FOR_SPACE s" "thre (hw s)"
  shows "case wait_for_space ks s of None \<Rightarrow> late_irqs ks = 0
    | Some (ks', s') \<Rightarrow> irq_rel s s' \<and> BUFFER_SPACE_AVAILABLE s' \<and> inbox s' @ arrivals ks' = inbox s @ arrivals ks \<and>
        late_irqs ks \<le> late_irqs ks' + 1"
  using assms
proof (induction ks arbitrary: s)
  case Nil
  then show ?case by (simp add: irq_rel_refl)
next
  case (Cons es ks)
  obtain s1 where s1: "block es s = Some s1" "irq_rel s s1" "inbox s1 = inbox s @ sends es"
    "UartIrq \<in> set es \<Longrightarrow> BUFFER_SPACE_AVAILABLE s1"
    "UartIrq \<notin> set es \<Longrightarrow> WAITING_FOR_SPACE s1 \<and> thre (hw s1)"
    using block_ok[OF Cons.prems(1), of es] Cons.prems(2,3) by (auto split: if_splits)
  consider "BUFFER_SPACE_AVAILABLE s" | "\<not> BUFFER_SPACE_AVAILABLE s" "UartIrq \<in> set es" | "\<not> BUFFER_SPACE_AVAILABLE s" "UartIrq \<notin> set es" by blast
  then show ?case
  proof cases
    case 1
    then show ?thesis using Cons.prems(1) by (simp add: irq_rel_refl)
  next
    case 2
    then have "wait_for_space ks s1 = Some (ks, s1)" using s1(4) by (cases ks) auto
    then show ?thesis using 2 s1 by simp
  next
    case 3
    have "writer_inv s1" using s1(2) by (simp add: irq_rel_def)
    from Cons.IH[OF this] s1(5)[OF 3(2)] show ?thesis
      using 3 s1(1-3) irq_rel_trans[OF s1(2)] by (auto split: option.splits)
  qed
qed

section \<open>The writer transmits what it is sent\<close>

definition wrote :: "u8 list \<Rightarrow> event list list \<Rightarrow> writer \<Rightarrow> (event list list \<times> writer) option \<Rightarrow> bool" where
  "wrote d ks s res \<longleftrightarrow> (case res of None \<Rightarrow> late_irqs ks < length d
     | Some (ks', s') \<Rightarrow> writer_inv s' \<and> stream s' = stream s @ d \<and> inbox s' @ arrivals ks' = inbox s @ arrivals ks \<and>
         late_irqs ks \<le> late_irqs ks' + length d)"

lemma wrote_seq:
  assumes "wrote d ks s r" "\<And>ks' s'. writer_inv s' \<Longrightarrow> wrote e ks' s' (f (ks', s'))"
  shows "wrote (d @ e) ks s (Option.bind r f)"
proof (cases r)
  case (Some p)
  obtain ks' s' where p: "p = (ks', s')" by (cases p)
  then have "writer_inv s'" "stream s' = stream s @ d" "inbox s' @ arrivals ks' = inbox s @ arrivals ks"
      "late_irqs ks \<le> late_irqs ks' + length d"
    using assms(1) Some by (simp_all add: wrote_def)
  then show ?thesis using assms(2)[of s' ks'] Some p by (auto simp: wrote_def split: option.splits)
qed (use assms(1) in \<open>simp add: wrote_def\<close>)

lemma push_pushes:
  assumes "writer_inv s" "d \<noteq> []" "length (queued s) < TX_RING_SIZE - 1"
  shows "\<exists>s1 n. push_slice_blocking d ks s = push_slice_blocking (drop n d) ks s1 \<and> 0 < n \<and> n \<le> length d \<and>
     writer_inv s1 \<and> stream s1 = stream s @ take n d \<and> inbox s1 = inbox s"
proof -
  have wf: "ring_wf TX_RING_SIZE (TX_RING s)" using assms(1) by (simp add: writer_inv_def)
  obtain r n where r: "push_slice TX_RING_SIZE (TX_RING s) d = Some (r, n)" "0 < n" "n \<le> length d"
    "ring_wf TX_RING_SIZE r" "contents TX_RING_SIZE r = queued s @ take n d"
    using tx.push_progress[OF wf assms(3,2)] by blast
  have "push_slice_blocking d ks s = push_slice_blocking (drop n d) ks (s\<lparr>TX_RING := r\<rparr>)"
    using r(1-3) assms(2) by (subst push_slice_blocking.simps) simp
  then show ?thesis using r assms(1)
    by (intro exI[of _ "s\<lparr>TX_RING := r\<rparr>"] exI[of _ n]) (simp add: writer_inv_def stream_def)
qed

lemma push_blocks:
  assumes "writer_inv s" "d \<noteq> []" "TX_RING_SIZE - 1 \<le> length (queued s)"
  shows "(\<exists>ks' s1. push_slice_blocking d ks s = push_slice_blocking d ks' s1 \<and> writer_inv s1 \<and> stream s1 = stream s \<and>
       length (queued s1) < TX_RING_SIZE - 1 \<and> inbox s1 @ arrivals ks' = inbox s @ arrivals ks \<and> late_irqs ks \<le> late_irqs ks' + 1) \<or>
     push_slice_blocking d ks s = None \<and> late_irqs ks = 0"
proof -
  have wf: "ring_wf TX_RING_SIZE (TX_RING s)" and u: "uart_ok (UART s)" using assms(1) by (simp_all add: writer_inv_def)
  obtain r where r: "push_slice TX_RING_SIZE (TX_RING s) d = Some (r, 0)" "ring_wf TX_RING_SIZE r" "contents TX_RING_SIZE r = queued s"
    using tx.push_law[OF wf, of d] assms(3) by auto
  define t where "t = s\<lparr>TX_RING := r, TX_ACTIVE := True, hw := (hw s)\<lparr>ier := ier (hw s) OR IER_THRE\<rparr>,
      BUFFER_SPACE_AVAILABLE := False, WAITING_FOR_SPACE := True\<rparr>"
  have t: "writer_inv t" "WAITING_FOR_SPACE t" "thre (hw t)" "stream t = stream s" "queued t = queued s" "\<not> BUFFER_SPACE_AVAILABLE t"
      "inbox t = inbox s"
    using assms(1) r or_thre by (simp_all add: t_def writer_inv_def stream_def)
  have b: "push_slice_blocking d ks s = do { (ks', s') \<leftarrow> wait_for_space ks t; push_slice_blocking d ks' (s'\<lparr>WAITING_FOR_SPACE := False\<rparr>) }"
    using r(1) assms(2) u by (subst push_slice_blocking.simps) (simp add: uart_simps t_def)
  show ?thesis
  proof (cases "wait_for_space ks t")
    case None
    then show ?thesis using b wait_for_space_ok[OF t(1-3), of ks] by simp
  next
    case (Some p)
    obtain ks' s' where p: "p = (ks', s')" by (cases p)
    then have w: "irq_rel t s'" "BUFFER_SPACE_AVAILABLE s'" "inbox s' @ arrivals ks' = inbox t @ arrivals ks"
      "late_irqs ks \<le> late_irqs ks' + 1"
      using wait_for_space_ok[OF t(1-3), of ks] Some by simp_all
    have "length (queued s) < TX_RING_SIZE" unfolding contents_length by (rule used_less) (simp add: TX_RING_SIZE_def)
    moreover have "queued s \<noteq> []" using assms(3) by (auto simp: TX_RING_SIZE_def)
    ultimately have full: "length (queued s) \<le> TX_RING_SIZE - 1" "queued s \<noteq> []" by auto
    have "push_slice_blocking d ks s = push_slice_blocking d ks' (s'\<lparr>WAITING_FOR_SPACE := False\<rparr>)" using b Some p by simp
    moreover have "writer_inv (s'\<lparr>WAITING_FOR_SPACE := False\<rparr>)" "stream (s'\<lparr>WAITING_FOR_SPACE := False\<rparr>) = stream s"
        "length (queued s') < TX_RING_SIZE - 1"
      using w t full by (auto simp: irq_rel_def writer_inv_def stream_def)
    ultimately show ?thesis using w(3,4) t(7) by (intro disjI1 exI[of _ ks'] exI[of _ "s'\<lparr>WAITING_FOR_SPACE := False\<rparr>"]) simp
  qed
qed

lemma push_slice_blocking_ok: "writer_inv s \<Longrightarrow> wrote d ks s (push_slice_blocking d ks s)"
proof (induction "length d" arbitrary: d ks s rule: less_induct)
  case less
  show ?case
  proof (cases "d = []")
    case True
    then show ?thesis using less.prems by (subst push_slice_blocking.simps) (simp add: wrote_def)
  next
    case False
    have room: "\<exists>s1 n. 0 < n \<and> n \<le> length d \<and> stream s1 = stream s @ take n d \<and> inbox s1 = inbox s \<and> wrote (drop n d) ks s1 (push_slice_blocking d ks s)"
      if inv: "writer_inv s" "length (queued s) < TX_RING_SIZE - 1" for s ks
    proof -
      obtain s1 n where s1: "push_slice_blocking d ks s = push_slice_blocking (drop n d) ks s1" "0 < n" "n \<le> length d"
        "writer_inv s1" "stream s1 = stream s @ take n d" "inbox s1 = inbox s" using push_pushes[OF inv(1) False inv(2)] by blast
      have "wrote (drop n d) ks s1 (push_slice_blocking (drop n d) ks s1)" using less.hyps[of "drop n d" s1 ks] s1 False by simp
      then show ?thesis using s1 by metis
    qed
    show ?thesis
    proof (cases "length (queued s) < TX_RING_SIZE - 1")
      case True
      then show ?thesis using room[OF less.prems True, of ks] by (auto simp: wrote_def split: option.splits)
    next
      case full: False
      then consider ks' s1 where "push_slice_blocking d ks s = push_slice_blocking d ks' s1" "writer_inv s1" "stream s1 = stream s"
          "length (queued s1) < TX_RING_SIZE - 1" "inbox s1 @ arrivals ks' = inbox s @ arrivals ks" "late_irqs ks \<le> late_irqs ks' + 1"
        | "push_slice_blocking d ks s = None" "late_irqs ks = 0"
        using push_blocks[OF less.prems False, of ks] by fastforce
      then show ?thesis
      proof cases
        case (1 ks' s1)
        then show ?thesis using room[OF 1(2,4), of ks'] by (auto simp: wrote_def split: option.splits)
      next
        case 2
        then show ?thesis using False by (simp add: wrote_def)
      qed
    qed
  qed
qed

text \<open>The line discipline: a line feed goes out as carriage return and line feed.\<close>

fun crlf :: "u8 list \<Rightarrow> u8 list" where
  "crlf [] = []"
| "crlf (b # bs) = (if b = 10 then 13 # 10 # crlf bs else b # crlf bs)"

lemma crlf_append: "crlf (xs @ ys) = crlf xs @ crlf ys"
  by (induction xs) auto

lemma crlf_plain: "10 \<notin> set xs \<Longrightarrow> crlf xs = xs"
  by (induction xs) auto

lemma crlf_at_newline:
  assumes "position (\<lambda>b. b = 10) d = Some i"
  shows "i < length d" "crlf d = take i d @ [13, 10] @ crlf (drop (i + 1) d)"
proof -
  have p: "i < length d" "d ! i = 10" "\<forall>j < i. d ! j \<noteq> 10" using position_SomeD[OF assms] by auto
  then have "10 \<notin> set (take i d)" by (auto simp: in_set_conv_nth)
  then have "crlf (take i d) = take i d" by (rule crlf_plain)
  moreover have "d = take i d @ d ! i # drop (i + 1) d" using p(1) by (simp add: id_take_nth_drop)
  ultimately show "crlf d = take i d @ [13, 10] @ crlf (drop (i + 1) d)"
    using p(2) by (metis append.assoc append_Cons append_Nil crlf.simps(2) crlf_append)
  show "i < length d" by (rule p(1))
qed

lemma push_chunk: "writer_inv s \<Longrightarrow> wrote d ks s (if 0 < length d then push_slice_blocking d ks s else Some (ks, s))"
  by (cases d) (simp_all add: push_slice_blocking_ok, simp add: wrote_def)

lemma write_chunks_ok: "writer_inv s \<Longrightarrow> wrote (crlf d) ks s (write_chunks d ks s)"
proof (induction "length d" arbitrary: d ks s rule: less_induct)
  case less
  show ?case
  proof (cases "d = []")
    case True
    then show ?thesis using less.prems by (simp add: wrote_def write_chunks.simps)
  next
    case False
    show ?thesis
    proof (cases "position (\<lambda>b. b = 10) d")
      case None
      then have "crlf d = d @ []" by (auto intro: crlf_plain)
      moreover have "write_chunks d ks s = Option.bind (if 0 < length d then push_slice_blocking d ks s else Some (ks, s)) (\<lambda>(ks, s). Some (ks, s))"
        using False by (subst write_chunks.simps) (simp add: Let_def None write_chunks.simps[of "[]"] del: position_None_iff)
      ultimately show ?thesis using wrote_seq[OF push_chunk[OF less.prems, of d ks], of "[]" "\<lambda>(ks, s). Some (ks, s)"]
        by (simp add: wrote_def)
    next
      case (Some i)
      note nl = crlf_at_newline[OF Some]
      let ?rest = "\<lambda>(ks, s). write_chunks (drop (i + 1) d) ks s"
      have "write_chunks d ks s = Option.bind (if 0 < length (take i d) then push_slice_blocking (take i d) ks s else Some (ks, s))
          (\<lambda>(ks, s). Option.bind (push_slice_blocking [13, 10] ks s) ?rest)"
        using False Some nl(1) by (subst write_chunks.simps) (simp add: Let_def)
      moreover have "wrote ([13, 10] @ crlf (drop (i + 1) d)) ks' s' (Option.bind (push_slice_blocking [13, 10] ks' s') ?rest)"
        if "writer_inv s'" for ks' s'
        by (rule wrote_seq[OF push_slice_blocking_ok[OF that]]) (use less.hyps[of "drop (i + 1) d"] nl(1) in simp)
      ultimately show ?thesis using wrote_seq[OF push_chunk[OF less.prems, of "take i d" ks]] nl(2) by simp
    qed
  qed
qed

lemma drain_wrote:
  "writer_inv s \<Longrightarrow> \<exists>s'. drain_ring_to_fifo s = Some s' \<and> writer_inv s' \<and> stream s' = stream s \<and> inbox s' = inbox s \<and> pump s'"
  using drain_ring_to_fifo_ok[of s] by (auto simp: writer_inv_def stream_def pump_def)

lemma write_data_ok:
  assumes "writer_inv s"
  shows "wrote (crlf d) ks s (write_data d ks s)"
    "write_data d ks s = Some (ks', s') \<Longrightarrow> pump s'"
proof -
  have w: "wrote (crlf d) ks s (write_chunks d ks s)" using write_chunks_ok[OF assms] .
  show "wrote (crlf d) ks s (write_data d ks s)"
  proof (cases "write_chunks d ks s")
    case (Some p)
    then show ?thesis using w drain_wrote[of "snd p"] by (cases p) (auto simp: write_data_def wrote_def)
  qed (use w in \<open>simp add: write_data_def wrote_def\<close>)
  assume "write_data d ks s = Some (ks', s')"
  then obtain s1 where "write_chunks d ks s = Some (ks', s1)" "drain_ring_to_fifo s1 = Some s'"
    by (auto simp: write_data_def bind_eq_Some_conv)
  then show "pump s'" using w drain_wrote[of s1] by (auto simp: wrote_def)
qed

lemma writer_receive_ok:
  assumes "writer_inv s" "pump s"
  shows "\<exists>ks' s' msg. writer_receive ks s = Some (ks', s', msg) \<and> writer_inv s' \<and> pump s' \<and> stream s' = stream s \<and>
    (case msg of
       None \<Rightarrow> inbox s' = [] \<and> inbox s @ arrivals ks = [] \<and> to_drain s' \<le> to_drain s - late_irqs ks
     | Some m \<Rightarrow> m # inbox s' @ arrivals ks' = inbox s @ arrivals ks \<and> late_irqs ks' = late_irqs ks)"
  using assms
proof (induction ks arbitrary: s)
  case Nil
  then show ?case
    by (cases "inbox s") (simp_all add: writer_receive.simps writer_inv_def pump_def stream_def)
next
  case (Cons es ks)
  show ?case
  proof (cases "inbox s")
    case Nil
    obtain s1 where s1: "block es s = Some s1" "irq_rel s s1" "inbox s1 = sends es"
      "UartIrq \<in> set es \<Longrightarrow> to_drain s1 \<le> to_drain s - 1"
      using block_ok[OF Cons.prems(1), of es] Cons.prems(2) Nil by (auto split: if_splits)
    then have i: "writer_inv s1" "pump s1" "stream s1 = stream s" "to_drain s1 \<le> to_drain s"
      using Cons.prems(2) by (simp_all add: irq_rel_def)
    obtain ks' s' msg where r: "writer_receive ks s1 = Some (ks', s', msg)" "writer_inv s'" "pump s'" "stream s' = stream s1"
      "case msg of None \<Rightarrow> inbox s' = [] \<and> inbox s1 @ arrivals ks = [] \<and> to_drain s' \<le> to_drain s1 - late_irqs ks
       | Some m \<Rightarrow> m # inbox s' @ arrivals ks' = inbox s1 @ arrivals ks \<and> late_irqs ks' = late_irqs ks"
      using Cons.IH[OF i(1,2)] by blast
    have "writer_receive (es # ks) s = Some (ks', s', msg)" using r(1) s1(1) Nil by (simp add: writer_receive.simps[of "es # ks"])
    moreover have "late_irqs (es # ks) = late_irqs ks" if "msg = Some m" for m
    proof -
      have "m # inbox s' @ arrivals ks' = arrivals (es # ks)" using that r(5) s1(3) by simp
      then have "arrivals (es # ks) \<noteq> []" by (metis list.distinct(1))
      then show ?thesis unfolding late_irqs.simps by (simp only: simp_thms if_False add_0_right)
    qed
    ultimately show ?thesis using r(2-5) s1(3,4) i(3,4) Nil by (cases msg) (auto simp del: late_irqs.simps(2), auto split: if_splits)
  qed (use Cons.prems in \<open>simp add: writer_receive.simps writer_inv_def pump_def stream_def\<close>)
qed

text \<open>What the messages put on the line.\<close>

primrec message_bytes :: "writer_message \<Rightarrow> u8 list" where
  "message_bytes (WriteData d) = crlf d"

abbreviation on_line :: "writer_message list \<Rightarrow> u8 list" where
  "on_line ms \<equiv> concat (map message_bytes ms)"

lemma writer_entry_ok:
  assumes "writer_inv s" "pump s"
  shows "case writer_entry ks s of None \<Rightarrow> late_irqs ks < length (on_line (inbox s @ arrivals ks))
    | Some s' \<Rightarrow> writer_inv s' \<and> pump s' \<and> inbox s' = [] \<and> stream s' = stream s @ on_line (inbox s @ arrivals ks) \<and>
        to_drain s' \<le> 65 - (late_irqs ks - length (on_line (inbox s @ arrivals ks)))"
  using assms
proof (induction "length (inbox s @ arrivals ks)" arbitrary: ks s rule: less_induct)
  case less
  obtain ks1 s1 msg where r: "writer_receive ks s = Some (ks1, s1, msg)" "writer_inv s1" "pump s1" "stream s1 = stream s"
    "case msg of None \<Rightarrow> inbox s1 = [] \<and> inbox s @ arrivals ks = [] \<and> to_drain s1 \<le> to_drain s - late_irqs ks
     | Some m \<Rightarrow> m # inbox s1 @ arrivals ks1 = inbox s @ arrivals ks \<and> late_irqs ks1 = late_irqs ks"
    using writer_receive_ok[OF less.prems, of ks] by blast
  show ?case
  proof (cases msg)
    case None
    then have "writer_entry ks s = Some s1" using r(1) by (subst writer_entry.simps) simp
    moreover have "inbox s @ arrivals ks = []" "inbox s1 = []" "to_drain s1 \<le> to_drain s - late_irqs ks" using r(5) None by simp_all
    ultimately show ?thesis using r(2-4) to_drain_bound[of s] by (simp only: option.simps) simp
  next
    case (Some m)
    obtain d where m: "m = WriteData d" by (cases m)
    have ib: "inbox s @ arrivals ks = m # inbox s1 @ arrivals ks1" and li: "late_irqs ks1 = late_irqs ks"
      using r(5) Some by simp_all
    have e: "writer_entry ks s = do { (ks, s) \<leftarrow> write_data d ks1 s1; writer_entry ks s }"
      using r(1) Some m by (subst writer_entry.simps) simp
    note w = write_data_ok[OF r(2), of d ks1]
    show ?thesis
    proof (cases "write_data d ks1 s1")
      case None
      then show ?thesis using w(1) e m li unfolding ib by (simp add: wrote_def)
    next
      case (Some p)
      obtain ks2 s2 where p: "p = (ks2, s2)" by (cases p)
      then have w2: "writer_inv s2" "pump s2" "stream s2 = stream s1 @ crlf d" "inbox s2 @ arrivals ks2 = inbox s1 @ arrivals ks1"
        "late_irqs ks1 \<le> late_irqs ks2 + length (crlf d)"
        using w Some by (auto simp: wrote_def)
      have "length (inbox s2 @ arrivals ks2) < length (inbox s @ arrivals ks)" unfolding ib w2(4) by simp
      note ih = less.hyps[OF this w2(1,2)]
      have "65 - (late_irqs ks2 - w) \<le> 65 - (late_irqs ks - (length (crlf d) + w))" for w using w2(5) li by arith
      then show ?thesis
        using ih e Some p w2(3,5) r(4) li m unfolding ib w2(4) by (auto split: option.splits intro: order_trans)
    qed
  qed
qed


definition writer_boot :: writer where
  "writer_boot = \<lparr>UART = QEMU_UART, hw = \<lparr>ier = 0, rx_fifo = [], tx_fifo = [], line = []\<rparr>, TX_RING = ring_new TX_RING_SIZE,
     WRITER_THREAD_ID = 3, TX_ACTIVE = False, WAITING_FOR_SPACE = False, BUFFER_SPACE_AVAILABLE = False, woken = [], inbox = []\<rparr>"


end
