(* ===== verification/File_Api.thy ===== *)
theory File_Api
  imports Bytes "HOL-Library.List_Lexorder" "HOL-Library.Char_ord" "HOL-Library.Product_Lexorder"
begin

text \<open>
  The file layer's data (file.rs): errors, inodes, open files, the default file operations, and what
  the file systems use of Rust's library: UTF-8 strings, path splitting and ordered maps.

  A Rust string is a HOL \<open>string\<close>, one character per UTF-8 byte. The inodes that \<open>Arc\<close> pointers
  share live in a store, a list indexed by the inode's identity; an inode is never freed in the model.
  The trait objects \<open>iops\<close> and \<open>fops\<close> are values of an enumeration of the kernel's operation tables,
  and \<open>fs_data\<close> is the sum of the types the file systems put there.
\<close>

section \<open>Data\<close>

datatype error = UnexpectedEof | InvalidUtf8 | InvalidInput | NotADirectory | NotFound

definition S_IFMT :: u16 where "S_IFMT = 0xf000"
definition S_IFREG :: u16 where "S_IFREG = 0x8000"
definition S_IFDIR :: u16 where "S_IFDIR = 0x4000"
definition S_IFCHR :: u16 where "S_IFCHR = 0x2000"
definition S_IFBLK :: u16 where "S_IFBLK = 0x6000"

datatype file_type = RegularFile | Directory | CharDevice | BlockDevice

record dir_entry =
  de_name :: string
  de_file_type :: file_type

datatype seek_from = Start usize | Current int

datatype inode_ops = RAMFS_INODE_OPS | PROCFS_INODE_OPS | EXT2_INODE_OPS

datatype file_ops = RAMFS_FILE_OPS | PROCFS_DIR_OPS | PROCFS_FILE_OPS | EXT2_FILE_OPS | UART_FILE_OPS

type_synonym inode_ref = nat

datatype fs_data =
    RamfsFile "u8 list"
  | RamfsDir "(string \<times> inode_ref) list"
  | RamfsCharDevice
  | RamfsBlockDevice
  | ProcfsDir
  | ProcfsFile nat
  | ProcfsFileData "u8 list"
  | Ext2InodeData nat "u32 list"

record inode =
  i_ino :: u64
  i_file_type :: file_type
  i_len :: usize
  i_iops :: inode_ops
  i_fops :: file_ops
  i_sb :: "nat option"
  i_rdev :: "(u32 \<times> u32) option"
  i_fs_data :: fs_data

type_synonym istore = "inode list"

record open_file =
  f_fops :: file_ops
  f_offset :: usize
  f_inode :: inode_ref

definition file_new :: "file_ops \<Rightarrow> inode_ref \<Rightarrow> open_file" where
  "file_new fops i = \<lparr>f_fops = fops, f_offset = 0, f_inode = i\<rparr>"

text \<open>\<open>Arc::new\<close>: a new inode and its identity.\<close>

definition arc_new :: "istore \<Rightarrow> inode \<Rightarrow> istore \<times> inode_ref" where
  "arc_new st i = (st @ [i], length st)"

definition inode_id :: "inode_ref \<Rightarrow> usize" where
  "inode_id i = i"

section \<open>Default file operations\<close>

definition default_open :: "istore \<Rightarrow> inode_ref \<Rightarrow> error + open_file" where
  "default_open st i = Inr (file_new (i_fops (st ! i)) i)"

definition default_read :: "open_file \<Rightarrow> usize \<Rightarrow> open_file \<times> (error + u8 list)" where
  "default_read f n = (f, Inl InvalidInput)"

definition default_write :: "open_file \<Rightarrow> u8 list \<Rightarrow> error + usize" where
  "default_write f data = Inl InvalidInput"

definition isize_min :: int where
  "isize_min = - (2 ^ 63)"

definition saturating_add :: "usize \<Rightarrow> usize \<Rightarrow> usize" where
  "saturating_add a b = min (a + b) (usize_bound - 1)"

definition seek :: "istore \<Rightarrow> open_file \<Rightarrow> seek_from \<Rightarrow> open_file option" where
  "seek st f pos =
     (let file_len = i_len (st ! f_inode f) in
      case pos of
        Start n \<Rightarrow> Some (f\<lparr>f_offset := min n file_len\<rparr>)
      | Current n \<Rightarrow>
          if 0 \<le> n then Some (f\<lparr>f_offset := min (saturating_add (f_offset f) (nat n)) file_len\<rparr>)
          else if n = isize_min then None
          else Some (f\<lparr>f_offset := f_offset f - nat (- n)\<rparr>))"

definition default_readdir :: "open_file \<Rightarrow> error + dir_entry list" where
  "default_readdir f = Inl InvalidInput"

definition default_lookup :: "inode_ref \<Rightarrow> string \<Rightarrow> error + inode_ref" where
  "default_lookup i name = Inl InvalidInput"

section \<open>Strings\<close>

definition utf8_cont :: "nat \<Rightarrow> bool" where
  "utf8_cont b \<longleftrightarrow> 0x80 \<le> b \<and> b \<le> 0xbf"

fun utf8_valid :: "nat list \<Rightarrow> bool" where
  "utf8_valid [] = True"
| "utf8_valid (a # bs) =
     (if a < 0x80 then utf8_valid bs
      else case bs of [] \<Rightarrow> False
      | b # cs \<Rightarrow>
          if 0xc2 \<le> a \<and> a \<le> 0xdf then utf8_cont b \<and> utf8_valid cs
          else case cs of [] \<Rightarrow> False
          | c # ds \<Rightarrow>
              if a = 0xe0 \<and> 0xa0 \<le> b \<and> b \<le> 0xbf \<or> (0xe1 \<le> a \<and> a \<le> 0xec \<or> a = 0xee \<or> a = 0xef) \<and> utf8_cont b
                 \<or> a = 0xed \<and> 0x80 \<le> b \<and> b \<le> 0x9f
              then utf8_cont c \<and> utf8_valid ds
              else case ds of [] \<Rightarrow> False
              | d # es \<Rightarrow>
                  (a = 0xf0 \<and> 0x90 \<le> b \<and> b \<le> 0xbf \<or> 0xf1 \<le> a \<and> a \<le> 0xf3 \<and> utf8_cont b \<or> a = 0xf4 \<and> 0x80 \<le> b \<and> b \<le> 0x8f)
                  \<and> utf8_cont c \<and> utf8_cont d \<and> utf8_valid es)"

definition to_str :: "u8 list \<Rightarrow> string" where
  "to_str bs = map (\<lambda>b. char_of (unat b)) bs"

definition from_utf8 :: "u8 list \<Rightarrow> string option" where
  "from_utf8 bs = (if utf8_valid (map unat bs) then Some (to_str bs) else None)"

definition as_bytes :: "string \<Rightarrow> u8 list" where
  "as_bytes s = map (\<lambda>c. word_of_nat (of_char c)) s"

text \<open>\<open>str::split\<close> on one character, and the path components the code iterates over.\<close>

fun split_on :: "char \<Rightarrow> string \<Rightarrow> string list" where
  "split_on c [] = [[]]"
| "split_on c (x # xs) =
     (if x = c then [] # split_on c xs
      else case split_on c xs of p # ps \<Rightarrow> (x # p) # ps | [] \<Rightarrow> [[x]])"

definition path_parts :: "string \<Rightarrow> string list" where
  "path_parts path = filter (\<lambda>s. s \<noteq> []) (split_on (CHR ''/'') path)"

lemma as_bytes_to_str [simp]: "as_bytes (to_str bs) = bs"
  by (induction bs) (auto simp: as_bytes_def to_str_def of_char_of take_bit_eq_mod u8_less)

lemma as_bytes_length [simp]: "length (as_bytes s) = length s"
  by (simp add: as_bytes_def)

lemma ascii_utf8: "\<forall>b \<in> set bs. b < 0x80 \<Longrightarrow> utf8_valid bs"
  by (induction bs) auto

lemma split_on_nonempty: "split_on c s \<noteq> []"
  by (cases s) (auto split: list.splits)

lemma split_on_plain: "c \<notin> set s \<Longrightarrow> split_on c s = [s]"
  by (induction s) auto

lemma split_on_sep: "c \<notin> set s \<Longrightarrow> split_on c (s @ c # t) = s # split_on c t"
  by (induction s) auto

lemma path_parts_no_slash: "p \<in> set (path_parts path) \<Longrightarrow> CHR ''/'' \<notin> set p \<and> p \<noteq> []"
proof -
  have "p \<in> set (split_on c path) \<Longrightarrow> c \<notin> set p" for c
    by (induction path arbitrary: p) (auto split: if_splits list.splits)
  then show "p \<in> set (path_parts path) \<Longrightarrow> CHR ''/'' \<notin> set p \<and> p \<noteq> []" by (auto simp: path_parts_def)
qed

section \<open>Ordered maps\<close>

text \<open>\<open>BTreeMap\<close>: an association list in the order of the keys. \<open>get\<close> is \<open>map_of\<close>.\<close>

fun btree_insert :: "'k :: linorder \<Rightarrow> 'v \<Rightarrow> ('k \<times> 'v) list \<Rightarrow> ('k \<times> 'v) list" where
  "btree_insert k v [] = [(k, v)]"
| "btree_insert k v ((k', v') # xs) =
     (if k < k' then (k, v) # (k', v') # xs
      else if k = k' then (k, v) # xs
      else (k', v') # btree_insert k v xs)"

definition btree_ok :: "('k :: linorder \<times> 'v) list \<Rightarrow> bool" where
  "btree_ok m \<longleftrightarrow> sorted_wrt (<) (map fst m)"

text \<open>What the users of a map rely on.\<close>

locale key_map =
  fixes ok :: "'m \<Rightarrow> bool"
    and get :: "'m \<Rightarrow> 'k \<Rightarrow> 'v option"
    and put :: "'k \<Rightarrow> 'v \<Rightarrow> 'm \<Rightarrow> 'm"
  assumes ok_put: "ok m \<Longrightarrow> ok (put k v m)"
    and get_put: "ok m \<Longrightarrow> get (put k v m) k' = (if k' = k then Some v else get m k')"
begin

lemma fold_put:
  "ok m \<Longrightarrow> ok (fold (\<lambda>(k, v). put k v) kvs m) \<and>
   get (fold (\<lambda>(k, v). put k v) kvs m) x = (case map_of (rev kvs) x of None \<Rightarrow> get m x | Some v \<Rightarrow> Some v)"
proof (induction kvs arbitrary: m)
  case (Cons kv kvs)
  obtain k v where kv: "kv = (k, v)" by (cases kv)
  show ?case using Cons.IH[OF ok_put[OF Cons.prems], of k v] get_put[OF Cons.prems, of k v x]
    by (auto simp: kv map_add_def split: option.splits)
qed simp

end

lemma btree_insert_keys: "set (map fst (btree_insert k v m)) = insert k (set (map fst m))"
  by (induction k v m rule: btree_insert.induct) auto

lemma btree_insert_ok: "btree_ok m \<Longrightarrow> btree_ok (btree_insert k v m)"
proof (induction k v m rule: btree_insert.induct)
  case (2 k v k' v' xs)
  then show ?case using btree_insert_keys[of k v xs] by (auto simp: btree_ok_def)
qed (simp add: btree_ok_def)

lemma btree_get_insert: "btree_ok m \<Longrightarrow> map_of (btree_insert k v m) k2 = (if k2 = k then Some v else map_of m k2)"
proof (induction k v m rule: btree_insert.induct)
  case (2 k v k' v' xs)
  then show ?case by (auto simp: btree_ok_def)
qed simp

interpretation btree: key_map btree_ok map_of btree_insert
  by unfold_locales (simp_all add: btree_insert_ok btree_get_insert)

lemma btree_insert_set:
  "btree_ok m \<Longrightarrow> set (btree_insert k v m) = insert (k, v) {e \<in> set m. fst e \<noteq> k}"
proof (induction k v m rule: btree_insert.induct)
  case (2 k v k' v' xs)
  then show ?case by (auto simp: btree_ok_def)
qed simp

lemma btree_get_iff: "btree_ok m \<Longrightarrow> map_of m k = Some v \<longleftrightarrow> (k, v) \<in> set m"
  by (rule map_of_eq_Some_iff) (auto simp: btree_ok_def strict_sorted_iff)

end
