(* ===== verification/Ramfs.thy ===== *)
theory Ramfs
  imports File_Api "HOL-Library.Sublist"
begin

text \<open>
  The RAM file system (fs/ramfs.rs): directories are inodes of the shared store whose \<open>fs_data\<close> is an
  ordered map from names to inodes. The theory shows that the store stays a tree and that inserting
  a file makes exactly that path resolve to it.
\<close>

section \<open>Operations\<close>

definition ramfs_lookup :: "istore \<Rightarrow> inode_ref \<Rightarrow> string \<Rightarrow> (error + inode_ref) option" where
  "ramfs_lookup st i name =
     (case i_fs_data (st ! i) of
        RamfsDir children \<Rightarrow> Some (case map_of children name of None \<Rightarrow> Inl NotFound | Some c \<Rightarrow> Inr c)
      | RamfsFile _ \<Rightarrow> Some (Inl NotADirectory)
      | RamfsCharDevice \<Rightarrow> Some (Inl NotADirectory)
      | RamfsBlockDevice \<Rightarrow> Some (Inl NotADirectory)
      | _ \<Rightarrow> None)"

definition ramfs_read :: "istore \<Rightarrow> open_file \<Rightarrow> usize \<Rightarrow> (open_file \<times> (error + u8 list)) option" where
  "ramfs_read st f buf_len =
     (case i_fs_data (st ! f_inode f) of
        RamfsFile data \<Rightarrow> do {
          remaining \<leftarrow> slice data (f_offset f) (length data);
          let len = min (length remaining) buf_len;
          off \<leftarrow> uadd (f_offset f) len;
          Some (f\<lparr>f_offset := off\<rparr>, Inr (take len remaining))
        }
      | _ \<Rightarrow> Some (f, Inl InvalidInput))"

definition ramfs_write :: "open_file \<Rightarrow> u8 list \<Rightarrow> error + usize" where
  "ramfs_write f data = Inl InvalidInput"

definition ramfs_readdir :: "istore \<Rightarrow> open_file \<Rightarrow> error + dir_entry list" where
  "ramfs_readdir st f =
     (case i_fs_data (st ! f_inode f) of
        RamfsDir children \<Rightarrow> Inr (map (\<lambda>(name, c). \<lparr>de_name = name, de_file_type = i_file_type (st ! c)\<rparr>) children)
      | RamfsFile _ \<Rightarrow> Inl NotADirectory
      | RamfsCharDevice \<Rightarrow> Inl NotADirectory
      | RamfsBlockDevice \<Rightarrow> Inl NotADirectory
      | _ \<Rightarrow> Inl InvalidInput)"

record ramfs =
  r_root :: inode_ref
  r_next_ino :: u64

definition make_dir_inode :: "u64 \<Rightarrow> inode" where
  "make_dir_inode ino = \<lparr>i_ino = ino, i_file_type = Directory, i_len = 0, i_iops = RAMFS_INODE_OPS, i_fops = RAMFS_FILE_OPS,
     i_sb = None, i_rdev = None, i_fs_data = RamfsDir []\<rparr>"

definition ramfs_new :: "istore \<Rightarrow> istore \<times> ramfs" where
  "ramfs_new st = (let (st, root) = arc_new st (make_dir_inode 1) in (st, \<lparr>r_root = root, r_next_ino = 2\<rparr>))"

definition alloc_ino :: "ramfs \<Rightarrow> ramfs \<times> u64" where
  "alloc_ino r = (r\<lparr>r_next_ino := r_next_ino r + 1\<rparr>, r_next_ino r)"

definition make_file_inode :: "ramfs \<Rightarrow> u8 list \<Rightarrow> ramfs \<times> inode" where
  "make_file_inode r data = (let (r, ino) = alloc_ino r in
     (r, \<lparr>i_ino = ino, i_file_type = RegularFile, i_len = length data, i_iops = RAMFS_INODE_OPS, i_fops = RAMFS_FILE_OPS,
          i_sb = None, i_rdev = None, i_fs_data = RamfsFile data\<rparr>))"

definition make_dev_inode :: "ramfs \<Rightarrow> file_type \<Rightarrow> u32 \<Rightarrow> u32 \<Rightarrow> (ramfs \<times> inode) option" where
  "make_dev_inode r file_type major minor = do {
     node \<leftarrow> (case file_type of CharDevice \<Rightarrow> Some RamfsCharDevice | BlockDevice \<Rightarrow> Some RamfsBlockDevice | _ \<Rightarrow> None);
     let (r, ino) = alloc_ino r;
     Some (r, \<lparr>i_ino = ino, i_file_type = file_type, i_len = 0, i_iops = RAMFS_INODE_OPS, i_fops = RAMFS_FILE_OPS,
          i_sb = None, i_rdev = Some (major, minor), i_fs_data = node\<rparr>)
   }"

definition get_or_create_dir :: "ramfs \<Rightarrow> istore \<Rightarrow> inode_ref \<Rightarrow> string \<Rightarrow> (ramfs \<times> istore \<times> (error + inode_ref)) option" where
  "get_or_create_dir r st parent name =
     (case i_fs_data (st ! parent) of
        RamfsDir children \<Rightarrow>
          (case map_of children name of
             Some existing \<Rightarrow> Some (r, st, Inr existing)
           | None \<Rightarrow>
               let (r, ino) = alloc_ino r; (st, new_dir) = arc_new st (make_dir_inode ino) in
               Some (r, st[parent := (st ! parent)\<lparr>i_fs_data := RamfsDir (btree_insert name new_dir children)\<rparr>], Inr new_dir))
      | RamfsFile _ \<Rightarrow> Some (r, st, Inl InvalidInput)
      | RamfsCharDevice \<Rightarrow> Some (r, st, Inl InvalidInput)
      | RamfsBlockDevice \<Rightarrow> Some (r, st, Inl InvalidInput)
      | _ \<Rightarrow> None)"

definition dir_insert :: "istore \<Rightarrow> inode_ref \<Rightarrow> string \<Rightarrow> inode_ref \<Rightarrow> istore option" where
  "dir_insert st parent name child =
     (case i_fs_data (st ! parent) of
        RamfsDir children \<Rightarrow> Some (st[parent := (st ! parent)\<lparr>i_fs_data := RamfsDir (btree_insert name child children)\<rparr>])
      | RamfsFile _ \<Rightarrow> Some st
      | RamfsCharDevice \<Rightarrow> Some st
      | RamfsBlockDevice \<Rightarrow> Some st
      | _ \<Rightarrow> None)"

fun descend :: "ramfs \<Rightarrow> istore \<Rightarrow> inode_ref \<Rightarrow> string list \<Rightarrow> (ramfs \<times> istore \<times> (error + inode_ref)) option" where
  "descend r st current [] = Some (r, st, Inr current)"
| "descend r st current (dir_name # dirs) = do {
     (r, st, res) \<leftarrow> get_or_create_dir r st current dir_name;
     (case res of Inl e \<Rightarrow> Some (r, st, Inl e) | Inr current \<Rightarrow> descend r st current dirs)
   }"

definition insert_dir :: "ramfs \<Rightarrow> istore \<Rightarrow> string \<Rightarrow> (ramfs \<times> istore \<times> (error + unit)) option" where
  "insert_dir r st path =
     (let parts = path_parts path in
      if parts = [] then Some (r, st, Inl InvalidInput)
      else do {
        (r, st, res) \<leftarrow> descend r st (r_root r) parts;
        Some (r, st, map_sum id (\<lambda>_. ()) res)
      })"

definition insert_leaf :: "ramfs \<Rightarrow> istore \<Rightarrow> string \<Rightarrow> inode_ref \<Rightarrow> (ramfs \<times> istore \<times> (error + unit)) option" where
  "insert_leaf r st path i =
     (let parts = path_parts path in
      if parts = [] then Some (r, st, Inl InvalidInput)
      else do {
        (r, st, res) \<leftarrow> descend r st (r_root r) (butlast parts);
        (case res of
           Inl e \<Rightarrow> Some (r, st, Inl e)
         | Inr current \<Rightarrow> do { st \<leftarrow> dir_insert st current (last parts) i; Some (r, st, Inr ()) })
      })"

definition insert_file :: "ramfs \<Rightarrow> istore \<Rightarrow> string \<Rightarrow> u8 list \<Rightarrow> (ramfs \<times> istore \<times> (error + unit)) option" where
  "insert_file r st path data =
     (let (r, node) = make_file_inode r data; (st, i) = arc_new st node in insert_leaf r st path i)"

definition insert_chardev :: "ramfs \<Rightarrow> istore \<Rightarrow> string \<Rightarrow> u32 \<Rightarrow> u32 \<Rightarrow> (ramfs \<times> istore \<times> (error + unit)) option" where
  "insert_chardev r st path major minor = do {
     (r, node) \<leftarrow> make_dev_inode r CharDevice major minor;
     let (st, i) = arc_new st node;
     insert_leaf r st path i
   }"

definition insert_blockdev :: "ramfs \<Rightarrow> istore \<Rightarrow> string \<Rightarrow> u32 \<Rightarrow> u32 \<Rightarrow> (ramfs \<times> istore \<times> (error + unit)) option" where
  "insert_blockdev r st path major minor = do {
     (r, node) \<leftarrow> make_dev_inode r BlockDevice major minor;
     let (st, i) = arc_new st node;
     insert_leaf r st path i
   }"

text \<open>Resolving a path component by component, as the VFS does below a mount point.\<close>

fun ramfs_walk :: "istore \<Rightarrow> inode_ref \<Rightarrow> string list \<Rightarrow> (error + inode_ref) option" where
  "ramfs_walk st i [] = Some (Inr i)"
| "ramfs_walk st i (name # names) = do {
     r \<leftarrow> ramfs_lookup st i name;
     (case r of Inl e \<Rightarrow> Some (Inl e) | Inr c \<Rightarrow> ramfs_walk st c names)
   }"

section \<open>The store is a tree\<close>

definition children_of :: "istore \<Rightarrow> inode_ref \<Rightarrow> (string \<times> inode_ref) list" where
  "children_of st i = (case i_fs_data (st ! i) of RamfsDir cs \<Rightarrow> cs | _ \<Rightarrow> [])"

definition is_dir :: "istore \<Rightarrow> inode_ref \<Rightarrow> bool" where
  "is_dir st i \<longleftrightarrow> (case i_fs_data (st ! i) of RamfsDir cs \<Rightarrow> True | _ \<Rightarrow> False)"

definition is_ramfs :: "fs_data \<Rightarrow> bool" where
  "is_ramfs d \<longleftrightarrow> (case d of RamfsFile _ \<Rightarrow> True | RamfsDir _ \<Rightarrow> True | RamfsCharDevice \<Rightarrow> True | RamfsBlockDevice \<Rightarrow> True | _ \<Rightarrow> False)"

definition edge :: "istore \<Rightarrow> inode_ref \<Rightarrow> string \<Rightarrow> inode_ref \<Rightarrow> bool" where
  "edge st p n c \<longleftrightarrow> p < length st \<and> (n, c) \<in> set (children_of st p)"

definition orphan :: "istore \<Rightarrow> inode_ref \<Rightarrow> bool" where
  "orphan st c \<longleftrightarrow> (\<forall>p n. \<not> edge st p n c)"

definition ramfs_wf :: "istore \<Rightarrow> inode_ref \<Rightarrow> bool" where
  "ramfs_wf st root \<longleftrightarrow> root < length st \<and> is_dir st root \<and> orphan st root \<and>
     (\<forall>p < length st. btree_ok (children_of st p)) \<and>
     (\<forall>p n c. edge st p n c \<longrightarrow> c < length st \<and> is_ramfs (i_fs_data (st ! c))) \<and>
     (\<forall>p q n m c. edge st p n c \<and> edge st q m c \<longrightarrow> p = q \<and> n = m)"

lemma lookup_edge:
  assumes "ramfs_wf st root" "p < length st"
  shows "ramfs_lookup st p n = Some (Inr c) \<longleftrightarrow> edge st p n c"
proof -
  have "btree_ok (children_of st p)" using assms by (simp add: ramfs_wf_def)
  then show ?thesis using assms(2) btree_get_iff[of "children_of st p" n c]
    by (auto simp: ramfs_lookup_def edge_def children_of_def split: fs_data.splits option.splits)
qed

lemma walk_Cons_Inr:
  "ramfs_walk st i (n # q) = Some (Inr j) \<longleftrightarrow> (\<exists>c. ramfs_lookup st i n = Some (Inr c) \<and> ramfs_walk st c q = Some (Inr j))"
  by (cases "ramfs_lookup st i n"; cases "the (ramfs_lookup st i n)") auto

lemma ramfs_walk_append:
  "ramfs_walk st i (xs @ ys) = do { r \<leftarrow> ramfs_walk st i xs; (case r of Inl e \<Rightarrow> Some (Inl e) | Inr c \<Rightarrow> ramfs_walk st c ys) }"
  by (induction xs arbitrary: i) (auto split: Option.bind_splits sum.splits)

lemma walk_snoc: "ramfs_walk st i xs = Some (Inr d) \<Longrightarrow> ramfs_walk st i (xs @ [n]) = ramfs_lookup st d n"
  by (cases "ramfs_lookup st d n"; cases "the (ramfs_lookup st d n)") (simp_all add: ramfs_walk_append)

lemma walk_snocE:
  assumes "ramfs_walk st i (xs @ [n]) = Some (Inr j)"
  obtains d where "ramfs_walk st i xs = Some (Inr d)" "ramfs_lookup st d n = Some (Inr j)"
  using assms by (cases "ramfs_walk st i xs"; cases "the (ramfs_walk st i xs)") (auto simp: ramfs_walk_append walk_Cons_Inr simp del: ramfs_walk.simps(2))

lemma walk_bound: "ramfs_wf st root \<Longrightarrow> i < length st \<Longrightarrow> ramfs_walk st i q = Some (Inr j) \<Longrightarrow> j < length st"
proof (induction q arbitrary: i)
  case (Cons n q)
  then obtain c where c: "ramfs_lookup st i n = Some (Inr c)" "ramfs_walk st c q = Some (Inr j)"
    by (auto simp: walk_Cons_Inr simp del: ramfs_walk.simps(2))
  have "c < length st" using c(1) lookup_edge[OF Cons.prems(1,2)] Cons.prems(1) by (auto simp: ramfs_wf_def)
  then show ?case using Cons.IH Cons.prems c by blast
qed simp

lemma walk_unique:
  assumes "ramfs_wf st root" "ramfs_walk st root p = Some (Inr d)" "ramfs_walk st root q = Some (Inr d)"
  shows "p = q"
  using assms(2,3)
proof (induction p arbitrary: q d rule: rev_induct)
  have root: "root < length st" "orphan st root" using assms(1) by (simp_all add: ramfs_wf_def)
  have last: "\<exists>d'. d' < length st \<and> ramfs_walk st root xs = Some (Inr d') \<and> edge st d' n d"
    if "ramfs_walk st root (xs @ [n]) = Some (Inr d)" for xs n d
    using that lookup_edge[OF assms(1)] walk_bound[OF assms(1) root(1)] by (elim walk_snocE) blast
  {
    case Nil
    show ?case
    proof (cases q rule: rev_cases)
      case (snoc ys y)
      then show ?thesis using last[of ys y root] Nil root by (auto simp: orphan_def)
    qed simp
  next
    case (snoc n p)
    obtain d1 where d1: "ramfs_walk st root p = Some (Inr d1)" "edge st d1 n d" using last[OF snoc.prems(1)] by blast
    show ?case
    proof (cases q rule: rev_cases)
      case Nil
      then show ?thesis using snoc.prems d1 root by (auto simp: orphan_def)
    next
      case (snoc ys y)
      then obtain d2 where "ramfs_walk st root ys = Some (Inr d2)" "edge st d2 y d" using last[of ys y d] snoc.prems by blast
      then show ?thesis using d1 snoc.IH[OF d1(1)] assms(1) snoc unfolding ramfs_wf_def by metis
    qed
  }
qed

section \<open>Adding an inode and adding an entry\<close>

definition set_child :: "istore \<Rightarrow> inode_ref \<Rightarrow> string \<Rightarrow> inode_ref \<Rightarrow> istore" where
  "set_child st p n c = st[p := (st ! p)\<lparr>i_fs_data := RamfsDir (btree_insert n c (children_of st p))\<rparr>]"

definition leaf_data :: "fs_data \<Rightarrow> bool" where
  "leaf_data d \<longleftrightarrow> is_ramfs d \<and> (\<forall>cs. d = RamfsDir cs \<longrightarrow> cs = [])"

text \<open>\<open>extends\<close>: every path that resolved still resolves to the same inode.\<close>

definition extends :: "inode_ref \<Rightarrow> istore \<Rightarrow> istore \<Rightarrow> bool" where
  "extends root st st' \<longleftrightarrow> (\<forall>q j. ramfs_walk st root q = Some (Inr j) \<longrightarrow> ramfs_walk st' root q = Some (Inr j))"

lemma extends_trans: "extends root a b \<Longrightarrow> extends root b c \<Longrightarrow> extends root a c"
  by (simp add: extends_def)

lemma lookup_cong: "st ! p = st' ! p \<Longrightarrow> ramfs_lookup st p = ramfs_lookup st' p"
  by (simp add: ramfs_lookup_def fun_eq_iff)

lemma walk_cong:
  assumes "ramfs_wf st root" "\<And>i. i < length st \<Longrightarrow> st' ! i = st ! i" "i < length st" "ramfs_walk st i q = Some (Inr j)"
  shows "ramfs_walk st' i q = Some (Inr j)"
  using assms(3,4)
proof (induction q arbitrary: i)
  case (Cons n q)
  then obtain c where c: "ramfs_lookup st i n = Some (Inr c)" "ramfs_walk st c q = Some (Inr j)"
    by (auto simp: walk_Cons_Inr simp del: ramfs_walk.simps(2))
  have "c < length st" using c(1) lookup_edge[OF assms(1) Cons.prems(1)] assms(1) by (auto simp: ramfs_wf_def)
  moreover have "ramfs_lookup st' i n = Some (Inr c)" using c(1) lookup_cong assms(2)[OF Cons.prems(1)] by metis
  ultimately show ?case using Cons.IH c(2) by simp
qed simp

lemma edge_append: "leaf_data (i_fs_data x) \<Longrightarrow> edge (st @ [x]) p n c \<longleftrightarrow> edge st p n c"
  by (cases "p < length st") (auto simp: edge_def children_of_def nth_append leaf_data_def is_ramfs_def split: fs_data.splits)

lemma wf_append:
  assumes "ramfs_wf st root" "leaf_data (i_fs_data x)"
  shows "ramfs_wf (st @ [x]) root" "extends root st (st @ [x])" "orphan (st @ [x]) (length st)"
proof -
  have root: "root < length st" using assms(1) by (simp add: ramfs_wf_def)
  have b: "btree_ok (children_of (st @ [x]) p)" if "p < Suc (length st)" for p
  proof (cases "p = length st")
    case True
    then have "children_of (st @ [x]) p = []" using assms(2) by (auto simp: children_of_def leaf_data_def split: fs_data.splits)
    then show ?thesis by (simp add: btree_ok_def)
  qed (use that assms(1) in \<open>simp add: ramfs_wf_def children_of_def nth_append\<close>)
  show "ramfs_wf (st @ [x]) root" using assms b
    by (auto simp: ramfs_wf_def edge_append orphan_def is_dir_def nth_append less_Suc_eq)
  show "extends root st (st @ [x])"
    unfolding extends_def
  proof (intro allI impI)
    fix q j assume "ramfs_walk st root q = Some (Inr j)"
    then show "ramfs_walk (st @ [x]) root q = Some (Inr j)"
      by (rule walk_cong[OF assms(1) _ root, rotated]) (simp add: nth_append)
  qed
  have "\<not> edge st p n (length st)" for p n using assms(1) unfolding ramfs_wf_def by (metis less_irrefl)
  then show "orphan (st @ [x]) (length st)" using assms(2) by (simp add: orphan_def edge_append)
qed

lemma length_set_child [simp]: "length (set_child st p n c) = length st"
  by (simp add: set_child_def)

lemma children_set_child:
  "p < length st \<Longrightarrow> children_of (set_child st p n c) i = (if i = p then btree_insert n c (children_of st p) else children_of st i)"
  by (simp add: children_of_def set_child_def nth_list_update)

lemma edge_set_child:
  assumes "ramfs_wf st root" "p < length st"
  shows "edge (set_child st p n c) q m e \<longleftrightarrow> (if q = p \<and> m = n then e = c else edge st q m e)"
proof -
  have "btree_ok (children_of st p)" using assms by (simp add: ramfs_wf_def)
  then show ?thesis using assms(2) btree_insert_set[of "children_of st p" n c]
    by (auto simp: edge_def children_set_child)
qed

lemma data_set_child:
  "p < length st \<Longrightarrow> is_dir st p \<Longrightarrow> is_dir (set_child st p n c) i = is_dir st i \<and>
     is_ramfs (i_fs_data (set_child st p n c ! i)) = is_ramfs (i_fs_data (st ! i))"
  by (auto simp: set_child_def nth_list_update is_dir_def is_ramfs_def split: fs_data.splits)

lemma wf_set_child:
  assumes "ramfs_wf st root" "p < length st" "is_dir st p" "c < length st" "is_ramfs (i_fs_data (st ! c))" "orphan st c" "c \<noteq> root"
  shows "ramfs_wf (set_child st p n c) root"
proof -
  note e = edge_set_child[OF assms(1,2), of n c] and w = assms(1)[unfolded ramfs_wf_def]
  note d = data_set_child[OF assms(2,3), of n c]
  have len: "length (set_child st p n c) = length st" by (simp add: set_child_def)
  have "btree_ok (children_of (set_child st p n c) q)" if "q < length st" for q
    using that w by (simp add: children_set_child[OF assms(2)] btree_insert_ok)
  moreover have "orphan (set_child st p n c) root" using w assms(7) by (auto simp: orphan_def e)
  moreover have "\<forall>q m e. edge (set_child st p n c) q m e \<longrightarrow> e < length st \<and> is_ramfs (i_fs_data (st ! e))"
    using w assms(4,5) by (auto simp: e split: if_splits)
  moreover have "\<forall>q q' m m' x. edge (set_child st p n c) q m x \<and> edge (set_child st p n c) q' m' x \<longrightarrow> q = q' \<and> m = m'"
    using w assms(6) unfolding e orphan_def by metis
  ultimately show ?thesis using w d unfolding ramfs_wf_def len by simp
qed

lemma walk_set_child:
  assumes "ramfs_wf st root" "p < length st" "is_dir st p" "ramfs_wf (set_child st p n c) root"
    and "ramfs_walk st root pre = Some (Inr i)" "ramfs_walk st i q = Some (Inr j)" "i < length st"
    and "\<forall>pp. ramfs_walk st root pp = Some (Inr p) \<longrightarrow> \<not> prefix (pp @ [n]) (pre @ q)"
  shows "ramfs_walk (set_child st p n c) i q = Some (Inr j)"
  using assms(5-8)
proof (induction q arbitrary: i pre)
  case (Cons m q)
  then obtain e where e: "ramfs_lookup st i m = Some (Inr e)" "ramfs_walk st e q = Some (Inr j)"
    by (auto simp: walk_Cons_Inr simp del: ramfs_walk.simps(2))
  have ed: "edge st i m e" using e(1) lookup_edge[OF assms(1) Cons.prems(3)] by simp
  have "\<not> (i = p \<and> m = n)"
  proof
    assume a: "i = p \<and> m = n"
    then have "\<not> prefix (pre @ [n]) (pre @ m # q)" using Cons.prems(1,4) by blast
    then show False using a by simp
  qed
  then have "edge (set_child st p n c) i m e" using ed edge_set_child[OF assms(1,2)] by auto
  then have l: "ramfs_lookup (set_child st p n c) i m = Some (Inr e)"
    using lookup_edge[OF assms(4), of i m e] Cons.prems(3) by (simp add: set_child_def)
  have "ramfs_walk st root (pre @ [m]) = Some (Inr e)" using Cons.prems(1) e(1) by (simp add: ramfs_walk_append)
  moreover have "e < length st" using ed assms(1) by (auto simp: ramfs_wf_def)
  ultimately have "ramfs_walk (set_child st p n c) e q = Some (Inr j)"
    using Cons.IH[of "pre @ [m]" e] e(2) Cons.prems(4) by simp
  then show ?case using l by simp
qed simp

lemma set_child_extends:
  assumes "ramfs_wf st root" "p < length st" "is_dir st p" "ramfs_wf (set_child st p n c) root"
    and "\<forall>pp. ramfs_walk st root pp = Some (Inr p) \<longrightarrow> \<not> prefix (pp @ [n]) q" "ramfs_walk st root q = Some (Inr j)"
  shows "ramfs_walk (set_child st p n c) root q = Some (Inr j)"
proof -
  have "root < length st" using assms(1) by (simp add: ramfs_wf_def)
  then show ?thesis using walk_set_child[OF assms(1-4), of "[]" root q j] assms(5,6) by simp
qed

section \<open>Creating directories on the way\<close>

text \<open>Inodes that are not directories do not change, and inodes without a parent get none.\<close>

definition keeps :: "istore \<Rightarrow> istore \<Rightarrow> bool" where
  "keeps st st' \<longleftrightarrow> length st \<le> length st' \<and>
     (\<forall>i < length st. (\<not> is_dir st i \<longrightarrow> st' ! i = st ! i) \<and> (is_dir st i \<longrightarrow> is_dir st' i) \<and> (orphan st i \<longrightarrow> orphan st' i))"

lemma keeps_trans:
  assumes "keeps a b" "keeps b c"
  shows "keeps a c"
proof -
  have "is_dir b i = is_dir a i" if "i < length a" "\<not> is_dir a i" for i
    using assms(1) that by (simp add: keeps_def is_dir_def)
  then show ?thesis using assms unfolding keeps_def by (metis order_trans less_le_trans)
qed

definition node_at :: "istore \<Rightarrow> inode_ref \<Rightarrow> string list \<Rightarrow> inode_ref \<Rightarrow> bool" where
  "node_at st root path d \<longleftrightarrow> ramfs_walk st root path = Some (Inr d) \<and> d < length st \<and> is_ramfs (i_fs_data (st ! d))"

lemma add_dir_ok:
  assumes "ramfs_wf st root" "ramfs_walk st root pre = Some (Inr p)" "p < length st" "is_dir st p"
    and "map_of (children_of st p) name = None" "leaf_data (i_fs_data nd)"
  defines "st2 \<equiv> set_child (st @ [nd]) p name (length st)"
  shows "ramfs_wf st2 root \<and> extends root st st2 \<and> keeps st st2 \<and> node_at st2 root (pre @ [name]) (length st)"
proof -
  define st1 where "st1 = st @ [nd]"
  note ap = wf_append[OF assms(1,6), folded st1_def]
  have p1: "p < length st1" "st1 ! p = st ! p" "length st < length st1" "st1 ! length st = nd" using assms(3) by (simp_all add: st1_def nth_append)
  then have p2: "is_dir st1 p" "children_of st1 p = children_of st p" using assms(4) by (simp_all add: is_dir_def children_of_def)
  have nr: "length st \<noteq> root" using assms(1) by (auto simp: ramfs_wf_def)
  have st2: "st2 = set_child st1 p name (length st)" by (simp add: st2_def st1_def)
  have wf2: "ramfs_wf st2 root" unfolding st2
    using wf_set_child[OF ap(1) p1(1) p2(1) p1(3) _ ap(3) nr] assms(6) p1(4) by (simp add: leaf_data_def)
  have no: "\<not> edge st1 p name c" for c
    using assms(5) btree_get_iff[of "children_of st p" name c] assms(1,3) p2(2) by (simp add: edge_def ramfs_wf_def)
  have ext: "extends root st1 st2" unfolding extends_def
  proof (intro allI impI)
    fix q j assume w: "ramfs_walk st1 root q = Some (Inr j)"
    have "\<not> prefix (pp @ [name]) q" if "ramfs_walk st1 root pp = Some (Inr p)" for pp
      using that w no lookup_edge[OF ap(1) p1(1)] by (auto simp: prefix_def ramfs_walk_append walk_Cons_Inr simp del: ramfs_walk.simps(2))
    then show "ramfs_walk st2 root q = Some (Inr j)"
      unfolding st2 using set_child_extends[OF ap(1) p1(1) p2(1) wf2[unfolded st2]] w by blast
  qed
  have "keeps st st2" unfolding keeps_def
    using edge_set_child[OF ap(1) p1(1)] edge_append[OF assms(6)] assms(3,4) data_set_child[OF p1(1) p2(1), of name "length st"]
    by (auto simp: st2 orphan_def st1_def set_child_def nth_list_update nth_append is_dir_def split: if_splits)
  moreover have "ramfs_walk st2 root pre = Some (Inr p)" using ext ap(2) assms(2) by (simp add: extends_def)
  moreover have "edge st2 p name (length st)" using edge_set_child[OF ap(1) p1(1)] by (simp add: st2)
  ultimately show ?thesis using lookup_edge[OF wf2, of p name "length st"] wf2 p1(1) ext extends_trans[OF ap(2)]
    by (auto simp: node_at_def walk_snoc ramfs_wf_def st2 set_child_def)
qed

lemma get_or_create_dir_ok:
  assumes "ramfs_wf st root" "node_at st root pre p"
  shows "\<exists>r' st' res. get_or_create_dir r st p name = Some (r', st', res) \<and> ramfs_wf st' root \<and> extends root st st' \<and>
     keeps st st' \<and> r_root r' = r_root r \<and> (\<forall>c. res = Inr c \<longrightarrow> node_at st' root (pre @ [name]) c)"
proof (cases "is_dir st p")
  case False
  then have "get_or_create_dir r st p name = Some (r, st, Inl InvalidInput)"
    using assms(2) by (auto simp: get_or_create_dir_def node_at_def is_dir_def is_ramfs_def split: fs_data.splits)
  then show ?thesis using assms(1) by (simp add: extends_def keeps_def)
next
  case True
  then have cs: "i_fs_data (st ! p) = RamfsDir (children_of st p)" by (auto simp: is_dir_def children_of_def split: fs_data.splits)
  have p: "p < length st" "ramfs_walk st root pre = Some (Inr p)" using assms(2) by (simp_all add: node_at_def)
  show ?thesis
  proof (cases "map_of (children_of st p) name")
    case (Some c)
    have "ramfs_lookup st p name = Some (Inr c)" using Some cs by (simp add: ramfs_lookup_def)
    then have "node_at st root (pre @ [name]) c" using p lookup_edge[OF assms(1) p(1)] assms(1)
      by (auto simp: node_at_def walk_snoc ramfs_wf_def)
    then show ?thesis using Some cs assms(1) by (simp add: get_or_create_dir_def extends_def keeps_def)
  next
    case None
    let ?nd = "make_dir_inode (r_next_ino r)"
    have "leaf_data (i_fs_data ?nd)" by (simp add: make_dir_inode_def leaf_data_def is_ramfs_def)
    note add = add_dir_ok[OF assms(1) p(2,1) True None this]
    have "get_or_create_dir r st p name = Some (r\<lparr>r_next_ino := r_next_ino r + 1\<rparr>, set_child (st @ [?nd]) p name (length st), Inr (length st))"
    proof -
      have "children_of (st @ [?nd]) p = children_of st p" using p(1) by (simp add: children_of_def nth_append)
      then show ?thesis using cs None p by (simp add: get_or_create_dir_def alloc_ino_def arc_new_def set_child_def nth_append)
    qed
    then show ?thesis using add by simp
  qed
qed

lemma descend_ok:
  "ramfs_wf st root \<Longrightarrow> node_at st root pre p \<Longrightarrow>
   \<exists>r' st' res. descend r st p dirs = Some (r', st', res) \<and> ramfs_wf st' root \<and> extends root st st' \<and> keeps st st' \<and>
     r_root r' = r_root r \<and> (\<forall>c. res = Inr c \<longrightarrow> node_at st' root (pre @ dirs) c)"
proof (induction dirs arbitrary: r st pre p)
  case Nil
  then show ?case by (simp add: extends_def keeps_def)
next
  case (Cons d dirs)
  obtain r1 st1 res where g: "get_or_create_dir r st p d = Some (r1, st1, res)" "ramfs_wf st1 root" "extends root st st1"
    "keeps st st1" "r_root r1 = r_root r" "\<forall>c. res = Inr c \<longrightarrow> node_at st1 root (pre @ [d]) c"
    using get_or_create_dir_ok[OF Cons.prems] by blast
  show ?case
  proof (cases res)
    case (Inl e)
    then show ?thesis using g by simp
  next
    case (Inr c)
    then show ?thesis using Cons.IH[OF g(2), of "pre @ [d]" c r1] g extends_trans[OF g(3)] keeps_trans[OF g(4)] by fastforce
  qed
qed

text \<open>What the descent does is decided by where the path leads before it.\<close>

lemma lookup_cases:
  assumes "node_at st root pre p"
  obtains c where "is_dir st p" "ramfs_lookup st p n = Some (Inr c)" "get_or_create_dir r st p n = Some (r, st, Inr c)"
  | "is_dir st p" "ramfs_lookup st p n = Some (Inl NotFound)" "map_of (children_of st p) n = None"
  | "\<not> is_dir st p" "ramfs_lookup st p n = Some (Inl NotADirectory)" "get_or_create_dir r st p n = Some (r, st, Inl InvalidInput)"
  using assms that
  by (cases "i_fs_data (st ! p)"; cases "map_of (children_of st p) n")
    (auto simp: node_at_def ramfs_lookup_def get_or_create_dir_def is_dir_def is_ramfs_def children_of_def)

lemma node_at_child:
  "ramfs_wf st root \<Longrightarrow> node_at st root pre p \<Longrightarrow> ramfs_lookup st p n = Some (Inr c) \<Longrightarrow> node_at st root (pre @ [n]) c"
  using lookup_edge[of st root p n c] by (auto simp: node_at_def walk_snoc ramfs_wf_def)

lemma walk_cases:
  assumes "ramfs_wf st root" "node_at st root pre p"
  shows "(\<exists>c. ramfs_walk st p dirs = Some (Inr c)) \<or> ramfs_walk st p dirs = Some (Inl NotFound) \<or> ramfs_walk st p dirs = Some (Inl NotADirectory)"
  using assms(2)
proof (induction dirs arbitrary: pre p)
  case (Cons d dirs)
  from Cons.prems show ?case
  proof (cases rule: lookup_cases[of st root pre p d undefined])
    case (1 c)
    then show ?thesis using Cons.IH[OF node_at_child[OF assms(1) Cons.prems 1(2)]] by simp
  qed simp_all
qed simp

lemma descend_existing:
  assumes "ramfs_wf st root" "node_at st root pre p"
  shows "(ramfs_walk st p dirs = Some (Inr c) \<longrightarrow> descend r st p dirs = Some (r, st, Inr c)) \<and>
    (ramfs_walk st p dirs = Some (Inl NotADirectory) \<longrightarrow> descend r st p dirs = Some (r, st, Inl InvalidInput))"
  using assms(2)
proof (induction dirs arbitrary: pre p)
  case (Cons d dirs)
  from Cons.prems show ?case
  proof (cases rule: lookup_cases[of st root pre p d r])
    case (1 c)
    then show ?thesis using Cons.IH[OF node_at_child[OF assms(1) Cons.prems 1(2)]] by simp
  qed simp_all
qed simp

lemma create_dir_empty:
  assumes "node_at st root pre p" "is_dir st p" "map_of (children_of st p) n = None"
  obtains r' st' where "get_or_create_dir r st p n = Some (r', st', Inr (length st))"
    "i_fs_data (st' ! length st) = RamfsDir []"
  using assms that
  by (auto simp: node_at_def get_or_create_dir_def is_dir_def children_of_def alloc_ino_def arc_new_def make_dir_inode_def nth_list_update
      split: fs_data.splits)

lemma descend_creates:
  "ramfs_wf st root \<Longrightarrow> node_at st root pre p \<Longrightarrow> ramfs_walk st p dirs = Some (Inl NotFound) \<Longrightarrow>
   \<exists>r' st' c. descend r st p dirs = Some (r', st', Inr c) \<and> is_dir st' c"
proof (induction dirs arbitrary: r st pre p)
  case (Cons d dirs)
  from Cons.prems(2) show ?case
  proof (cases rule: lookup_cases[of st root pre p d r])
    case (1 c)
    then show ?thesis using Cons.IH[OF Cons.prems(1) node_at_child[OF Cons.prems(1,2) 1(2)], of r] Cons.prems(3) by simp
  next
    case 2
    obtain r1 st1 where g: "get_or_create_dir r st p d = Some (r1, st1, Inr (length st))" "i_fs_data (st1 ! length st) = RamfsDir []"
      using create_dir_empty[OF Cons.prems(2) 2(1,3)] by blast
    have n: "ramfs_wf st1 root" "node_at st1 root (pre @ [d]) (length st)"
      using get_or_create_dir_ok[OF Cons.prems(1,2), of r d] g(1) by auto
    show ?thesis
    proof (cases dirs)
      case Nil
      then show ?thesis using g by (simp add: is_dir_def)
    next
      case (Cons e es)
      then have "ramfs_walk st1 (length st) dirs = Some (Inl NotFound)" using g(2) by (simp add: ramfs_lookup_def)
      then show ?thesis using Cons.IH[OF n] g(1) by simp
    qed
  next
    case 3
    then show ?thesis using Cons.prems(3) by simp
  qed
qed simp

section \<open>Inserting a leaf\<close>

definition leaf_inserted :: "inode_ref \<Rightarrow> string list \<Rightarrow> inode_ref \<Rightarrow> istore \<Rightarrow> istore \<Rightarrow> bool" where
  "leaf_inserted root parts i st st' \<longleftrightarrow> ramfs_walk st' root parts = Some (Inr i) \<and> st' ! i = st ! i \<and>
     (\<forall>q j. ramfs_walk st root q = Some (Inr j) \<and> \<not> prefix parts q \<longrightarrow> ramfs_walk st' root q = Some (Inr j))"

lemma dir_insert_ok:
  assumes "ramfs_wf st root" "node_at st root dirs d" "is_dir st d" "i < length st" "\<not> is_dir st i" "is_ramfs (i_fs_data (st ! i))" "orphan st i"
  shows "\<exists>st'. dir_insert st d name i = Some st' \<and> ramfs_wf st' root \<and> leaf_inserted root (dirs @ [name]) i st st' \<and>
     node_at st' root dirs d \<and> is_dir st' d"
proof -
  have d: "d < length st" "ramfs_walk st root dirs = Some (Inr d)" using assms(2) by (simp_all add: node_at_def)
  have cs: "i_fs_data (st ! d) = RamfsDir (children_of st d)" using assms(3) by (auto simp: is_dir_def children_of_def split: fs_data.splits)
  let ?st = "set_child st d name i"
  have "i \<noteq> root" using assms(1,5) by (auto simp: ramfs_wf_def)
  then have wf: "ramfs_wf ?st root" using wf_set_child[OF assms(1) d(1) assms(3,4,6,7)] by simp
  have keep: "ramfs_walk ?st root q = Some (Inr j)" if "ramfs_walk st root q = Some (Inr j)" "\<not> prefix (dirs @ [name]) q" for q j
    using set_child_extends[OF assms(1) d(1) assms(3) wf _ that(1)] that(2) walk_unique[OF assms(1) d(2)] by blast
  have up: "ramfs_walk ?st root dirs = Some (Inr d)" using keep[OF d(2)] prefix_length_le by fastforce
  have "ramfs_lookup ?st d name = Some (Inr i)"
    using lookup_edge[OF wf, of d name i] edge_set_child[OF assms(1) d(1)] d(1) by (simp add: set_child_def)
  then have "ramfs_walk ?st root (dirs @ [name]) = Some (Inr i)" using up by (simp add: walk_snoc)
  moreover have "d \<noteq> i" using assms(3,5) by auto
  then have "?st ! i = st ! i" by (simp add: set_child_def)
  moreover have "dir_insert st d name i = Some ?st" using cs by (simp add: dir_insert_def set_child_def)
  ultimately show ?thesis using wf keep up data_set_child[OF d(1) assms(3), of name i] assms(2,3) d(1)
    by (auto simp: leaf_inserted_def node_at_def)
qed

lemma walk_not_dir:
  "node_at st root dirs d \<Longrightarrow> \<not> is_dir st d \<Longrightarrow> ramfs_walk st root (dirs @ [n]) = Some (Inl NotADirectory)"
  by (auto simp: node_at_def walk_snoc ramfs_lookup_def is_dir_def is_ramfs_def split: fs_data.splits)

text \<open>The three outcomes of an insertion, by where the parent path leads before it.\<close>

definition refused :: "istore \<Rightarrow> inode_ref \<Rightarrow> string list \<Rightarrow> bool" where
  "refused st root parts \<longleftrightarrow> parts = [] \<or> ramfs_walk st root (butlast parts) = Some (Inl NotADirectory)"

definition below_file :: "istore \<Rightarrow> inode_ref \<Rightarrow> string list \<Rightarrow> bool" where
  "below_file st root parts \<longleftrightarrow> (\<exists>d. ramfs_walk st root (butlast parts) = Some (Inr d) \<and> \<not> is_dir st d)"

lemma insert_leaf_ok:
  fixes r path
  defines "root \<equiv> r_root r" and "parts \<equiv> path_parts path"
  assumes "ramfs_wf st root" "i < length st" "\<not> is_dir st i" "is_ramfs (i_fs_data (st ! i))" "orphan st i"
  shows "\<exists>r' st' res. insert_leaf r st path i = Some (r', st', res) \<and> r_root r' = root \<and> ramfs_wf st' root \<and>
     (if refused st root parts then res = Inl InvalidInput \<and> st' = st
      else res = Inr () \<and> (if below_file st root parts then st' = st else leaf_inserted root parts i st st'))"
proof (cases "refused st root parts")
  case True
  have rt: "node_at st root [] root" using assms(3) by (auto simp: node_at_def ramfs_wf_def is_dir_def is_ramfs_def split: fs_data.splits)
  have "insert_leaf r st path i = Some (r, st, Inl InvalidInput)"
    using True descend_existing[OF assms(3) rt, of "butlast parts" undefined r] by (auto simp: refused_def insert_leaf_def root_def[symmetric] parts_def[symmetric])
  then show ?thesis using True assms(3) by (simp add: root_def)
next
  case False
  then have parts: "butlast parts @ [last parts] = parts" "parts \<noteq> []" by (simp_all add: refused_def)
  have rt: "node_at st root [] root" using assms(3) by (auto simp: node_at_def ramfs_wf_def is_dir_def is_ramfs_def split: fs_data.splits)
  show ?thesis
  proof (cases "below_file st root parts")
    case True
    then obtain d where d: "ramfs_walk st root (butlast parts) = Some (Inr d)" "\<not> is_dir st d" by (auto simp: below_file_def)
    have "node_at st root (butlast parts) d"
      using descend_ok[OF assms(3) rt, of r "butlast parts"] descend_existing[OF assms(3) rt, of "butlast parts" d r] d(1) by simp
    then have "dir_insert st d (last parts) i = Some st"
      using d(2) by (auto simp: dir_insert_def node_at_def is_dir_def is_ramfs_def split: fs_data.splits)
    then have "insert_leaf r st path i = Some (r, st, Inr ())"
      using descend_existing[OF assms(3) rt, of "butlast parts" d r] d(1) parts(2) by (simp add: insert_leaf_def root_def[symmetric] parts_def[symmetric])
    then show ?thesis using False True assms(3) by (simp add: root_def)
  next
    case no: False
    obtain r1 st1 d where g: "descend r st root (butlast parts) = Some (r1, st1, Inr d)" "is_dir st1 d"
    proof -
      consider c where "ramfs_walk st root (butlast parts) = Some (Inr c)" "is_dir st c"
        | "ramfs_walk st root (butlast parts) = Some (Inl NotFound)"
        using walk_cases[OF assms(3) rt, of "butlast parts"] False no by (auto simp: refused_def below_file_def)
      then show thesis
      proof cases
        case (1 c)
        then show thesis using that descend_existing[OF assms(3) rt, of "butlast parts" c r] by simp
      next
        case 2
        then show thesis using that descend_creates[OF assms(3) rt 2, of r] by blast
      qed
    qed
    then have h: "ramfs_wf st1 root" "extends root st st1" "keeps st st1" "r_root r1 = root" "node_at st1 root (butlast parts) d"
      using descend_ok[OF assms(3) rt, of r "butlast parts"] by (auto simp: root_def)
    have i1: "i < length st1" "\<not> is_dir st1 i" "is_ramfs (i_fs_data (st1 ! i))" "orphan st1 i" "st1 ! i = st ! i"
      using h(3) assms(4-7) by (auto simp: keeps_def is_dir_def)
    obtain st2 where "dir_insert st1 d (last parts) i = Some st2" "ramfs_wf st2 root" "leaf_inserted root parts i st1 st2"
      using dir_insert_ok[OF h(1,5) g(2) i1(1-4), of "last parts"] parts by auto
    then show ?thesis using False no g h(2,4) i1(5) parts(2)
      by (auto simp: insert_leaf_def root_def[symmetric] parts_def[symmetric] leaf_inserted_def extends_def)
  qed
qed

lemma walk_append_same:
  assumes "ramfs_wf st root"
  shows "i < length st \<Longrightarrow> ramfs_walk (st @ [x]) i q = ramfs_walk st i q"
proof (induction q arbitrary: i)
  case (Cons n q)
  have "ramfs_lookup (st @ [x]) i n = ramfs_lookup st i n" using Cons.prems by (simp add: ramfs_lookup_def nth_append)
  moreover have "c < length st" if "ramfs_lookup st i n = Some (Inr c)" for c
    using that lookup_edge[OF assms Cons.prems] assms by (auto simp: ramfs_wf_def)
  ultimately show ?case using Cons.IH by (cases "ramfs_lookup st i n"; cases "the (ramfs_lookup st i n)") auto
qed simp

lemma ramfs_new_wf: "ramfs_wf (fst (ramfs_new [])) (r_root (snd (ramfs_new [])))"
  by (auto simp: ramfs_new_def arc_new_def ramfs_wf_def is_dir_def orphan_def edge_def children_of_def btree_ok_def make_dir_inode_def)

text \<open>
  C31: Inserting a file into a RAM file system never panics, keeps the store a tree, and what it does is
  decided by where the parent path leads in the store before it. An empty path and a path that goes
  through a file are refused with \<open>InvalidInput\<close>, and every path leads where it led. A path directly below
  a file is reported as a success although nothing is inserted: every path leads where it led. In every
  other case, with the parent an existing directory or directories still to be created, the insertion
  succeeds, the path resolves to a regular file with the given contents, and every path that resolved,
  unless it lies below the inserted one, still resolves to the same inode.
\<close>

theorem insert_file_resolves:
  fixes st r path
  defines "root \<equiv> r_root r" and "parts \<equiv> path_parts path"
  assumes "ramfs_wf st root"
  shows "\<exists>r' st' res. insert_file r st path data = Some (r', st', res) \<and> ramfs_wf st' root \<and> r_root r' = root \<and>
     (if parts = [] \<or> ramfs_walk st root (butlast parts) = Some (Inl NotADirectory)
      then res = Inl InvalidInput \<and> (\<forall>q. ramfs_walk st' root q = ramfs_walk st root q)
      else if \<exists>d. ramfs_walk st root (butlast parts) = Some (Inr d) \<and> \<not> is_dir st d
      then res = Inr () \<and> (\<forall>q. ramfs_walk st' root q = ramfs_walk st root q)
      else res = Inr () \<and>
        (\<exists>i. ramfs_walk st' root parts = Some (Inr i) \<and> i_file_type (st' ! i) = RegularFile \<and>
           i_fs_data (st' ! i) = RamfsFile data \<and> i_len (st' ! i) = length data) \<and>
        (\<forall>q j. ramfs_walk st root q = Some (Inr j) \<and> \<not> prefix parts q \<longrightarrow> ramfs_walk st' root q = Some (Inr j)))"
proof -
  obtain r1 node where mk: "make_file_inode r data = (r1, node)" by (cases "make_file_inode r data")
  have n: "r_root r1 = root" "i_fs_data node = RamfsFile data" "i_file_type node = RegularFile" "i_len node = length data"
    using mk by (auto simp: make_file_inode_def alloc_ino_def root_def)
  have leaf: "leaf_data (i_fs_data node)" using n(2) by (simp add: leaf_data_def is_ramfs_def)
  let ?st = "st @ [node]"
  have rt: "root < length st" using assms(3) by (simp add: ramfs_wf_def)
  note ap = wf_append[OF assms(3) leaf] and same = walk_append_same[OF assms(3) rt, of node]
  have "d < length st" if "ramfs_walk st root q = Some (Inr d)" for d q using walk_bound[OF assms(3) rt that] .
  then have w: "refused ?st root parts = refused st root parts" "below_file ?st root parts = below_file st root parts"
    unfolding refused_def below_file_def same by (auto simp: is_dir_def nth_append)
  have i: "length st < length ?st" "\<not> is_dir ?st (length st)" "is_ramfs (i_fs_data (?st ! length st))"
    using n(2) by (simp_all add: is_dir_def is_ramfs_def)
  obtain r' st' res where il: "insert_leaf r1 ?st path (length st) = Some (r', st', res)" "r_root r' = root" "ramfs_wf st' root"
    "if refused st root parts then res = Inl InvalidInput \<and> st' = ?st
     else res = Inr () \<and> (if below_file st root parts then st' = ?st else leaf_inserted root parts (length st) ?st st')"
    using insert_leaf_ok[of ?st r1 "length st" path] ap(1,3) i w unfolding n(1) parts_def[symmetric] by auto
  have "insert_file r st path data = Some (r', st', res)" using il(1) mk by (simp add: insert_file_def arc_new_def)
  then show ?thesis using il(2-4) n same
    unfolding refused_def[of st] below_file_def[of st] leaf_inserted_def by (auto split: if_splits)
qed

theorem insert_file_resolves_witness:
  "\<exists>r' st' i. insert_file (snd (ramfs_new [])) (fst (ramfs_new [])) ''etc/motd'' [72, 105] = Some (r', st', Inr ()) \<and>
     ramfs_walk st' (r_root r') [''etc'', ''motd''] = Some (Inr i) \<and> i_fs_data (st' ! i) = RamfsFile [72, 105]"
proof -
  define r st where "r = snd (ramfs_new [])" and "st = fst (ramfs_new [])"
  have parts: "path_parts ''etc/motd'' = [''etc'', ''motd'']" by (simp add: path_parts_def)
  have w: "ramfs_walk st (r_root r) [''etc''] = Some (Inl NotFound)"
    unfolding r_def st_def by (simp add: ramfs_new_def arc_new_def make_dir_inode_def ramfs_lookup_def)
  have "ramfs_wf st (r_root r)" unfolding r_def st_def by (rule ramfs_new_wf)
  from insert_file_resolves[OF this, of "''etc/motd''" "[72, 105]"] show ?thesis
    unfolding r_def[symmetric] st_def[symmetric] parts using w by auto
qed

end
