(* ===== verification/Ext2.thy ===== *)
theory Ext2
  imports Block_Layer File_Api
begin

text \<open>
  The ext2 file system driver (fs/ext2): superblock and group descriptors, inode table access with the
  inode cache, block maps, directory iteration, and the inode and file operations.

  The volume is given by its \<open>get_block\<close>, which returns 4096 bytes from a sector, an error, or a panic.
  It is a function: a volume returns for a sector what it holds, through its cache or not (the block
  cache is shown transparent in the theory of the block layer). \<open>strong_count\<close> gives the reference
  count of an inode, on which eviction from the inode cache depends.
\<close>

section \<open>Superblock\<close>

definition INODE_CACHE_CAPACITY :: usize where "INODE_CACHE_CAPACITY = 32"
definition EXT2_MIN_BLOCK_SIZE :: u32 where "EXT2_MIN_BLOCK_SIZE = 1024"
definition ROOT_INODE :: u32 where "ROOT_INODE = 2"
definition GOOD_OLD_INODE_SIZE :: u16 where "GOOD_OLD_INODE_SIZE = 128"
definition SUPERBLOCK_SECTOR :: u64 where "SUPERBLOCK_SECTOR = 1024 div 512"
definition SUPER_MAGIC :: u16 where "SUPER_MAGIC = 0xEF53"
definition EXT3_FEATURE_COMPAT_HAS_JOURNAL :: u32 where "EXT3_FEATURE_COMPAT_HAS_JOURNAL = 0x0004"
definition GROUP_DESC_SIZE :: usize where "GROUP_DESC_SIZE = 32"
definition GDT_1K_OFFSET :: nat where "GDT_1K_OFFSET = 2048"

type_synonym get_block = "u64 \<Rightarrow> (block_error + u8 list) option"

record ext2_sb =
  sb_volume :: nat
  inodes_count :: u32
  blocks_count :: u32
  log_block_size :: u32
  blocks_per_group :: u32
  inodes_per_group :: u32
  inode_size :: u16
  volume_label :: "string option"
  groups :: "u32 list"
  journal_inum :: "u32 option"
  journal_blocks :: "u32 option"
  sb_root :: "inode_ref option"
  inode_cache :: "(u32, inode_ref) lru"

text \<open>The shift panics if it is not below 32, and drops the bits that leave the word.\<close>

definition block_size :: "ext2_sb \<Rightarrow> u32 option" where
  "block_size sb = (if unat (log_block_size sb) < 32 then Some (push_bit (unat (log_block_size sb)) EXT2_MIN_BLOCK_SIZE) else None)"

definition block_to_sector :: "ext2_sb \<Rightarrow> u32 \<Rightarrow> u64 option" where
  "block_to_sector sb block_num = do { bs \<leftarrow> block_size sb; Some (word_of_nat (unat block_num * unat bs div BLOCK_SIZE)) }"

definition num_groups :: "ext2_sb \<Rightarrow> u32 option" where
  "num_groups sb = do {
     a \<leftarrow> u32_add (blocks_count sb) (blocks_per_group sb);
     b \<leftarrow> u32_sub a 1;
     u32_div b (blocks_per_group sb)
   }"

definition parse_label :: "u8 list \<Rightarrow> string option" where
  "parse_label label_bytes =
     (case position (\<lambda>b. b = 0) label_bytes of
        Some null_pos \<Rightarrow> if 0 < null_pos then from_utf8 (take null_pos label_bytes) else None
      | None \<Rightarrow> None)"

definition read_superblock_data :: "get_block \<Rightarrow> ext2_sb \<Rightarrow> (block_error + ext2_sb) option" where
  "read_superblock_data gb sb = try_bind (gb SUPERBLOCK_SECTOR) (\<lambda>buf. do {
     magic \<leftarrow> read_u16_le buf 56;
     if magic \<noteq> SUPER_MAGIC then Some (Inl block_error.InvalidInput)
     else do {
       ic \<leftarrow> read_u32_le buf 0;
       bc \<leftarrow> read_u32_le buf 4;
       lbs \<leftarrow> read_u32_le buf 24;
       bpg \<leftarrow> read_u32_le buf 32;
       ipg \<leftarrow> read_u32_le buf 40;
       isz \<leftarrow> read_u16_le buf 88;
       label_bytes \<leftarrow> slice buf 120 (120 + 16);
       feature_compat \<leftarrow> read_u32_le buf 92;
       jn \<leftarrow> (if feature_compat AND EXT3_FEATURE_COMPAT_HAS_JOURNAL \<noteq> 0
              then map_option Some (read_u32_le buf 224) else Some (journal_inum sb));
       Some (Inr (sb\<lparr>inodes_count := ic, blocks_count := bc, log_block_size := lbs, blocks_per_group := bpg,
         inodes_per_group := ipg, inode_size := (if isz = 0 then GOOD_OLD_INODE_SIZE else isz),
         volume_label := parse_label label_bytes, journal_inum := jn\<rparr>))
     }
   })"

definition read_group_descriptors :: "get_block \<Rightarrow> ext2_sb \<Rightarrow> (block_error + ext2_sb) option" where
  "read_group_descriptors gb sb = do {
     ng \<leftarrow> num_groups sb;
     bs \<leftarrow> block_size sb;
     if unat ng > CACHE_BLOCK_SIZE div GROUP_DESC_SIZE then Some (Inl block_error.InvalidInput)
     else do {
       let gdt_byte_offset = (if bs = EXT2_MIN_BLOCK_SIZE then GDT_1K_OFFSET else unat bs);
       try_bind (gb (word_of_nat (gdt_byte_offset div BLOCK_SIZE))) (\<lambda>buf. do {
         gs \<leftarrow> ofold (\<lambda>i gs. do { t \<leftarrow> read_u32_le buf (i * GROUP_DESC_SIZE + 8); Some (gs @ [t]) }) [0..<unat ng] (groups sb);
         Some (Inr (sb\<lparr>groups := gs\<rparr>))
       })
     }
   }"

section \<open>Inodes\<close>

definition NDIR_BLOCKS :: usize where "NDIR_BLOCKS = 12"

definition inode_location :: "ext2_sb \<Rightarrow> u32 \<Rightarrow> (block_error + u64 \<times> usize) option" where
  "inode_location sb inode_num =
     (if inode_num = 0 then Some (Inl block_error.InvalidInput)
      else do {
        group \<leftarrow> u32_div (inode_num - 1) (inodes_per_group sb);
        local_index \<leftarrow> u32_mod (inode_num - 1) (inodes_per_group sb);
        if unat group \<ge> length (groups sb) then Some (Inl block_error.InvalidInput)
        else do {
          let isz = (ucast (inode_size sb) :: u32);
          bs \<leftarrow> block_size sb;
          inodes_per_block \<leftarrow> u32_div bs isz;
          q \<leftarrow> u32_div local_index inodes_per_block;
          target_block \<leftarrow> u32_add (groups sb ! unat group) q;
          m \<leftarrow> u32_mod local_index inodes_per_block;
          offset \<leftarrow> u32_mul m isz;
          Some (Inr (word_of_nat (unat target_block * unat bs div BLOCK_SIZE), unat offset))
        }
      })"

definition mode_file_type :: "u16 \<Rightarrow> file_type" where
  "mode_file_type mode =
     (let t = mode AND S_IFMT in
      if t = S_IFDIR then Directory
      else if t = S_IFREG then RegularFile
      else if t = S_IFCHR then CharDevice
      else if t = S_IFBLK then BlockDevice
      else RegularFile)"

definition read_inode :: "get_block \<Rightarrow> nat \<Rightarrow> ext2_sb \<Rightarrow> u32 \<Rightarrow> (block_error + inode) option" where
  "read_inode gb sb_id sb inode_num = try_bind (inode_location sb inode_num) (\<lambda>(sector, offset).
     try_bind (gb sector) (\<lambda>buf. do {
       mode \<leftarrow> read_u16_le buf offset;
       isize \<leftarrow> read_u32_le buf (offset + 4);
       blocks \<leftarrow> ofold (\<lambda>i bs. do { b \<leftarrow> read_u32_le buf (offset + 40 + i * 4); Some (bs @ [b]) }) [0..<15] [];
       Some (Inr \<lparr>i_ino = ucast inode_num, i_file_type = mode_file_type mode, i_len = unat isize,
         i_iops = EXT2_INODE_OPS, i_fops = EXT2_FILE_OPS, i_sb = Some sb_id, i_rdev = None,
         i_fs_data = Ext2InodeData sb_id blocks\<rparr>)
     }))"

definition get_or_read_inode ::
  "get_block \<Rightarrow> (inode_ref \<Rightarrow> nat) \<Rightarrow> nat \<Rightarrow> ext2_sb \<Rightarrow> istore \<Rightarrow> u32 \<Rightarrow> (ext2_sb \<times> istore \<times> (block_error + inode_ref)) option" where
  "get_or_read_inode gb strong_count sb_id sb st inode_num =
     (case lru_get (inode_cache sb) inode_num of
        (cache, Some i) \<Rightarrow> Some (sb\<lparr>inode_cache := cache\<rparr>, st, Inr i)
      | (cache, None) \<Rightarrow> do {
          r \<leftarrow> read_inode gb sb_id sb inode_num;
          (case r of
             Inl e \<Rightarrow> Some (sb, st, Inl e)
           | Inr node \<Rightarrow>
               let (st, i) = arc_new st node in
               Some (sb\<lparr>inode_cache := lru_insert strong_count (inode_cache sb) inode_num i\<rparr>, st, Inr i))
        })"

definition resolve_block_ptr :: "get_block \<Rightarrow> ext2_sb \<Rightarrow> u32 list \<Rightarrow> usize \<Rightarrow> (block_error + u32) option" where
  "resolve_block_ptr gb sb blocks block_idx =
     (if block_idx < NDIR_BLOCKS then Some (Inr (blocks ! block_idx))
      else do {
        bs \<leftarrow> block_size sb;
        let ptrs_per_block = unat bs div 4;
        let indirect_idx = block_idx - NDIR_BLOCKS;
        if indirect_idx < ptrs_per_block
        then if blocks ! NDIR_BLOCKS = 0 then Some (Inr 0)
             else do {
               sector \<leftarrow> block_to_sector sb (blocks ! NDIR_BLOCKS);
               try_bind (gb sector) (\<lambda>buf. map_option Inr (read_u32_le buf (indirect_idx * 4)))
             }
        else do {
          let double_idx = indirect_idx - ptrs_per_block;
          if double_idx < ptrs_per_block * ptrs_per_block
          then if blocks ! (NDIR_BLOCKS + 1) = 0 then Some (Inr 0)
               else do {
                 sector \<leftarrow> block_to_sector sb (blocks ! (NDIR_BLOCKS + 1));
                 try_bind (gb sector) (\<lambda>l1_buf. do {
                   l1_ptr \<leftarrow> read_u32_le l1_buf ((double_idx div ptrs_per_block) * 4);
                   if l1_ptr = 0 then Some (Inr 0)
                   else do {
                     sector \<leftarrow> block_to_sector sb l1_ptr;
                     try_bind (gb sector) (\<lambda>l2_buf. map_option Inr (read_u32_le l2_buf ((double_idx mod ptrs_per_block) * 4)))
                   }
                 })
               }
          else Some (Inr 0)
        }
      })"

text \<open>\<open>Ext2SuperBlock::new\<close>: the new superblock gets the identity \<open>sb_id\<close>.\<close>

definition ext2_blank :: "nat \<Rightarrow> ext2_sb" where
  "ext2_blank volume = \<lparr>sb_volume = volume, inodes_count = 0, blocks_count = 0, log_block_size = 0, blocks_per_group = 0,
     inodes_per_group = 0, inode_size = 0, volume_label = None, groups = [], journal_inum = None, journal_blocks = None,
     sb_root = None, inode_cache = lru_new INODE_CACHE_CAPACITY\<rparr>"

definition probe_journal :: "get_block \<Rightarrow> ext2_sb \<Rightarrow> ext2_sb option" where
  "probe_journal gb sb =
     (case journal_inum sb of
        None \<Rightarrow> Some sb
      | Some j \<Rightarrow> do {
          loc \<leftarrow> inode_location sb j;
          (case loc of
             Inl _ \<Rightarrow> Some sb
           | Inr (sector, offset) \<Rightarrow> do {
               r \<leftarrow> gb sector;
               (case r of
                  Inl _ \<Rightarrow> Some sb
                | Inr buf \<Rightarrow> do {
                    i_size \<leftarrow> read_u32_le buf (offset + 4);
                    bs \<leftarrow> block_size sb;
                    n \<leftarrow> u32_div i_size bs;
                    Some (sb\<lparr>journal_blocks := Some n\<rparr>)
                  })
             })
        })"

definition ext2_new ::
  "get_block \<Rightarrow> (inode_ref \<Rightarrow> nat) \<Rightarrow> nat \<Rightarrow> nat \<Rightarrow> istore \<Rightarrow> (istore \<times> (block_error + ext2_sb)) option" where
  "ext2_new gb strong_count sb_id volume st = do {
     r \<leftarrow> try_bind (read_superblock_data gb (ext2_blank volume)) (\<lambda>sb.
            try_bind (read_group_descriptors gb sb) (\<lambda>sb. map_option Inr (probe_journal gb sb)));
     (case r of
        Inl e \<Rightarrow> Some (st, Inl e)
      | Inr sb \<Rightarrow> do {
          (sb, st, root) \<leftarrow> get_or_read_inode gb strong_count sb_id sb st ROOT_INODE;
          (case root of
             Inl e \<Rightarrow> Some (st, Inl e)
           | Inr i \<Rightarrow> Some (st, Inr (sb\<lparr>sb_root := Some i\<rparr>)))
        })
   }"

section \<open>Directories\<close>

record raw_dir_entry =
  rd_ino :: u32
  rd_name :: string
  rd_file_type :: u8

record dir_iter =
  it_blocks :: "u32 list"
  it_dir_size :: u32
  it_buf :: "u8 list option"
  it_block_size :: usize
  it_block_idx :: usize
  it_block_offset :: usize
  it_bytes_read :: u32

definition dir_iter_new :: "ext2_sb \<Rightarrow> inode \<Rightarrow> dir_iter option" where
  "dir_iter_new sb i =
     (case i_fs_data i of
        Ext2InodeData _ blocks \<Rightarrow> do {
          bs \<leftarrow> block_size sb;
          Some \<lparr>it_blocks = blocks, it_dir_size = word_of_nat (i_len i), it_buf = None, it_block_size = unat bs,
            it_block_idx = 0, it_block_offset = unat bs, it_bytes_read = 0\<rparr>
        }
      | _ \<Rightarrow> None)"

text \<open>
  Loading the next block at the top of the loop: \<open>None\<close> inside the sum ends the iteration.
\<close>

definition load_dir_block :: "get_block \<Rightarrow> ext2_sb \<Rightarrow> dir_iter \<Rightarrow> (block_error + dir_iter option) option" where
  "load_dir_block gb sb it =
     (if it_block_offset it \<ge> it_block_size it
      then if it_bytes_read it \<ge> it_dir_size it then Some (Inr None)
           else try_bind (resolve_block_ptr gb sb (it_blocks it) (it_block_idx it)) (\<lambda>ptr.
             if ptr = 0 then Some (Inr None)
             else do {
               sector \<leftarrow> block_to_sector sb ptr;
               try_bind (gb sector) (\<lambda>block. Some (Inr (Some (it\<lparr>it_buf := Some block, it_block_offset := 0\<rparr>))))
             })
      else Some (Inr (Some it)))"

definition next_block :: "dir_iter \<Rightarrow> dir_iter" where
  "next_block it = it\<lparr>it_block_idx := it_block_idx it + 1, it_block_offset := it_block_size it\<rparr>"

definition advance_iter :: "dir_iter \<Rightarrow> nat \<Rightarrow> u32 \<Rightarrow> dir_iter" where
  "advance_iter it rec_len bytes_read =
     (let it = it\<lparr>it_block_offset := it_block_offset it + rec_len, it_bytes_read := bytes_read\<rparr> in
      if it_block_offset it \<ge> it_block_size it \<or> it_bytes_read it \<ge> it_dir_size it then next_block it else it)"

text \<open>The rest of one round of the loop: the iterator, and the entry if one is returned.\<close>

definition dir_entry_step :: "dir_iter \<Rightarrow> (dir_iter \<times> raw_dir_entry option) option" where
  "dir_entry_step it = do {
     buf \<leftarrow> it_buf it;
     let offset = it_block_offset it;
     if offset + 8 > it_block_size it then Some (next_block it, None)
     else do {
       ino \<leftarrow> read_u32_le buf offset;
       rl \<leftarrow> read_u16_le buf (offset + 4);
       let rec_len = unat rl;
       nl \<leftarrow> list_get buf (offset + 6);
       ft_byte \<leftarrow> list_get buf (offset + 7);
       let name_len = unat nl;
       if rec_len = 0 then Some (next_block it, None)
       else do {
         bytes_read \<leftarrow> u32_add (it_bytes_read it) (word_of_nat rec_len);
         let it = advance_iter it rec_len bytes_read;
         if ino = 0 \<or> name_len = 0 then Some (it, None)
         else if offset + 8 + name_len > it_block_size it then Some (it, None)
         else do {
           bytes \<leftarrow> slice buf (offset + 8) (offset + 8 + name_len);
           Some (it, map_option (\<lambda>name. \<lparr>rd_ino = ino, rd_name = name, rd_file_type = ft_byte\<rparr>) (from_utf8 bytes))
         }
       }
     }
   }"

partial_function (option) dir_next ::
  "get_block \<Rightarrow> ext2_sb \<Rightarrow> dir_iter \<Rightarrow> (dir_iter \<times> (block_error + raw_dir_entry) option) option" where
  "dir_next gb sb it = do {
     l \<leftarrow> load_dir_block gb sb it;
     (case l of
        Inl e \<Rightarrow> Some (it, Some (Inl e))
      | Inr None \<Rightarrow> Some (it, None)
      | Inr (Some it) \<Rightarrow> do {
          (it, e) \<leftarrow> dir_entry_step it;
          (case e of None \<Rightarrow> dir_next gb sb it | Some entry \<Rightarrow> Some (it, Some (Inr entry)))
        })
   }"

text \<open>
  The loops over the iterator. \<open>readdir\<close> collects up to the first error; \<open>lookup\<close> stops at the
  first entry with the name.
\<close>

partial_function (option) dir_collect :: "get_block \<Rightarrow> ext2_sb \<Rightarrow> dir_iter \<Rightarrow> (block_error + raw_dir_entry list) option" where
  "dir_collect gb sb it = do {
     (it, r) \<leftarrow> dir_next gb sb it;
     (case r of
        None \<Rightarrow> Some (Inr [])
      | Some (Inl e) \<Rightarrow> Some (Inl e)
      | Some (Inr entry) \<Rightarrow> try_bind (dir_collect gb sb it) (\<lambda>es. Some (Inr (entry # es))))
   }"

partial_function (option) dir_find :: "get_block \<Rightarrow> ext2_sb \<Rightarrow> string \<Rightarrow> dir_iter \<Rightarrow> (block_error + u32 option) option" where
  "dir_find gb sb name it = do {
     (it, r) \<leftarrow> dir_next gb sb it;
     (case r of
        None \<Rightarrow> Some (Inr None)
      | Some (Inl e) \<Rightarrow> Some (Inl e)
      | Some (Inr entry) \<Rightarrow> if rd_name entry = name then Some (Inr (Some (rd_ino entry))) else dir_find gb sb name it)
   }"

section \<open>Inode and file operations\<close>

definition ext2_lookup ::
  "get_block \<Rightarrow> (inode_ref \<Rightarrow> nat) \<Rightarrow> nat \<Rightarrow> ext2_sb \<Rightarrow> istore \<Rightarrow> inode_ref \<Rightarrow> string \<Rightarrow> (ext2_sb \<times> istore \<times> (error + inode_ref)) option" where
  "ext2_lookup gb strong_count sb_id sb st i name =
     (if i_file_type (st ! i) \<noteq> Directory then Some (sb, st, Inl NotADirectory)
      else do {
        it \<leftarrow> dir_iter_new sb (st ! i);
        r \<leftarrow> dir_find gb sb name it;
        (case r of
           Inl _ \<Rightarrow> Some (sb, st, Inl NotFound)
         | Inr None \<Rightarrow> Some (sb, st, Inl NotFound)
         | Inr (Some ino) \<Rightarrow> do {
             (sb, st, n) \<leftarrow> get_or_read_inode gb strong_count sb_id sb st ino;
             Some (sb, st, map_sum (\<lambda>_. NotFound) id n)
           })
      })"

partial_function (option) ext2_read_loop ::
  "get_block \<Rightarrow> ext2_sb \<Rightarrow> u32 list \<Rightarrow> usize \<Rightarrow> usize \<Rightarrow> usize \<Rightarrow> open_file \<Rightarrow> u8 list \<Rightarrow> (open_file \<times> (error + u8 list)) option" where
  "ext2_read_loop gb sb blocks bs file_len buf_len f out =
     (if length out < buf_len \<and> f_offset f < file_len
      then do {
        block_idx \<leftarrow> udiv (f_offset f) bs;
        r \<leftarrow> resolve_block_ptr gb sb blocks block_idx;
        (case r of
           Inl _ \<Rightarrow> Some (f, Inl error.InvalidInput)
         | Inr block_ptr \<Rightarrow>
             if block_ptr = 0 then Some (f, Inr out)
             else do {
               sector \<leftarrow> block_to_sector sb block_ptr;
               r \<leftarrow> gb sector;
               (case r of
                  Inl _ \<Rightarrow> Some (f, Inl error.InvalidInput)
                | Inr block_buf \<Rightarrow> do {
                    let block_offset = f_offset f mod bs;
                    let copy_len = min (min (bs - block_offset) (file_len - f_offset f)) (buf_len - length out);
                    bytes \<leftarrow> slice block_buf block_offset (block_offset + copy_len);
                    ext2_read_loop gb sb blocks bs file_len buf_len (f\<lparr>f_offset := f_offset f + copy_len\<rparr>) (out @ bytes)
                  })
             })
      }
      else Some (f, Inr out))"

text \<open>The file after the read, and the bytes copied to the front of the buffer or the error.\<close>

definition ext2_read :: "get_block \<Rightarrow> ext2_sb \<Rightarrow> istore \<Rightarrow> open_file \<Rightarrow> usize \<Rightarrow> (open_file \<times> (error + u8 list)) option" where
  "ext2_read gb sb st f buf_len =
     (let i = st ! f_inode f in
      if i_file_type i \<noteq> RegularFile then Some (f, Inl error.InvalidInput)
      else if f_offset f \<ge> i_len i \<or> buf_len = 0 then Some (f, Inr [])
      else (case i_fs_data i of
        Ext2InodeData _ blocks \<Rightarrow> do { bs \<leftarrow> block_size sb; ext2_read_loop gb sb blocks (unat bs) (i_len i) buf_len f [] }
      | _ \<Rightarrow> None))"

definition ft_file_type :: "u8 \<Rightarrow> file_type" where
  "ft_file_type ft = (if ft = 1 then RegularFile else if ft = 2 then Directory else if ft = 3 then CharDevice
     else if ft = 4 then BlockDevice else RegularFile)"

definition ext2_readdir :: "get_block \<Rightarrow> ext2_sb \<Rightarrow> istore \<Rightarrow> open_file \<Rightarrow> (error + dir_entry list) option" where
  "ext2_readdir gb sb st f =
     (let i = st ! f_inode f in
      if i_file_type i \<noteq> Directory then Some (Inl NotADirectory)
      else do {
        it \<leftarrow> dir_iter_new sb i;
        r \<leftarrow> dir_collect gb sb it;
        Some (map_sum (\<lambda>_. error.InvalidInput) (map (\<lambda>e. \<lparr>de_name = rd_name e, de_file_type = ft_file_type (rd_file_type e)\<rparr>)) r)
      })"

section \<open>Reading a file\<close>

text \<open>The block sizes the driver's 4096-byte buffers can hold.\<close>

definition sane_log :: "ext2_sb \<Rightarrow> bool" where
  "sane_log sb \<longleftrightarrow> log_block_size sb \<le> 2"

definition bsize :: "ext2_sb \<Rightarrow> nat" where
  "bsize sb = 1024 * 2 ^ unat (log_block_size sb)"

lemma block_size_ok:
  assumes "sane_log sb"
  shows "block_size sb = Some (word_of_nat (bsize sb))" "unat (word_of_nat (bsize sb) :: u32) = bsize sb"
    "bsize sb = 1024 \<or> bsize sb = 2048 \<or> bsize sb = 4096"
proof -
  have "unat (log_block_size sb) \<le> 2" using assms by (simp add: sane_log_def word_le_nat_alt)
  then consider "unat (log_block_size sb) = 0" | "unat (log_block_size sb) = 1" | "unat (log_block_size sb) = 2" by linarith
  then show "block_size sb = Some (word_of_nat (bsize sb))" "unat (word_of_nat (bsize sb) :: u32) = bsize sb"
    "bsize sb = 1024 \<or> bsize sb = 2048 \<or> bsize sb = 4096"
    by (cases; simp add: block_size_def bsize_def EXT2_MIN_BLOCK_SIZE_def push_bit_eq_mult)+
qed

text \<open>
  The on-disk format of a file, independently of the driver. Block \<open>p\<close> of a file system with blocks of
  \<open>bs\<close> bytes starts at sector \<open>p * (bs div 512)\<close>. A pointer block is an array of little-endian words.
  The block map of an inode is the list of its twelve direct pointers, followed by the array in the
  indirect block, followed by the arrays in the blocks that the array in the doubly indirect block
  names, in order. A pointer 0 names no block: all pointers below it are 0. A pointer that cannot be
  read is \<open>None\<close>.
\<close>

definition disk_block :: "get_block \<Rightarrow> nat \<Rightarrow> u32 \<Rightarrow> u8 list option" where
  "disk_block gb bs p =
     (case gb (word_of_nat (unat p * (bs div 512))) of
        Some (Inr buf) \<Rightarrow> if length buf = CACHE_BLOCK_SIZE then Some (take bs buf) else None
      | _ \<Rightarrow> None)"

fun le_words :: "u8 list \<Rightarrow> u32 list" where
  "le_words (a # b # c # d # bytes) = word_of_nat (le_nat [a, b, c, d]) # le_words bytes"
| "le_words _ = []"

definition pointer_block :: "get_block \<Rightarrow> nat \<Rightarrow> u32 option \<Rightarrow> u32 option list" where
  "pointer_block gb bs ptr =
     (case ptr of
        None \<Rightarrow> replicate (bs div 4) None
      | Some p \<Rightarrow>
          if p = 0 then replicate (bs div 4) (Some 0)
          else (case disk_block gb bs p of None \<Rightarrow> replicate (bs div 4) None | Some b \<Rightarrow> map Some (le_words b)))"

definition block_map :: "get_block \<Rightarrow> nat \<Rightarrow> u32 list \<Rightarrow> u32 option list" where
  "block_map gb bs blocks =
     map Some (take 12 blocks) @ pointer_block gb bs (Some (blocks ! 12)) @
     concat (map (pointer_block gb bs) (pointer_block gb bs (Some (blocks ! 13))))"

text \<open>The \<open>k\<close>-th block of a file, if it is allocated and can be read, and the bytes of a file.\<close>

definition file_block :: "get_block \<Rightarrow> ext2_sb \<Rightarrow> u32 list \<Rightarrow> nat \<Rightarrow> u8 list option" where
  "file_block gb sb blocks k =
     (if k < length (block_map gb (bsize sb) blocks)
      then (case block_map gb (bsize sb) blocks ! k of
              Some p \<Rightarrow> if p = 0 then None else disk_block gb (bsize sb) p
            | None \<Rightarrow> None)
      else None)"

definition file_contents :: "get_block \<Rightarrow> ext2_sb \<Rightarrow> u32 list \<Rightarrow> nat \<Rightarrow> u8 list" where
  "file_contents gb sb blocks len = map (\<lambda>j. the (file_block gb sb blocks (j div bsize sb)) ! (j mod bsize sb)) [0..<len]"

definition allocated :: "get_block \<Rightarrow> ext2_sb \<Rightarrow> u32 list \<Rightarrow> nat \<Rightarrow> bool" where
  "allocated gb sb blocks len \<longleftrightarrow> length blocks = 15 \<and> (\<forall>j < len. file_block gb sb blocks (j div bsize sb) \<noteq> None)"

text \<open>The driver's pointer resolution looks up the block map.\<close>

lemma le_words_length [simp]: "length (le_words d) = length d div 4"
  by (induction d rule: le_words.induct) auto

lemma le_words_nth: "i < length d div 4 \<Longrightarrow> le_words d ! i = word_of_nat (le_nat (take 4 (drop (i * 4) d)))"
proof (induction d arbitrary: i rule: le_words.induct)
  case (1 a b c d bytes)
  show ?case
  proof (cases i)
    case (Suc j)
    have "drop (i * 4) (a # b # c # d # bytes) = drop (j * 4) bytes" by (simp add: Suc drop_Cons')
    then show ?thesis using 1 Suc by simp
  qed simp
qed auto

lemma concat_length_blocks: "(\<And>x. x \<in> set xs \<Longrightarrow> length x = n) \<Longrightarrow> length (concat xs) = length xs * n"
  by (induction xs) simp_all

lemma concat_nth_blocks:
  "(\<And>x. x \<in> set xs \<Longrightarrow> length x = n) \<Longrightarrow> 0 < n \<Longrightarrow> k < length xs * n \<Longrightarrow> concat xs ! k = xs ! (k div n) ! (k mod n)"
proof (induction xs arbitrary: k)
  case (Cons x xs)
  have x: "length x = n" using Cons.prems(1) by simp
  show ?case
  proof (cases "k < n")
    case True
    then show ?thesis using x by (simp add: nth_append)
  next
    case False
    have "k - n < length xs * n" using Cons.prems(3) False by simp
    then have "concat xs ! (k - n) = xs ! ((k - n) div n) ! ((k - n) mod n)" using Cons.IH Cons.prems(1,2) by simp
    moreover have "k div n = Suc ((k - n) div n)" "k mod n = (k - n) mod n"
      using False Cons.prems(2) by (simp_all add: le_div_geq le_mod_geq)
    ultimately show ?thesis using False x by (simp add: nth_append)
  qed
qed simp

lemma block_to_sector_ok:
  assumes "sane_log sb"
  shows "block_to_sector sb p = Some (word_of_nat (unat p * (bsize sb div 512)))"
  using block_size_ok[OF assms] by (auto simp: block_to_sector_def BLOCK_SIZE_def)

lemma disk_blockE:
  assumes "sane_log sb" "disk_block gb (bsize sb) p = Some b"
  obtains sector buf where "block_to_sector sb p = Some sector" "gb sector = Some (Inr buf)" "length buf = CACHE_BLOCK_SIZE"
    "b = take (bsize sb) buf" "length b = bsize sb"
  using assms block_to_sector_ok[OF assms(1), of p] block_size_ok(3)[OF assms(1)]
  by (auto simp: disk_block_def CACHE_BLOCK_SIZE_def split: option.splits sum.splits if_splits)

lemma pointer_block_length:
  assumes "sane_log sb"
  shows "length (pointer_block gb (bsize sb) ptr) = bsize sb div 4"
  by (auto simp: pointer_block_def split: option.splits elim: disk_blockE[OF assms])

lemma pointer_block_nth:
  assumes "sane_log sb" "i < bsize sb div 4" "pointer_block gb (bsize sb) (Some p) ! i = Some q"
  shows "p = 0 \<and> q = 0 \<or> p \<noteq> 0 \<and> (\<exists>sector buf. block_to_sector sb p = Some sector \<and> gb sector = Some (Inr buf) \<and> read_u32_le buf (i * 4) = Some q)"
proof (cases "p = 0")
  case True
  then show ?thesis using assms(2,3) by (simp add: pointer_block_def)
next
  case False
  then obtain b where b: "disk_block gb (bsize sb) p = Some b" "le_words b ! i = q" "i < length b div 4"
    using assms pointer_block_length[OF assms(1), of gb "Some p"] by (auto simp: pointer_block_def split: option.splits)
  obtain sector buf where d: "block_to_sector sb p = Some sector" "gb sector = Some (Inr buf)" "length buf = CACHE_BLOCK_SIZE"
    "b = take (bsize sb) buf" "length b = bsize sb" using disk_blockE[OF assms(1) b(1)] .
  have "i * 4 + 4 \<le> bsize sb" using assms(2) by linarith
  then have "take 4 (drop (i * 4) b) = take 4 (drop (i * 4) buf)" unfolding d(4) by (simp add: drop_take min_def)
  moreover have "read_u32_le buf (i * 4) = Some (word_of_nat (le_nat (take 4 (drop (i * 4) buf))))"
    using d(3,5) \<open>i * 4 + 4 \<le> bsize sb\<close> block_size_ok(3)[OF assms(1)]
    by (intro read_u32_le_ok) (auto simp: CACHE_BLOCK_SIZE_def usize_bound_def)
  ultimately show ?thesis using False b(2) le_words_nth[OF b(3)] d(1,2) by auto
qed

lemma resolve_block_ptr_ok:
  assumes "sane_log sb" "length blocks = 15" "k < length (block_map gb (bsize sb) blocks)" "block_map gb (bsize sb) blocks ! k = Some p"
  shows "resolve_block_ptr gb sb blocks k = Some (Inr p)"
proof -
  define n where "n = bsize sb div 4"
  have n: "unat (word_of_nat (bsize sb) :: u32) div 4 = n" "0 < n" using block_size_ok(2,3)[OF assms(1)] by (auto simp: n_def)
  note len = pointer_block_length[OF assms(1), folded n_def] and nth = pointer_block_nth[OF assms(1), folded n_def]
  have l: "length (take 12 blocks) = 12" using assms(2) by simp
  consider "k < 12" | "12 \<le> k" "k - 12 < n" | "12 \<le> k" "n \<le> k - 12" by linarith
  then show ?thesis
  proof cases
    case 1
    then show ?thesis using assms(2,4) by (simp add: block_map_def nth_append resolve_block_ptr_def NDIR_BLOCKS_def)
  next
    case 2
    then have "pointer_block gb (bsize sb) (Some (blocks ! 12)) ! (k - 12) = Some p"
      using assms(4) l len by (simp add: block_map_def nth_append)
    from nth[OF 2(2) this] show ?thesis using 2 block_size_ok(1)[OF assms(1)] n
      by (auto simp: resolve_block_ptr_def NDIR_BLOCKS_def)
  next
    case 3
    define d where "d = k - 12 - n"
    let ?l1 = "pointer_block gb (bsize sb) (Some (blocks ! 13))"
    have cl: "length x = n" if "x \<in> set (map (pointer_block gb (bsize sb)) ?l1)" for x using that len by auto
    note cc = concat_length_blocks[of "map (pointer_block gb (bsize sb)) ?l1" n, OF cl]
      concat_nth_blocks[of "map (pointer_block gb (bsize sb)) ?l1" n, OF cl n(2)]
    have d: "d < n * n" using assms(3) 3 l len cc(1) by (simp add: block_map_def d_def)
    then have dv: "d div n < n" "d mod n < n" using n(2) by (simp_all add: less_mult_imp_div_less)
    have "concat (map (pointer_block gb (bsize sb)) ?l1) ! d = Some p"
      using assms(4) 3 l len by (simp add: block_map_def nth_append d_def)
    then have e: "pointer_block gb (bsize sb) (?l1 ! (d div n)) ! (d mod n) = Some p" using cc(2)[of d] d dv(1) len by simp
    then obtain q where q: "?l1 ! (d div n) = Some q" using dv(2) by (cases "?l1 ! (d div n)") (auto simp: pointer_block_def n_def)
    show ?thesis using nth[OF dv(1) q] nth[OF dv(2) e[unfolded q]] 3 d block_size_ok(1)[OF assms(1)] n
      by (auto simp: resolve_block_ptr_def NDIR_BLOCKS_def d_def)
  qed
qed

lemma file_blockE:
  assumes "sane_log sb" "length blocks = 15" "file_block gb sb blocks k = Some b"
  obtains ptr sector buf where "resolve_block_ptr gb sb blocks k = Some (Inr ptr)" "ptr \<noteq> 0" "block_to_sector sb ptr = Some sector"
    "gb sector = Some (Inr buf)" "length buf = CACHE_BLOCK_SIZE" "b = take (bsize sb) buf"
proof -
  obtain p where p: "k < length (block_map gb (bsize sb) blocks)" "block_map gb (bsize sb) blocks ! k = Some p" "p \<noteq> 0"
      "disk_block gb (bsize sb) p = Some b"
    using assms(3) by (auto simp: file_block_def split: option.splits if_splits)
  show thesis using that resolve_block_ptr_ok[OF assms(1,2) p(1,2)] p(3) disk_blockE[OF assms(1) p(4)] by metis
qed

lemma file_contents_length [simp]: "length (file_contents gb sb blocks len) = len"
  by (simp add: file_contents_def)

lemma chunk_eq:
  assumes "file_block gb sb blocks (off div bsize sb) = Some (take (bsize sb) buf)" "length buf = CACHE_BLOCK_SIZE" "sane_log sb"
    and "c \<le> bsize sb - off mod bsize sb" "c \<le> len - off" "off < len"
  shows "take c (drop (off mod bsize sb) buf) = take c (drop off (file_contents gb sb blocks len))"
proof (rule nth_equalityI)
  have b: "0 < bsize sb" "bsize sb \<le> CACHE_BLOCK_SIZE" using block_size_ok(3)[OF assms(3)] by (auto simp: CACHE_BLOCK_SIZE_def)
  then show "length (take c (drop (off mod bsize sb) buf)) = length (take c (drop off (file_contents gb sb blocks len)))"
    using assms(2,4-6) by simp
  fix i assume "i < length (take c (drop (off mod bsize sb) buf))"
  then have i: "i < c" "off mod bsize sb + i < bsize sb" using assms(4) b(1) mod_less_divisor[OF b(1), of off] by auto
  have "off + i = (off mod bsize sb + i) + bsize sb * (off div bsize sb)" by simp
  then have "(off + i) div bsize sb = off div bsize sb" "(off + i) mod bsize sb = off mod bsize sb + i"
    using i(2) b(1) by (metis add.commute add_0 div_less div_mult_self2 less_numeral_extra(3), metis mod_less mod_mult_self2)
  then show "take c (drop (off mod bsize sb) buf) ! i = take c (drop off (file_contents gb sb blocks len)) ! i"
    using i assms b by (simp add: file_contents_def)
qed

lemma read_loop_ok:
  assumes "sane_log sb" "allocated gb sb blocks len" "f_offset f \<le> len"
  defines "C \<equiv> file_contents gb sb blocks len"
  shows "ext2_read_loop gb sb blocks (bsize sb) len n f out =
    Some (f\<lparr>f_offset := f_offset f + min (n - length out) (len - f_offset f)\<rparr>, Inr (out @ take (n - length out) (drop (f_offset f) C)))"
  using assms(3)
proof (induction "n - length out" arbitrary: f out rule: less_induct)
  case less
  let ?off = "f_offset f"
  show ?case
  proof (cases "length out < n \<and> ?off < len")
    case False
    then show ?thesis using less.prems by (subst ext2_read_loop.simps) (auto simp: C_def)
  next
    case True
    have b: "0 < bsize sb" using block_size_ok(3)[OF assms(1)] by auto
    have l15: "length blocks = 15" using assms(2) by (simp add: allocated_def)
    obtain b' where "file_block gb sb blocks (?off div bsize sb) = Some b'" using assms(2) True by (auto simp: allocated_def)
    with file_blockE[OF assms(1) l15 this] obtain ptr sector buf where
      fb: "file_block gb sb blocks (?off div bsize sb) = Some (take (bsize sb) buf)" and bl: "resolve_block_ptr gb sb blocks (?off div bsize sb) = Some (Inr ptr)" "ptr \<noteq> 0"
      "block_to_sector sb ptr = Some sector" "gb sector = Some (Inr buf)" "length buf = CACHE_BLOCK_SIZE"
      by metis
    define c where "c = min (min (bsize sb - ?off mod bsize sb) (len - ?off)) (n - length out)"
    have c: "0 < c" "c \<le> bsize sb - ?off mod bsize sb" "c \<le> len - ?off" "c \<le> n - length out"
      using True b by (auto simp: c_def)
    have fit: "?off mod bsize sb + c \<le> CACHE_BLOCK_SIZE"
      using c(2) mod_less_divisor[OF b, of ?off] block_size_ok(3)[OF assms(1)] by (auto simp: CACHE_BLOCK_SIZE_def)
    have ch: "take c (drop (?off mod bsize sb) buf) = take c (drop ?off C)"
      unfolding C_def by (rule chunk_eq[OF fb bl(5) assms(1) c(2,3)]) (use True in simp)
    let ?f = "f\<lparr>f_offset := ?off + c\<rparr>" and ?out = "out @ take c (drop ?off C)"
    have len: "length ?out = length out + c" using c True by (simp add: C_def)
    have "ext2_read_loop gb sb blocks (bsize sb) len n f out = ext2_read_loop gb sb blocks (bsize sb) len n ?f ?out"
      using True b bl fit ch by (subst ext2_read_loop.simps) (simp add: c_def[symmetric] Let_def)
    also have "\<dots> = Some (?f\<lparr>f_offset := ?off + c + min (n - length ?out) (len - (?off + c))\<rparr>, Inr (?out @ take (n - length ?out) (drop (?off + c) C)))"
      using less.hyps[of ?out ?f] less.prems c True len by simp
    also have "?out @ take (n - length ?out) (drop (?off + c) C) = out @ take (n - length out) (drop ?off C)"
    proof -
      have "c + (n - (length out + c)) = n - length out" using c(4) by linarith
      then show ?thesis using take_add[of c "n - (length out + c)" "drop ?off C"] unfolding len by (simp add: add.commute)
    qed
    also have "?off + c + min (n - length ?out) (len - (?off + c)) = ?off + min (n - length out) (len - ?off)"
      using c len by linarith
    finally show ?thesis by simp
  qed
qed

lemma ext2_read_ok:
  assumes "sane_log sb" "i_file_type (st ! f_inode f) = RegularFile" "i_fs_data (st ! f_inode f) = Ext2InodeData k blocks"
    and "allocated gb sb blocks (i_len (st ! f_inode f))" "f_offset f \<le> i_len (st ! f_inode f)"
  shows "ext2_read gb sb st f n =
    Some (f\<lparr>f_offset := f_offset f + min n (i_len (st ! f_inode f) - f_offset f)\<rparr>,
      Inr (take n (drop (f_offset f) (file_contents gb sb blocks (i_len (st ! f_inode f))))))"
proof (cases "f_offset f \<ge> i_len (st ! f_inode f) \<or> n = 0")
  case True
  then show ?thesis using assms by (auto simp: ext2_read_def)
next
  case False
  then show ?thesis using assms(2,3) read_loop_ok[OF assms(1,4,5), of n "[]"] block_size_ok(1,2)[OF assms(1)]
    by (simp add: ext2_read_def Let_def)
qed

text \<open>
  C32: Reading an ext2 file returns its contents. On a file system with blocks of at most 4096 bytes, if
  the blocks that hold the file's bytes are allocated and the volume can read them and the pointer blocks
  that lead to them, a read of \<open>n\<close> bytes from a regular file returns exactly the bytes of the file from
  the offset on, as many as asked for or as are left, and advances the offset by their number. The bytes
  of the file are those of the blocks in its block map in order: the direct pointers, the array in the
  indirect block, and the arrays in the blocks named by the doubly indirect block.
\<close>

theorem ext2_read_contents:
  assumes "sane_log sb" "i_file_type (st ! f_inode f) = RegularFile" "i_fs_data (st ! f_inode f) = Ext2InodeData k blocks"
    and "allocated gb sb blocks (i_len (st ! f_inode f))" "f_offset f \<le> i_len (st ! f_inode f)"
  shows "ext2_read gb sb st f n =
    Some (f\<lparr>f_offset := f_offset f + min n (i_len (st ! f_inode f) - f_offset f)\<rparr>,
      Inr (take n (drop (f_offset f) (file_contents gb sb blocks (i_len (st ! f_inode f))))))"
  by (rule ext2_read_ok[OF assms])

text \<open>A file of fourteen blocks: twelve direct ones and two whose pointers are in block 20.\<close>

definition demo_volume :: get_block where
  "demo_volume s = Some (Inr (if s = 40 then [30, 0, 0, 0, 31, 0, 0, 0] @ replicate 4088 0 else replicate 4096 (ucast s)))"

definition demo_map :: "u32 list" where
  "demo_map = replicate 12 9 @ [20, 0, 0]"

lemma demo_block_map:
  "k < 12 \<Longrightarrow> k < length (block_map demo_volume 1024 demo_map) \<and> block_map demo_volume 1024 demo_map ! k = Some 9"
  "12 < length (block_map demo_volume 1024 demo_map) \<and> block_map demo_volume 1024 demo_map ! 12 = Some 30"
  "13 < length (block_map demo_volume 1024 demo_map) \<and> block_map demo_volume 1024 demo_map ! 13 = Some 31"
proof -
  have i: "disk_block demo_volume 1024 20 = Some ([30, 0, 0, 0, 31, 0, 0, 0] @ replicate 1016 0)"
    by (simp add: disk_block_def demo_volume_def CACHE_BLOCK_SIZE_def)
  have w: "le_words ([30, 0, 0, 0, 31, 0, 0, 0] @ bytes) = 30 # 31 # le_words bytes" for bytes by simp
  have m: "block_map demo_volume 1024 demo_map = replicate 12 (Some 9) @ Some 30 # Some 31 # rest"
    if "rest = map Some (le_words (replicate 1016 0)) @ concat (map (pointer_block demo_volume 1024) (pointer_block demo_volume 1024 (Some 0)))" for rest
    unfolding that by (simp add: block_map_def demo_map_def nth_append pointer_block_def[of _ _ "Some 20"] i w)
  show "k < 12 \<Longrightarrow> k < length (block_map demo_volume 1024 demo_map) \<and> block_map demo_volume 1024 demo_map ! k = Some 9"
    "12 < length (block_map demo_volume 1024 demo_map) \<and> block_map demo_volume 1024 demo_map ! 12 = Some 30"
    "13 < length (block_map demo_volume 1024 demo_map) \<and> block_map demo_volume 1024 demo_map ! 13 = Some 31"
    unfolding m[OF refl] by (simp_all add: nth_append)
qed

theorem ext2_read_contents_witness:
  "\<exists>f'. ext2_read demo_volume (ext2_blank 0)
      [\<lparr>i_ino = 12, i_file_type = RegularFile, i_len = 14000, i_iops = EXT2_INODE_OPS, i_fops = EXT2_FILE_OPS, i_sb = Some 0,
        i_rdev = None, i_fs_data = Ext2InodeData 0 demo_map\<rparr>]
      \<lparr>f_fops = EXT2_FILE_OPS, f_offset = 13310, f_inode = 0\<rparr> 4 = Some (f', Inr [60, 60, 62, 62])"
proof -
  let ?i = "\<lparr>i_ino = 12, i_file_type = RegularFile, i_len = 14000, i_iops = EXT2_INODE_OPS, i_fops = EXT2_FILE_OPS, i_sb = Some 0,
        i_rdev = None, i_fs_data = Ext2InodeData 0 demo_map\<rparr>"
  let ?f = "\<lparr>f_fops = EXT2_FILE_OPS, f_offset = 13310, f_inode = 0\<rparr>" and ?sb = "ext2_blank 0"
  have bs: "bsize ?sb = 1024" "sane_log ?sb" by (simp_all add: bsize_def sane_log_def ext2_blank_def)
  have fb: "k < 12 \<Longrightarrow> file_block demo_volume ?sb demo_map k = Some (replicate 1024 18)"
    "file_block demo_volume ?sb demo_map 12 = Some (replicate 1024 60)" "file_block demo_volume ?sb demo_map 13 = Some (replicate 1024 62)" for k
    using demo_block_map unfolding file_block_def bs(1)
    by (simp_all add: disk_block_def demo_volume_def CACHE_BLOCK_SIZE_def)
  have "file_block demo_volume ?sb demo_map (j div 1024) \<noteq> None" if j: "j < 14000" for j
  proof -
    consider "j div 1024 < 12" | "j div 1024 = 12" | "j div 1024 = 13" using j by linarith
    then show ?thesis using fb by cases auto
  qed
  then have al: "allocated demo_volume ?sb demo_map 14000" unfolding allocated_def bs(1) by (simp add: demo_map_def)
  have up: "[13310..<13314] = [13310, 13311, 13312, 13313]" by (simp add: upt_conv_Cons)
  have "take 4 (drop 13310 (file_contents demo_volume ?sb demo_map 14000)) =
      map (\<lambda>j. the (file_block demo_volume ?sb demo_map (j div 1024)) ! (j mod 1024)) [13310..<13314]"
    by (simp add: file_contents_def bs(1) take_map drop_map take_upt)
  also have "\<dots> = [60, 60, 62, 62]" unfolding up using fb(2,3) by simp
  finally show ?thesis using ext2_read_contents[OF bs(2), of "[?i]" ?f 0 demo_map demo_volume 4] al by simp
qed

section \<open>Finding an inode\<close>

definition inode_group :: "ext2_sb \<Rightarrow> u32 \<Rightarrow> nat" where
  "inode_group sb n = (unat n - 1) div unat (inodes_per_group sb)"

definition inode_index :: "ext2_sb \<Rightarrow> u32 \<Rightarrow> nat" where
  "inode_index sb n = (unat n - 1) mod unat (inodes_per_group sb)"

text \<open>
  The inode sizes the driver can handle, and an inode table that ends within the addressable blocks.
\<close>

definition sane_table :: "ext2_sb \<Rightarrow> u32 \<Rightarrow> bool" where
  "sane_table sb n \<longleftrightarrow> sane_log sb \<and> 128 \<le> unat (inode_size sb) \<and> unat (inode_size sb) dvd bsize sb \<and> inodes_per_group sb \<noteq> 0 \<and>
     (inode_group sb n < length (groups sb) \<longrightarrow> unat (groups sb ! inode_group sb n) + unat n < 2 ^ 32)"

lemma unat_dec: "n \<noteq> 0 \<Longrightarrow> unat (n - 1 :: u32) = unat n - 1"
  by (metis unat_minus_one)

lemma u32_group:
  assumes "n \<noteq> 0" "inodes_per_group sb \<noteq> 0"
  shows "unat ((n - 1) div inodes_per_group sb) = inode_group sb n" "unat ((n - 1) mod inodes_per_group sb) = inode_index sb n"
  using unat_dec[OF assms(1)] by (simp_all add: inode_group_def inode_index_def unat_div unat_mod)

lemma sector_byte: "sane_log sb \<Longrightarrow> unat (word_of_nat (unat (t :: u32) * bsize sb div BLOCK_SIZE) :: u64) * BLOCK_SIZE = unat t * bsize sb"
proof -
  assume a: "sane_log sb"
  have "unat t < 2 ^ 32" using unsigned_less[of t] by (rule order.strict_trans2) simp
  then have "unat t * bsize sb \<le> 2 ^ 32 * 4096" using block_size_ok(3)[OF a] by (intro mult_le_mono) auto
  then have "unat t * bsize sb div BLOCK_SIZE < 2 ^ 64" by (simp add: BLOCK_SIZE_def)
  moreover have "BLOCK_SIZE dvd unat t * bsize sb" using block_size_ok(3)[OF a] by (auto simp: BLOCK_SIZE_def)
  ultimately show ?thesis by (simp add: unat_of_nat take_bit_nat_eq_self)
qed

lemma inode_location_ok:
  assumes "sane_table sb n" "n \<noteq> 0" "inode_group sb n < length (groups sb)"
  shows "\<exists>sector off. inode_location sb n = Some (Inr (sector, off)) \<and>
    unat sector * BLOCK_SIZE + off = unat (groups sb ! inode_group sb n) * bsize sb + inode_index sb n * unat (inode_size sb) \<and>
    off + unat (inode_size sb) \<le> bsize sb"
proof -
  note t = assms(1)[unfolded sane_table_def]
  define isz ipb li g where "isz = unat (inode_size sb)" and "ipb = bsize sb div isz" and "li = inode_index sb n" and "g = groups sb ! inode_group sb n"
  have b: "block_size sb = Some (word_of_nat (bsize sb))" "unat (word_of_nat (bsize sb) :: u32) = bsize sb" "bsize sb \<le> 4096" "0 < bsize sb"
    using t block_size_ok[of sb] by auto
  have i: "ipb * isz = bsize sb" "0 < ipb" "0 < isz" "isz \<le> bsize sb"
    using t b(4) dvd_imp_le[of isz "bsize sb"] by (auto simp: ipb_def isz_def div_greater_zero_iff)
  have w: "unat (ucast (inode_size sb) :: u32) = isz"
  proof -
    have "unat (inode_size sb) < 2 ^ 16" using unsigned_less[of "inode_size sb"] by (rule order.strict_trans2) simp
    then show ?thesis by (simp add: isz_def unsigned_ucast_eq take_bit_nat_eq_self)
  qed
  note gr = u32_group[OF assms(2), of sb]
  define W :: u32 where "W = word_of_nat (bsize sb) div ucast (inode_size sb)"
  have W: "unat W = ipb" "W \<noteq> 0" "u32_div (word_of_nat (bsize sb)) (ucast (inode_size sb)) = Some W"
    using w b i by (auto simp: W_def ipb_def unat_div u32_div_def unat_eq_0[symmetric] simp del: unat_eq_0 unsigned_eq_0_iff)
  define L :: u32 where "L = (n - 1) mod inodes_per_group sb"
  have L: "unat L = li" using gr t by (simp add: L_def li_def)
  have li: "li < unat n" unfolding li_def inode_index_def using assms(2) unat_dec[OF assms(2)]
    by (metis diff_less less_le_trans mod_less_eq_dividend not_gr_zero order.strict_trans1 unat_eq_zero zero_less_one)
  have "unat g + unat n < 2 ^ 32" "li div ipb \<le> li" using t assms(3) by (simp_all add: g_def)
  then have q: "unat g + li div ipb < 2 ^ 32" using li by linarith
  have T: "u32_add g (L div W) = Some (g + L div W)" "unat (g + L div W) = unat g + li div ipb"
    using q L W(1) by (auto simp: u32_add_def unat_div unat_word_ariths)
  have m: "li mod ipb * isz + isz \<le> bsize sb"
  proof -
    have "(li mod ipb + 1) * isz \<le> ipb * isz" using mod_less_divisor[OF i(2), of li] by (intro mult_le_mono1) linarith
    then show ?thesis using i(1) by simp
  qed
  have O: "u32_mul (L mod W) (ucast (inode_size sb)) = Some (L mod W * ucast (inode_size sb))" "unat (L mod W * ucast (inode_size sb)) = li mod ipb * isz"
    using m b(3) L W(1) w by (auto simp: u32_mul_def unat_mod unat_word_ariths)
  have loc: "inode_location sb n = Some (Inr (word_of_nat (unat (g + L div W) * bsize sb div BLOCK_SIZE), li mod ipb * isz))"
    using assms(2,3) t gr b W T O L unfolding inode_location_def
    by (simp add: u32_div_def u32_mod_def g_def[symmetric] L_def[symmetric] Let_def)
  have "unat (g + L div W) * bsize sb + li mod ipb * isz = unat g * bsize sb + (li div ipb * ipb + li mod ipb) * isz"
  proof -
    have "(a + p) * (ipb * isz) + r * isz = a * (ipb * isz) + (p * ipb + r) * isz" for a p r by (simp add: algebra_simps)
    then show ?thesis unfolding T(2) i(1)[symmetric] .
  qed
  then show ?thesis unfolding loc using sector_byte[of sb "g + L div W"] t m by (simp add: g_def li_def isz_def)
qed

lemma read_inode_total:
  assumes "inode_location sb n = Some (Inr (sector, off))" "gb sector = Some (Inr buf)" "length buf = CACHE_BLOCK_SIZE" "off + 128 \<le> CACHE_BLOCK_SIZE"
  shows "\<exists>i. read_inode gb k sb n = Some (Inr i) \<and> i_ino i = ucast n"
proof -
  have len: "length buf = 4096" "off + 128 \<le> 4096" "length buf < usize_bound" using assms(3,4) by (simp_all add: CACHE_BLOCK_SIZE_def usize_bound_def)
  have "\<exists>bs. ofold (\<lambda>i bs. do { b \<leftarrow> read_u32_le buf (off + 40 + i * 4); Some (bs @ [b]) }) [0..<15] [] = Some bs"
    using ofold_total[where P = "\<lambda>_. True" and xs = "[0..<15]" and s = "[]" and f = "\<lambda>i bs. do { b \<leftarrow> read_u32_le buf (off + 40 + i * 4); Some (bs @ [b]) }"] len
    by (auto simp: read_u32_le_ok)
  then show ?thesis using assms(1,2) len by (auto simp: read_inode_def read_u16_le_ok read_u32_le_ok)
qed

text \<open>
  C33: An inode is read from its place in the inode table. For every inode number the byte the driver
  addresses is the start of the group's inode table plus the inode's index times the inode size, the inode
  lies within one block, and reading it does not panic; numbers outside the groups, and 0, are refused.
\<close>

theorem inode_location_correct:
  assumes "sane_table sb n"
  shows "(n = 0 \<or> length (groups sb) \<le> inode_group sb n \<longrightarrow> inode_location sb n = Some (Inl block_error.InvalidInput)) \<and>
    (n \<noteq> 0 \<and> inode_group sb n < length (groups sb) \<longrightarrow>
      (\<exists>sector off. inode_location sb n = Some (Inr (sector, off)) \<and>
        unat sector * BLOCK_SIZE + off = unat (groups sb ! inode_group sb n) * bsize sb + inode_index sb n * unat (inode_size sb) \<and>
        off + unat (inode_size sb) \<le> bsize sb \<and>
        (\<forall>buf gb k. gb sector = Some (Inr buf) \<and> length buf = CACHE_BLOCK_SIZE \<longrightarrow>
           (\<exists>i. read_inode gb k sb n = Some (Inr i) \<and> i_ino i = ucast n))))"
proof (cases "n \<noteq> 0 \<and> inode_group sb n < length (groups sb)")
  case True
  then obtain sector off where l: "inode_location sb n = Some (Inr (sector, off))"
    "unat sector * BLOCK_SIZE + off = unat (groups sb ! inode_group sb n) * bsize sb + inode_index sb n * unat (inode_size sb)"
    "off + unat (inode_size sb) \<le> bsize sb" using inode_location_ok[OF assms] by blast
  moreover have "off + 128 \<le> CACHE_BLOCK_SIZE"
    using l(3) assms block_size_ok(3)[of sb] by (auto simp: sane_table_def CACHE_BLOCK_SIZE_def)
  ultimately show ?thesis using True read_inode_total[OF l(1)] by auto
next
  case False
  then show ?thesis using assms u32_group[of n sb] by (auto simp: inode_location_def sane_table_def u32_div_def u32_mod_def)
qed

theorem inode_location_correct_witness:
  "\<exists>sector off. inode_location ((ext2_blank 0)\<lparr>inodes_per_group := 16, inode_size := 128, groups := [5, 900]\<rparr>) 27 = Some (Inr (sector, off)) \<and>
     unat sector * BLOCK_SIZE + off = 900 * 1024 + 10 * 128"
proof -
  let ?sb = "(ext2_blank 0)\<lparr>inodes_per_group := 16, inode_size := 128, groups := [5, 900]\<rparr>"
  have g: "inode_group ?sb 27 = 1" "inode_index ?sb 27 = 10" by (simp_all add: inode_group_def inode_index_def)
  have "sane_table ?sb 27" unfolding sane_table_def g by (simp add: sane_log_def bsize_def ext2_blank_def)
  from inode_location_correct[OF this] show ?thesis unfolding g by (auto simp: bsize_def ext2_blank_def)
qed

section \<open>Directory iteration terminates\<close>

definition gb_total :: "get_block \<Rightarrow> bool" where
  "gb_total gb \<longleftrightarrow> (\<forall>s. (\<exists>e. gb s = Some (Inl e)) \<or> (\<exists>buf. gb s = Some (Inr buf) \<and> length buf = CACHE_BLOCK_SIZE))"

definition max_blocks :: "ext2_sb \<Rightarrow> nat" where
  "max_blocks sb = NDIR_BLOCKS + bsize sb div 4 + (bsize sb div 4) * (bsize sb div 4)"

lemma try_bind_cases:
  assumes "gb_total gb" "\<And>buf. length buf = CACHE_BLOCK_SIZE \<Longrightarrow> f buf \<noteq> None"
  shows "try_bind (gb s) f \<noteq> None"
  using assms unfolding gb_total_def by (metis option.discI try_bind_simps(2,3))

lemma read_ptr_ok: "length buf = CACHE_BLOCK_SIZE \<Longrightarrow> i * 4 + 4 \<le> bsize sb \<Longrightarrow> sane_log sb \<Longrightarrow> read_u32_le buf (i * 4) \<noteq> None"
  using block_size_ok(3)[of sb] by (subst read_u32_le_None_iff) (auto simp: CACHE_BLOCK_SIZE_def usize_bound_def)

lemma resolve_total:
  assumes "sane_log sb" "gb_total gb"
  shows "resolve_block_ptr gb sb blocks idx \<noteq> None" "max_blocks sb \<le> idx \<Longrightarrow> resolve_block_ptr gb sb blocks idx = Some (Inr 0)"
proof -
  let ?p = "bsize sb div 4" and ?d = "idx - NDIR_BLOCKS - bsize sb div 4"
  note b = block_size_ok[OF assms(1)]
  have p: "0 < ?p" "?p * 4 = bsize sb" using b(3) by auto
  have sec: "\<exists>s. block_to_sector sb x = Some s" for x using block_to_sector_ok[OF assms(1)] by blast
  have l1: "?d < ?p * ?p \<Longrightarrow> ?d div ?p * 4 + 4 \<le> bsize sb" and l2: "?d mod ?p * 4 + 4 \<le> bsize sb" and l0: "idx - NDIR_BLOCKS < ?p \<Longrightarrow> (idx - NDIR_BLOCKS) * 4 + 4 \<le> bsize sb"
    using less_mult_imp_div_less[of ?d ?p ?p] mod_less_divisor[OF p(1), of ?d] p(2) by linarith+
  have inner: "try_bind (gb s) (\<lambda>buf. map_option Inr (read_u32_le buf (i * 4))) \<noteq> None" if "i * 4 + 4 \<le> bsize sb" for s i
    by (rule try_bind_cases[OF assms(2)]) (use read_ptr_ok[OF _ that assms(1)] in simp)
  have outer: "try_bind (gb s) (\<lambda>l1_buf. do { l1_ptr \<leftarrow> read_u32_le l1_buf (?d div ?p * 4); if l1_ptr = 0 then Some (Inr 0)
      else do { s \<leftarrow> block_to_sector sb l1_ptr; try_bind (gb s) (\<lambda>l2_buf. map_option Inr (read_u32_le l2_buf (?d mod ?p * 4))) } }) \<noteq> None"
    if dl: "?d < ?p * ?p" for s
  proof (rule try_bind_cases[OF assms(2)])
    fix buf :: "u8 list" assume "length buf = CACHE_BLOCK_SIZE"
    then obtain l1_ptr where "read_u32_le buf (?d div ?p * 4) = Some l1_ptr" using read_ptr_ok[OF _ l1[OF dl] assms(1)] by blast
    moreover obtain s where "block_to_sector sb l1_ptr = Some s" using sec by blast
    ultimately show "do { l1_ptr \<leftarrow> read_u32_le buf (?d div ?p * 4); if l1_ptr = 0 then Some (Inr 0)
      else do { s \<leftarrow> block_to_sector sb l1_ptr; try_bind (gb s) (\<lambda>l2_buf. map_option Inr (read_u32_le l2_buf (?d mod ?p * 4))) } } \<noteq> None"
      using inner[OF l2] by simp
  qed
  obtain s1 s2 where s: "block_to_sector sb (blocks ! NDIR_BLOCKS) = Some s1" "block_to_sector sb (blocks ! (NDIR_BLOCKS + 1)) = Some s2"
    using sec by metis
  show "resolve_block_ptr gb sb blocks idx \<noteq> None"
    using inner[OF l0, of s1] outer[of s2] s
    by (cases "idx < NDIR_BLOCKS"; cases "idx - NDIR_BLOCKS < ?p"; cases "?d < ?p * ?p")
      (simp_all add: resolve_block_ptr_def b Let_def del: not_None_eq cong: if_cong)
  assume "max_blocks sb \<le> idx"
  then show "resolve_block_ptr gb sb blocks idx = Some (Inr 0)" by (auto simp: resolve_block_ptr_def b Let_def max_blocks_def)
qed

text \<open>The iterator's invariant, and the measure that every round of the loop decreases.\<close>

definition loaded :: "ext2_sb \<Rightarrow> dir_iter \<Rightarrow> bool" where
  "loaded sb it \<longleftrightarrow> it_block_offset it < bsize sb \<and> it_block_idx it < max_blocks sb \<and> it_bytes_read it < it_dir_size it \<and>
     (\<exists>buf. it_buf it = Some buf \<and> length buf = CACHE_BLOCK_SIZE)"

definition iter_ok :: "ext2_sb \<Rightarrow> dir_iter \<Rightarrow> bool" where
  "iter_ok sb it \<longleftrightarrow> it_block_size it = bsize sb \<and> unat (it_dir_size it) + 65536 \<le> 2 ^ 32 \<and> (it_block_offset it \<ge> bsize sb \<or> loaded sb it)"

definition iter_rank :: "ext2_sb \<Rightarrow> dir_iter \<Rightarrow> nat" where
  "iter_rank sb it = (max_blocks sb - it_block_idx it) * (bsize sb + 2) +
     (if it_block_offset it \<ge> bsize sb then bsize sb + 1 else bsize sb - it_block_offset it)"

lemma rank_next_block:
  "loaded sb it \<Longrightarrow> it_block_size it = bsize sb \<Longrightarrow> it_block_idx it' = it_block_idx it \<Longrightarrow> it_block_size it' = bsize sb \<Longrightarrow>
   iter_rank sb (next_block it') < iter_rank sb it"
proof -
  assume a: "loaded sb it" "it_block_size it = bsize sb" "it_block_idx it' = it_block_idx it" "it_block_size it' = bsize sb"
  then have "Suc (max_blocks sb - Suc (it_block_idx it)) = max_blocks sb - it_block_idx it" by (auto simp: loaded_def)
  then have "(max_blocks sb - it_block_idx it) * (bsize sb + 2) = (max_blocks sb - Suc (it_block_idx it)) * (bsize sb + 2) + (bsize sb + 2)"
    by (metis add.commute mult_Suc)
  moreover have "iter_rank sb (next_block it') = (max_blocks sb - Suc (it_block_idx it)) * (bsize sb + 2) + (bsize sb + 1)"
    using a by (simp add: iter_rank_def next_block_def)
  moreover have "(max_blocks sb - it_block_idx it) * (bsize sb + 2) \<le> iter_rank sb it" by (simp add: iter_rank_def)
  ultimately show ?thesis by linarith
qed

lemma load_ok:
  assumes "sane_log sb" "gb_total gb" "iter_ok sb it"
  shows "(\<exists>e. load_dir_block gb sb it = Some (Inl e)) \<or> load_dir_block gb sb it = Some (Inr None) \<or>
    (\<exists>it'. load_dir_block gb sb it = Some (Inr (Some it')) \<and> iter_ok sb it' \<and> loaded sb it' \<and> iter_rank sb it' \<le> iter_rank sb it)"
proof (cases "it_block_offset it \<ge> bsize sb")
  case False
  then show ?thesis using assms(3) by (auto simp: load_dir_block_def iter_ok_def)
next
  case True
  have bs: "it_block_size it = bsize sb" "0 < bsize sb" using assms(3) block_size_ok(3)[OF assms(1)] by (auto simp: iter_ok_def)
  show ?thesis
  proof (cases "it_bytes_read it \<ge> it_dir_size it")
    case False
    obtain r where r: "resolve_block_ptr gb sb (it_blocks it) (it_block_idx it) = Some r" using resolve_total(1)[OF assms(1,2)] by blast
    show ?thesis
    proof (cases "\<exists>ptr. r = Inr ptr \<and> ptr \<noteq> 0")
      case ptr: True
      then obtain ptr where p: "r = Inr ptr" "ptr \<noteq> 0" by blast
      then have idx: "it_block_idx it < max_blocks sb" using r resolve_total(2)[OF assms(1,2)] by (metis Inr_inject leI option.inject)
      obtain s where s: "block_to_sector sb ptr = Some s" using block_to_sector_ok[OF assms(1)] by blast
      then have ld: "load_dir_block gb sb it = try_bind (gb s) (\<lambda>block. Some (Inr (Some (it\<lparr>it_buf := Some block, it_block_offset := 0\<rparr>))))"
        using True False r p bs by (simp add: load_dir_block_def)
      from assms(2) consider e where "gb s = Some (Inl e)" | buf where "gb s = Some (Inr buf)" "length buf = CACHE_BLOCK_SIZE"
        unfolding gb_total_def by blast
      then show ?thesis
      proof cases
        case (2 buf)
        let ?it = "it\<lparr>it_buf := Some buf, it_block_offset := 0\<rparr>"
        have "iter_ok sb ?it" "loaded sb ?it" "iter_rank sb ?it \<le> iter_rank sb it"
          using assms(3) bs idx False 2 True by (auto simp: iter_ok_def loaded_def iter_rank_def)
        then show ?thesis using ld 2 by simp
      qed (use ld in simp)
    qed (use True False r bs in \<open>cases r; auto simp: load_dir_block_def\<close>)
  qed (use True bs in \<open>simp add: load_dir_block_def\<close>)
qed

lemma advance_size: "it_block_size (advance_iter it r b) = it_block_size it"
  by (simp add: advance_iter_def next_block_def Let_def)

lemma step_ok:
  assumes "sane_log sb" "iter_ok sb it" "loaded sb it"
  shows "\<exists>it' e. dir_entry_step it = Some (it', e) \<and> iter_ok sb it' \<and> iter_rank sb it' < iter_rank sb it"
proof -
  obtain buf where buf: "it_buf it = Some buf" "length buf = 4096" "length buf < usize_bound"
    using assms(3) by (auto simp: loaded_def CACHE_BLOCK_SIZE_def usize_bound_def)
  let ?o = "it_block_offset it"
  have bs: "it_block_size it = bsize sb" "bsize sb \<le> 4096" "?o < bsize sb"
    using assms block_size_ok(3)[OF assms(1)] by (auto simp: iter_ok_def loaded_def)
  have nb: "iter_ok sb (next_block i) \<and> iter_rank sb (next_block i) < iter_rank sb it"
    if "it_block_idx i = it_block_idx it" "it_block_size i = bsize sb" "it_dir_size i = it_dir_size it" for i
    using rank_next_block[OF assms(3) bs(1) that(1,2)] assms(2) that bs(1) by (auto simp: iter_ok_def next_block_def)
  show ?thesis
  proof (cases "?o + 8 \<le> bsize sb")
    case False
    then show ?thesis using buf bs nb[of it] by (simp add: dir_entry_step_def)
  next
    case True
    define rl :: u16 where "rl = word_of_nat (le_nat (take 2 (drop (?o + 4) buf)))"
    have rd: "read_u32_le buf ?o = Some (word_of_nat (le_nat (take 4 (drop ?o buf))))" "read_u16_le buf (?o + 4) = Some rl"
        "list_get buf (?o + 6) = Some (buf ! (?o + 6))" "list_get buf (?o + 7) = Some (buf ! (?o + 7))"
      using True bs(2) buf(2,3) by (simp_all add: read_u32_le_ok read_u16_le_ok rl_def)
    have rl: "unat rl < 65536" using unsigned_less[of rl] by (rule order.strict_trans2) simp
    show ?thesis
    proof (cases "unat rl = 0")
      case True
      then show ?thesis using buf bs nb[of it] rd \<open>?o + 8 \<le> bsize sb\<close> by (simp add: dir_entry_step_def)
    next
      case False
      have lt: "unat (it_bytes_read it) < unat (it_dir_size it)" "unat (it_dir_size it) + 65536 \<le> 2 ^ 32"
        using assms(2,3) by (auto simp: iter_ok_def loaded_def word_less_nat_alt)
      have w: "unat (word_of_nat (unat rl) :: u32) = unat rl" using rl by (simp add: unsigned_ucast_eq take_bit_nat_eq_self)
      obtain br where br: "u32_add (it_bytes_read it) (word_of_nat (unat rl)) = Some br" using lt rl w by (simp add: u32_add_def)
      define i where "i = it\<lparr>it_block_offset := ?o + unat rl, it_bytes_read := br\<rparr>"
      define i' where "i' = advance_iter it (unat rl) br"
      note i'_def' = i'_def[unfolded advance_iter_def Let_def, folded i_def]
      have "iter_ok sb i' \<and> iter_rank sb i' < iter_rank sb it"
      proof (cases "it_block_offset i \<ge> it_block_size i \<or> it_bytes_read i \<ge> it_dir_size i")
        case True
        then show ?thesis using nb[of i] bs by (simp add: i'_def') (simp add: i_def)
      next
        case inside: False
        then have "i' = i" "it_block_offset i < bsize sb" "it_bytes_read i < it_dir_size i"
          using bs by (simp_all add: i'_def') (auto simp: i_def)
        then show ?thesis using assms(2,3) False buf bs by (auto simp: i_def iter_ok_def loaded_def iter_rank_def)
      qed
      moreover have "\<exists>e. dir_entry_step it = Some (i', e)"
        using buf bs rd br False \<open>?o + 8 \<le> bsize sb\<close> advance_size[of it "unat rl" br]
        by (simp add: dir_entry_step_def Let_def i'_def)
      ultimately show ?thesis by blast
    qed
  qed
qed

lemma dir_next_ok:
  assumes "sane_log sb" "gb_total gb" "iter_ok sb it"
  shows "\<exists>it' r. dir_next gb sb it = Some (it', r) \<and> (\<forall>e. r = Some (Inr e) \<longrightarrow> iter_ok sb it' \<and> iter_rank sb it' < iter_rank sb it)"
  using assms(3)
proof (induction "iter_rank sb it" arbitrary: it rule: less_induct)
  case less
  from load_ok[OF assms(1,2) less.prems] consider e where "load_dir_block gb sb it = Some (Inl e)" | "load_dir_block gb sb it = Some (Inr None)"
    | it1 where "load_dir_block gb sb it = Some (Inr (Some it1))" "iter_ok sb it1" "loaded sb it1" "iter_rank sb it1 \<le> iter_rank sb it" by blast
  then show ?case
  proof cases
    case (3 it1)
    obtain it2 e where s: "dir_entry_step it1 = Some (it2, e)" "iter_ok sb it2" "iter_rank sb it2 < iter_rank sb it1"
      using step_ok[OF assms(1) 3(2,3)] by blast
    show ?thesis
    proof (cases e)
      case None
      have eq: "dir_next gb sb it = dir_next gb sb it2" using 3 s None by (subst dir_next.simps) simp
      obtain it' r where "dir_next gb sb it2 = Some (it', r)"
        "\<forall>e. r = Some (Inr e) \<longrightarrow> iter_ok sb it' \<and> iter_rank sb it' < iter_rank sb it2"
        using less.hyps[OF _ s(2)] s(3) 3(4) by auto
      then show ?thesis using s(3) 3(4) unfolding eq by (intro exI[of _ it'] exI[of _ r]) auto
    next
      case (Some en)
      then have "dir_next gb sb it = Some (it2, Some (Inr en))" using 3 s by (subst dir_next.simps) simp
      then show ?thesis using s 3(4) by simp
    qed
  qed (subst dir_next.simps, simp)+
qed

lemma dir_collect_total: "sane_log sb \<Longrightarrow> gb_total gb \<Longrightarrow> iter_ok sb it \<Longrightarrow> \<exists>r. dir_collect gb sb it = Some r"
proof (induction "iter_rank sb it" arbitrary: it rule: less_induct)
  case less
  obtain it' r where n: "dir_next gb sb it = Some (it', r)" "\<forall>e. r = Some (Inr e) \<longrightarrow> iter_ok sb it' \<and> iter_rank sb it' < iter_rank sb it"
    using dir_next_ok[OF less.prems] by blast
  show ?case
  proof (cases "\<exists>e. r = Some (Inr e)")
    case True
    then obtain e l where "r = Some (Inr e)" "dir_collect gb sb it' = Some l" using n(2) less.hyps[of it'] less.prems by blast
    then show ?thesis using n(1) by (subst dir_collect.simps) (cases l; simp)
  next
    case False
    then show ?thesis using n(1) by (subst dir_collect.simps) (auto split: option.splits sum.splits)
  qed
qed

lemma dir_find_total: "sane_log sb \<Longrightarrow> gb_total gb \<Longrightarrow> iter_ok sb it \<Longrightarrow> \<exists>r. dir_find gb sb name it = Some r"
proof (induction "iter_rank sb it" arbitrary: it rule: less_induct)
  case less
  obtain it' r where n: "dir_next gb sb it = Some (it', r)" "\<forall>e. r = Some (Inr e) \<longrightarrow> iter_ok sb it' \<and> iter_rank sb it' < iter_rank sb it"
    using dir_next_ok[OF less.prems] by blast
  show ?case
  proof (cases "\<exists>e. r = Some (Inr e)")
    case True
    then show ?thesis using n less.hyps[of it'] less.prems by (subst dir_find.simps) auto
  next
    case False
    then show ?thesis using n(1) by (subst dir_find.simps) (auto split: option.splits sum.splits)
  qed
qed

lemma dir_iter_new_ok:
  assumes "sane_log sb" "i_fs_data i = Ext2InodeData k blocks" "i_len i + 65536 \<le> 2 ^ 32"
  shows "\<exists>it. dir_iter_new sb i = Some it \<and> iter_ok sb it"
  using assms block_size_ok[OF assms(1)] by (simp add: dir_iter_new_def iter_ok_def unat_of_nat take_bit_nat_eq_self)

lemma read_inode_returns:
  assumes "sane_table sb n" "gb_total gb"
  shows "\<exists>r. read_inode gb k sb n = Some r"
proof (cases "n \<noteq> 0 \<and> inode_group sb n < length (groups sb)")
  case True
  then obtain sector off where l: "inode_location sb n = Some (Inr (sector, off))" "off + unat (inode_size sb) \<le> bsize sb"
    using inode_location_ok[OF assms(1)] by blast
  have o: "off + 128 \<le> CACHE_BLOCK_SIZE"
    using l(2) assms(1) block_size_ok(3)[of sb] by (auto simp: sane_table_def CACHE_BLOCK_SIZE_def)
  from assms(2) consider e where "gb sector = Some (Inl e)" | buf where "gb sector = Some (Inr buf)" "length buf = CACHE_BLOCK_SIZE"
    unfolding gb_total_def by blast
  then show ?thesis
  proof cases
    case (2 buf)
    then show ?thesis using read_inode_total[of sb n sector off gb buf, OF l(1) 2 o] by blast
  qed (use l(1) in \<open>simp add: read_inode_def\<close>)
next
  case False
  then show ?thesis using assms u32_group[of n sb]
    by (auto simp: read_inode_def inode_location_def sane_table_def u32_div_def u32_mod_def)
qed



section \<open>Directory listings\<close>

text \<open>
  The image of a directory block: the records one after the other, each with padding after its name up to
  its record length, filling the block.
\<close>

record dirent =
  d_ino :: u32
  d_name :: "u8 list"
  d_type :: u8
  d_pad :: "u8 list"

definition rec_size :: "dirent \<Rightarrow> nat" where
  "rec_size d = 8 + length (d_name d) + length (d_pad d)"

definition dirent_bytes :: "dirent \<Rightarrow> u8 list" where
  "dirent_bytes d = to_le 4 (unat (d_ino d)) @ to_le 2 (rec_size d) @ [word_of_nat (length (d_name d)), d_type d] @ d_name d @ d_pad d"

definition dirent_ok :: "dirent \<Rightarrow> bool" where
  "dirent_ok d \<longleftrightarrow> length (d_name d) < 256 \<and> rec_size d < 65536"

definition block_image :: "ext2_sb \<Rightarrow> dirent list \<Rightarrow> u8 list \<Rightarrow> bool" where
  "block_image sb ds buf \<longleftrightarrow> take (bsize sb) buf = concat (map dirent_bytes ds) \<and> sum_list (map rec_size ds) = bsize sb \<and> (\<forall>d \<in> set ds. dirent_ok d)"

fun live_entry :: "dirent \<Rightarrow> raw_dir_entry list" where
  "live_entry d = (if d_ino d = 0 \<or> d_name d = [] then []
     else case from_utf8 (d_name d) of None \<Rightarrow> [] | Some name \<Rightarrow> [\<lparr>rd_ino = d_ino d, rd_name = name, rd_file_type = d_type d\<rparr>])"

lemma dirent_length: "length (dirent_bytes d) = rec_size d"
  by (simp add: dirent_bytes_def rec_size_def)

lemma take_drop_inner: "j + k \<le> n \<Longrightarrow> take k (drop (a + j) xs) = take k (drop j (take n (drop a xs)))"
  by (simp add: drop_take add.commute min_def)

lemma dirent_fields:
  assumes "take (rec_size d) (drop o' buf) = dirent_bytes d" "dirent_ok d"
  shows "le_nat (take 4 (drop o' buf)) = unat (d_ino d)" "le_nat (take 2 (drop (o' + 4) buf)) = rec_size d"
    "buf ! (o' + 6) = word_of_nat (length (d_name d))" "buf ! (o' + 7) = d_type d" "take (length (d_name d)) (drop (o' + 8) buf) = d_name d"
proof -
  have rs: "8 + length (d_name d) \<le> rec_size d" by (simp add: rec_size_def)
  note t = take_drop_inner[of _ _ "rec_size d" o' buf, unfolded assms(1)]
  have "unat (d_ino d) < 2 ^ 32" using unsigned_less[of "d_ino d"] by (rule order.strict_trans2) simp
  then show "le_nat (take 4 (drop o' buf)) = unat (d_ino d)" using t[of 0 4] rs by (simp add: dirent_bytes_def le_nat_to_le)
  show "le_nat (take 2 (drop (o' + 4) buf)) = rec_size d" using t[of 4 2] rs assms(2) by (simp add: dirent_bytes_def le_nat_to_le dirent_ok_def)
  have len: "o' + rec_size d \<le> length buf" using arg_cong[OF assms(1), of length] dirent_length[of d] rs by simp
  have nth: "buf ! (o' + i) = dirent_bytes d ! i" if "i < rec_size d" for i
    using that len arg_cong[OF assms(1), of "\<lambda>xs. xs ! i"] by simp
  show "buf ! (o' + 6) = word_of_nat (length (d_name d))" "buf ! (o' + 7) = d_type d"
    using nth[of 6] nth[of 7] rs by (simp_all add: dirent_bytes_def nth_append)
  show "take (length (d_name d)) (drop (o' + 8) buf) = d_name d" using t[of 8 "length (d_name d)"] rs by (simp add: dirent_bytes_def)
qed

lemma entry_step:
  assumes "sane_log sb" "it_block_size it = bsize sb" "it_buf it = Some buf" "length buf = CACHE_BLOCK_SIZE"
    and "take (rec_size d) (drop (it_block_offset it) buf) = dirent_bytes d" "dirent_ok d" "it_block_offset it + rec_size d \<le> bsize sb"
    and "unat (it_bytes_read it) + rec_size d < 2 ^ 32"
  shows "dir_entry_step it = Some (advance_iter it (rec_size d) (it_bytes_read it + word_of_nat (rec_size d)),
    case live_entry d of [] \<Rightarrow> None | e # _ \<Rightarrow> Some e)"
proof -
  let ?o = "it_block_offset it"
  have len: "length buf = 4096" "bsize sb \<le> 4096" "length buf < usize_bound"
    using assms(4) block_size_ok(3)[OF assms(1)] by (auto simp: CACHE_BLOCK_SIZE_def usize_bound_def)
  have rs: "8 + length (d_name d) \<le> rec_size d" "rec_size d < 65536" "length (d_name d) < 256" using assms(6) by (auto simp: rec_size_def dirent_ok_def)
  note f = dirent_fields[OF assms(5,6)]
  have w: "unat (word_of_nat (rec_size d) :: u16) = rec_size d" "unat (word_of_nat (rec_size d) :: u32) = rec_size d"
      "unat (word_of_nat (length (d_name d)) :: u8) = length (d_name d)"
    using rs by (simp_all add: unat_of_nat take_bit_nat_eq_self)
  have rd: "read_u32_le buf ?o = Some (d_ino d)" "read_u16_le buf (?o + 4) = Some (word_of_nat (rec_size d))"
      "list_get buf (?o + 6) = Some (word_of_nat (length (d_name d)))" "list_get buf (?o + 7) = Some (d_type d)"
      "slice buf (?o + 8) (?o + 8 + length (d_name d)) = Some (d_name d)"
    using f rs assms(7) len by (simp_all add: read_u32_le_ok read_u16_le_ok)
  have add: "u32_add (it_bytes_read it) (word_of_nat (rec_size d)) = Some (it_bytes_read it + word_of_nat (rec_size d))"
    using assms(8) w by (simp add: u32_add_def)
  show ?thesis using rd add rs w assms(2,3,7) advance_size[of it]
    by (auto simp: dir_entry_step_def Let_def split: option.splits)
qed

lemma dir_collect_unroll:
  assumes "load_dir_block gb sb it = Some (Inr (Some it1))" "dir_entry_step it1 = Some (it2, case live_entry d of [] \<Rightarrow> None | e # _ \<Rightarrow> Some e)"
  shows "dir_collect gb sb it = try_bind (dir_collect gb sb it2) (\<lambda>es. Some (Inr (live_entry d @ es)))"
proof (cases "live_entry d")
  case Nil
  then have "dir_next gb sb it = dir_next gb sb it2" using assms by (subst dir_next.simps) simp
  then have "dir_collect gb sb it = dir_collect gb sb it2" by (subst (1 2) dir_collect.simps) simp
  then show ?thesis using Nil by (cases "dir_collect gb sb it2"; cases "the (dir_collect gb sb it2)") auto
next
  case (Cons e es)
  then have "es = []" by (auto split: if_splits option.splits)
  moreover have "dir_next gb sb it = Some (it2, Some (Inr e))" using assms Cons by (subst dir_next.simps) simp
  ultimately show ?thesis using Cons by (subst dir_collect.simps) simp
qed

definition iter_at :: "ext2_sb \<Rightarrow> u32 list \<Rightarrow> nat \<Rightarrow> u8 list option \<Rightarrow> nat \<Rightarrow> nat \<Rightarrow> dir_iter" where
  "iter_at sb blocks n buf j o' = \<lparr>it_blocks = blocks, it_dir_size = word_of_nat n, it_buf = buf, it_block_size = bsize sb,
     it_block_idx = j, it_block_offset = o', it_bytes_read = word_of_nat (if o' = bsize sb then j * bsize sb else j * bsize sb + o')\<rparr>"

lemma word_nat_less: "a < 2 ^ 32 \<Longrightarrow> b < 2 ^ 32 \<Longrightarrow> (word_of_nat a < (word_of_nat b :: u32)) = (a < b)"
  by (simp add: word_less_nat_alt unat_of_nat take_bit_nat_eq_self)

lemma advance_at:
  assumes "o' < bsize sb" "o' + r \<le> bsize sb" "0 < r" "(j + 1) * bsize sb \<le> n" "n + 65536 \<le> 2 ^ 32"
  shows "advance_iter (iter_at sb blocks n buf j o') r (it_bytes_read (iter_at sb blocks n buf j o') + word_of_nat r) =
    (if o' + r < bsize sb then iter_at sb blocks n buf j (o' + r) else iter_at sb blocks n buf (j + 1) (bsize sb))"
proof (cases "o' + r < bsize sb")
  case True
  then have "(word_of_nat (j * bsize sb + o' + r) < (word_of_nat n :: u32))"
    using assms(4,5) by (subst word_nat_less) auto
  then show ?thesis using True by (simp add: advance_iter_def iter_at_def Let_def not_le add.assoc)
next
  case False
  then have "o' + r = bsize sb" using assms(2) by simp
  then have w: "(word_of_nat (r + (o' + j * bsize sb)) :: u32) = word_of_nat (bsize sb + j * bsize sb)"
    by (metis add.assoc add.commute)
  show ?thesis using assms(1) \<open>o' + r = bsize sb\<close> by (simp add: advance_iter_def iter_at_def Let_def next_block_def add.assoc add.commute w flip: of_nat_add)
qed

lemma collect_block:
  assumes "sane_log sb" "length buf = CACHE_BLOCK_SIZE" "(j + 1) * bsize sb \<le> n" "n + 65536 \<le> 2 ^ 32"
  shows "drop o' (take (bsize sb) buf) = concat (map dirent_bytes ds) \<Longrightarrow> sum_list (map rec_size ds) + o' = bsize sb \<Longrightarrow>
    \<forall>d \<in> set ds. dirent_ok d \<Longrightarrow> ds \<noteq> [] \<Longrightarrow>
    dir_collect gb sb (iter_at sb blocks n (Some buf) j o') =
      try_bind (dir_collect gb sb (iter_at sb blocks n (Some buf) (j + 1) (bsize sb))) (\<lambda>es. Some (Inr (concat (map live_entry ds) @ es)))"
proof (induction ds arbitrary: o')
  case (Cons d ds)
  let ?it = "iter_at sb blocks n (Some buf) j o'"
  have rs: "0 < rec_size d" "o' + rec_size d \<le> bsize sb" "o' < bsize sb" using Cons.prems(2) by (auto simp: rec_size_def)
  have "take (rec_size d) (drop o' (take (bsize sb) buf)) = dirent_bytes d" using Cons.prems(1) by (simp add: dirent_length)
  moreover have "rec_size d \<le> bsize sb - o'" using rs(2) by linarith
  ultimately have d: "take (rec_size d) (drop o' buf) = dirent_bytes d" by (simp add: drop_take min_absorb1)
  have "j * bsize sb + o' < 2 ^ 32" "j * bsize sb + o' + rec_size d < 2 ^ 32" using assms(3,4) rs by (simp_all add: algebra_simps)
  then have br: "unat (it_bytes_read ?it) + rec_size d < 2 ^ 32" using rs(3) by (simp add: iter_at_def unat_of_nat take_bit_nat_eq_self del: of_nat_add of_nat_mult)
  have ld: "load_dir_block gb sb ?it = Some (Inr (Some ?it))" using rs(3) by (simp add: load_dir_block_def iter_at_def)
  have st: "dir_entry_step ?it = Some (advance_iter ?it (rec_size d) (it_bytes_read ?it + word_of_nat (rec_size d)), case live_entry d of [] \<Rightarrow> None | e # _ \<Rightarrow> Some e)"
    by (rule entry_step[OF assms(1) _ _ assms(2)]) (use d Cons.prems(3) rs br in \<open>simp_all add: iter_at_def\<close>)
  note u = dir_collect_unroll[OF ld st, unfolded advance_at[OF rs(3,2,1) assms(3,4)]]
  show ?case
  proof (cases "ds = []")
    case True
    then have "\<not> o' + rec_size d < bsize sb" using Cons.prems(2) by simp
    then show ?thesis using u True by simp
  next
    case False
    then obtain e es where "ds = e # es" by (cases ds) auto
    then have "o' + rec_size d < bsize sb" using Cons.prems(2) by (simp add: rec_size_def)
    moreover have "drop (o' + rec_size d) (take (bsize sb) buf) = concat (map dirent_bytes ds)"
      using arg_cong[OF Cons.prems(1), of "drop (rec_size d)"] by (simp add: dirent_length add.commute)
    ultimately show ?thesis using u Cons.IH[of "o' + rec_size d"] Cons.prems(2,3) False
      by (cases "dir_collect gb sb (iter_at sb blocks n (Some buf) (j + 1) (bsize sb))"; cases "the (dir_collect gb sb (iter_at sb blocks n (Some buf) (j + 1) (bsize sb)))") auto
  qed
qed simp

lemma collect_load:
  assumes "load_dir_block gb sb it = Some (Inr (Some it1))" "load_dir_block gb sb it1 = Some (Inr (Some it1))"
  shows "dir_collect gb sb it = dir_collect gb sb it1"
proof -
  have "dir_next gb sb it = dir_next gb sb it1" using assms by (subst (1 2) dir_next.simps) simp
  then show ?thesis by (subst (1 2) dir_collect.simps) simp
qed

definition dir_image :: "get_block \<Rightarrow> ext2_sb \<Rightarrow> u32 list \<Rightarrow> dirent list list \<Rightarrow> bool" where
  "dir_image gb sb blocks dss \<longleftrightarrow> length blocks = 15 \<and> (\<forall>j < length dss. \<exists>buf. file_block gb sb blocks j = Some buf \<and> block_image sb (dss ! j) buf)"

lemma collect_blocks:
  assumes "sane_log sb" "dir_image gb sb blocks dss" "length dss * bsize sb + 65536 \<le> 2 ^ 32" "j \<le> length dss"
  shows "dir_collect gb sb (iter_at sb blocks (length dss * bsize sb) b j (bsize sb)) =
    Some (Inr (concat (map live_entry (concat (drop j dss)))))"
  using assms(4)
proof (induction "length dss - j" arbitrary: j b)
  case 0
  then have "load_dir_block gb sb (iter_at sb blocks (length dss * bsize sb) b j (bsize sb)) = Some (Inr None)"
    by (simp add: load_dir_block_def iter_at_def)
  then have "dir_next gb sb (iter_at sb blocks (length dss * bsize sb) b j (bsize sb)) = Some (iter_at sb blocks (length dss * bsize sb) b j (bsize sb), None)"
    by (subst dir_next.simps) simp
  then show ?case using 0 by (subst dir_collect.simps) simp
next
  case (Suc k)
  let ?n = "length dss * bsize sb"
  have j: "j < length dss" "drop j dss = dss ! j # drop (j + 1) dss" using Suc(2) by (simp_all add: Cons_nth_drop_Suc)
  obtain c where c: "file_block gb sb blocks j = Some c" "block_image sb (dss ! j) c" "length blocks = 15"
    using assms(2) j(1) by (auto simp: dir_image_def)
  from file_blockE[OF assms(1) c(3,1)] obtain ptr s buf where l: "resolve_block_ptr gb sb blocks j = Some (Inr ptr)" "ptr \<noteq> 0"
    "block_to_sector sb ptr = Some s" "gb s = Some (Inr buf)" "length buf = CACHE_BLOCK_SIZE" "c = take (bsize sb) buf" by metis
  have buf: "block_image sb (dss ! j) buf" using c(2) l(6) by (simp add: block_image_def)
  have bs: "0 < bsize sb" using block_size_ok(3)[OF assms(1)] by auto
  have le: "(j + 1) * bsize sb \<le> ?n" using j(1) by (intro mult_le_mono1) simp
  then have lt: "\<not> (word_of_nat ?n :: u32) \<le> word_of_nat (j * bsize sb)"
    using assms(3) bs j(1) by (subst not_le, subst word_nat_less) auto
  have "load_dir_block gb sb (iter_at sb blocks ?n b j (bsize sb)) = Some (Inr (Some (iter_at sb blocks ?n (Some buf) j 0)))"
    using lt l bs by (simp add: load_dir_block_def iter_at_def)
  moreover have "load_dir_block gb sb (iter_at sb blocks ?n (Some buf) j 0) = Some (Inr (Some (iter_at sb blocks ?n (Some buf) j 0)))"
    using bs by (simp add: load_dir_block_def iter_at_def)
  ultimately have "dir_collect gb sb (iter_at sb blocks ?n b j (bsize sb)) = dir_collect gb sb (iter_at sb blocks ?n (Some buf) j 0)"
    by (rule collect_load)
  moreover have "dss ! j \<noteq> []" using buf bs by (auto simp: block_image_def)
  ultimately show ?case using collect_block[OF assms(1) l(5) le assms(3), of 0 "dss ! j" gb blocks] buf Suc.hyps(1)[of "j + 1" "Some buf"] Suc(2) j
    by (simp add: block_image_def)
qed

text \<open>
  C35: Listing a well-formed ext2 directory returns its entries. If the directory's blocks hold records that
  fill them, in the on-disk format and with arbitrary padding, the listing is the entries in disk order, with
  the file type of each, without the deleted ones and those whose name is empty or not UTF-8.
\<close>

theorem ext2_readdir_lists:
  assumes "sane_log sb" "i_file_type (st ! f_inode f) = Directory" "i_fs_data (st ! f_inode f) = Ext2InodeData k blocks"
    and "dir_image gb sb blocks dss" "i_len (st ! f_inode f) = length dss * bsize sb" "length dss * bsize sb + 65536 \<le> 2 ^ 32"
  shows "ext2_readdir gb sb st f = Some (Inr (map (\<lambda>e. \<lparr>de_name = rd_name e, de_file_type = ft_file_type (rd_file_type e)\<rparr>)
    (concat (map live_entry (concat dss)))))"
proof -
  have "dir_iter_new sb (st ! f_inode f) = Some (iter_at sb blocks (length dss * bsize sb) None 0 (bsize sb))"
    using assms(3,5) block_size_ok(1,2)[OF assms(1)] by (simp add: dir_iter_new_def iter_at_def)
  then show ?thesis using assms(2) collect_blocks[OF assms(1,4,6), of 0 None] by (simp add: ext2_readdir_def Let_def)
qed

definition sample_dir :: "dirent list" where
  "sample_dir = [\<lparr>d_ino = 2, d_name = [46], d_type = 2, d_pad = replicate 3 0\<rparr>,
     \<lparr>d_ino = 0, d_name = [120], d_type = 1, d_pad = replicate 3 0\<rparr>,
     \<lparr>d_ino = 12, d_name = [104, 105], d_type = 1, d_pad = replicate 990 0\<rparr>]"

theorem ext2_readdir_lists_witness:
  "ext2_readdir (\<lambda>s. Some (Inr (concat (map dirent_bytes sample_dir) @ replicate 3072 0))) (ext2_blank 0)
      [\<lparr>i_ino = 2, i_file_type = Directory, i_len = 1024, i_iops = EXT2_INODE_OPS, i_fops = EXT2_FILE_OPS, i_sb = Some 0,
        i_rdev = None, i_fs_data = Ext2InodeData 0 (5 # replicate 14 0)\<rparr>] \<lparr>f_fops = EXT2_FILE_OPS, f_offset = 0, f_inode = 0\<rparr> =
    Some (Inr [\<lparr>de_name = ''.'', de_file_type = Directory\<rparr>, \<lparr>de_name = ''hi'', de_file_type = RegularFile\<rparr>])"
proof -
  let ?img = "concat (map dirent_bytes sample_dir) @ replicate 3072 0"
  let ?gb = "\<lambda>s :: u64. Some (Inr ?img) :: (block_error + u8 list) option"
  let ?i = "\<lparr>i_ino = 2, i_file_type = Directory, i_len = 1024, i_iops = EXT2_INODE_OPS, i_fops = EXT2_FILE_OPS, i_sb = Some 0,
        i_rdev = None, i_fs_data = Ext2InodeData 0 (5 # replicate 14 0)\<rparr>"
  let ?f = "\<lparr>f_fops = EXT2_FILE_OPS, f_offset = 0, f_inode = 0\<rparr>"
  have bs: "bsize (ext2_blank 0) = 1024" "sane_log (ext2_blank 0)" by (simp_all add: bsize_def sane_log_def ext2_blank_def)
  have sz: "sum_list (map rec_size sample_dir) = 1024" "\<forall>d \<in> set sample_dir. dirent_ok d"
    by (simp_all add: sample_dir_def rec_size_def dirent_ok_def)
  have len: "length (concat (map dirent_bytes sample_dir)) = 1024" using sz(1) by (simp add: length_concat comp_def dirent_length)
  have "file_block ?gb (ext2_blank 0) (5 # replicate 14 0) 0 = Some (concat (map dirent_bytes sample_dir))"
    using len by (simp add: file_block_def bs(1) block_map_def disk_block_def CACHE_BLOCK_SIZE_def)
  moreover have "block_image (ext2_blank 0) sample_dir (concat (map dirent_bytes sample_dir))" using sz len by (simp add: block_image_def bs(1))
  ultimately have "dir_image ?gb (ext2_blank 0) (5 # replicate 14 0) [sample_dir]" by (simp add: dir_image_def)
  moreover have "concat (map live_entry (concat [sample_dir])) =
      [\<lparr>rd_ino = 2, rd_name = ''.'', rd_file_type = 2\<rparr>, \<lparr>rd_ino = 12, rd_name = ''hi'', rd_file_type = 1\<rparr>]"
    by (simp add: sample_dir_def from_utf8_def to_str_def char_of_def) code_simp
  ultimately show ?thesis using ext2_readdir_lists[OF bs(2), of "[?i]" ?f 0 "5 # replicate 14 0" ?gb "[sample_dir]"] bs(1)
    by (simp add: ft_file_type_def)
qed

end
