(* ===== verification/Vfs.thy ===== *)
theory Vfs
  imports Ramfs Ext2 Uart
begin

text \<open>
  The virtual file system (vfs.rs) with the device registries (dev/char.rs, dev/block.rs), procfs
  (fs/procfs.rs), the registration of the block devices (block/init.rs) and the mounting of file systems.
  Calls through the operation tables are dispatched on the table's identity. The block device and the
  reference counts of inodes are arguments.
\<close>

section \<open>State\<close>

record chardev_entry =
  cd_name :: string
  cd_fops :: file_ops

record blkdev_entry =
  bd_name :: string
  bd_volume :: nat

text \<open>A volume: the whole disk, or a partition behind a cache.\<close>

datatype volume = WholeDiskVolume | PartitionVolume partition

datatype super_block = RamfsSb inode_ref | ProcfsSb inode_ref | Ext2Sb nat

record mount =
  mountpoint_inode :: "inode_ref option"
  mountpoint :: string
  m_sb :: super_block

datatype file_system = RAMFS_FS | PROCFS_FS | EXT2_FS

record vfs =
  inodes :: istore
  ext2_sbs :: "ext2_sb list"
  volumes :: "volume list"
  MOUNTS :: "mount list option"
  FILESYSTEMS :: "file_system list option"
  CHARDEVS :: "((u32 \<times> u32) \<times> chardev_entry) list option"
  BLOCKDEVS :: "((u32 \<times> u32) \<times> blkdev_entry) list"
  uart_messages :: "(usize \<times> usize \<times> writer_message) list"

definition volume_gb :: "device \<Rightarrow> volume \<Rightarrow> get_block" where
  "volume_gb dev vol lba =
     map_option (map_sum id bb_data)
       (volume_get_block (case vol of
          WholeDiskVolume \<Rightarrow> (\<lambda>l n. Some (whole_disk_read_blocks dev l n))
        | PartitionVolume p \<Rightarrow> partition_read_blocks dev p) 0 lba)"

definition sb_gb :: "device \<Rightarrow> vfs \<Rightarrow> ext2_sb \<Rightarrow> get_block" where
  "sb_gb dev v sb = volume_gb dev (volumes v ! sb_volume sb)"

section \<open>Device registries\<close>

definition chrdev_register :: "vfs \<Rightarrow> u32 \<Rightarrow> u32 \<Rightarrow> string \<Rightarrow> file_ops \<Rightarrow> vfs" where
  "chrdev_register v major minor name fops =
     (let devs = (case CHARDEVS v of None \<Rightarrow> [] | Some d \<Rightarrow> d) in
      v\<lparr>CHARDEVS := Some (btree_insert (major, minor) \<lparr>cd_name = name, cd_fops = fops\<rparr> devs)\<rparr>)"

definition chrdev_for_each :: "vfs \<Rightarrow> (u32 \<times> u32 \<times> string) list" where
  "chrdev_for_each v = (case CHARDEVS v of None \<Rightarrow> [] | Some devs \<Rightarrow> map (\<lambda>((major, minor), e). (major, minor, cd_name e)) devs)"

definition chrdev_open :: "vfs \<Rightarrow> inode_ref \<Rightarrow> error + open_file" where
  "chrdev_open v i =
     (case i_rdev (inodes v ! i) of
        None \<Rightarrow> Inl error.InvalidInput
      | Some devno \<Rightarrow>
          (case Option.bind (CHARDEVS v) (\<lambda>devs. map_of devs devno) of
             None \<Rightarrow> Inl NotFound
           | Some e \<Rightarrow> Inr (file_new (cd_fops e) i)))"

definition uart_register_chrdev :: "vfs \<Rightarrow> vfs" where
  "uart_register_chrdev v = chrdev_register v 5 1 ''/dev/console'' UART_FILE_OPS"

definition blkdev_register :: "vfs \<Rightarrow> u32 \<Rightarrow> u32 \<Rightarrow> string \<Rightarrow> nat \<Rightarrow> vfs" where
  "blkdev_register v major minor name vol =
     v\<lparr>BLOCKDEVS := btree_insert (major, minor) \<lparr>bd_name = name, bd_volume = vol\<rparr> (BLOCKDEVS v)\<rparr>"

definition blkdev_for_each :: "vfs \<Rightarrow> (u32 \<times> u32 \<times> string) list" where
  "blkdev_for_each v = map (\<lambda>((major, minor), e). (major, minor, bd_name e)) (BLOCKDEVS v)"

definition blkdev_get :: "vfs \<Rightarrow> u32 \<Rightarrow> u32 \<Rightarrow> block_error + nat" where
  "blkdev_get v major minor =
     (case map_of (BLOCKDEVS v) (major, minor) of None \<Rightarrow> Inl block_error.InvalidInput | Some e \<Rightarrow> Inr (bd_volume e))"

section \<open>Numbers as text\<close>

fun show_nat :: "nat \<Rightarrow> string" where
  "show_nat n = (if n < 10 then [char_of (48 + n)] else show_nat (n div 10) @ [char_of (48 + n mod 10)])"

declare show_nat.simps [simp del]

definition pad3 :: "string \<Rightarrow> string" where
  "pad3 s = replicate (3 - length s) (CHR '' '') @ s"

section \<open>Registration of the block devices\<close>

definition SCSI_DISK_MAJOR :: u32 where "SCSI_DISK_MAJOR = 8"

text \<open>The letter is computed in \<open>u8\<close>, with an overflow check.\<close>

definition disk_base_name :: "u32 \<Rightarrow> string option" where
  "disk_base_name major =
     (let k = unat major - unat SCSI_DISK_MAJOR in
      if 97 + k mod 256 < 256 then Some (''sd'' @ [char_of (97 + k mod 256)]) else None)"

definition read_partition_table :: "device \<Rightarrow> (partition list option) option" where
  "read_partition_table dev =
     (case whole_disk_read_blocks dev 0 512 of
        Inl e \<Rightarrow> Some None
      | Inr sector0 \<Rightarrow> map_option Some (parse_mbr sector0))"

definition register_partition :: "partition \<Rightarrow> vfs \<Rightarrow> vfs option" where
  "register_partition part v = do {
     base_name \<leftarrow> disk_base_name SCSI_DISK_MAJOR;
     Some (blkdev_register (v\<lparr>volumes := volumes v @ [PartitionVolume part]\<rparr>) SCSI_DISK_MAJOR (word_of_nat (part_number part))
       (base_name @ show_nat (part_number part)) (length (volumes v)))
   }"

definition register_partitions :: "vfs \<Rightarrow> partition list \<Rightarrow> (vfs \<times> usize) option" where
  "register_partitions v parts = do { v \<leftarrow> ofold register_partition parts v; Some (v, length parts) }"

text \<open>The initialisation thread after the driver is up. It exits early if sector 0 cannot be read.\<close>

definition block_init_thread :: "device \<Rightarrow> vfs \<Rightarrow> vfs option" where
  "block_init_thread dev v = do {
     table \<leftarrow> read_partition_table dev;
     (case table of
        None \<Rightarrow> Some v
      | Some parts \<Rightarrow> do {
          (v, count) \<leftarrow> register_partitions v parts;
          base_name \<leftarrow> disk_base_name SCSI_DISK_MAJOR;
          Some (blkdev_register (v\<lparr>volumes := volumes v @ [WholeDiskVolume]\<rparr>) SCSI_DISK_MAJOR 0 base_name (length (volumes v)))
        })
   }"

section \<open>Mount table and file system registry\<close>

definition sb_root_inode :: "vfs \<Rightarrow> super_block \<Rightarrow> inode_ref option" where
  "sb_root_inode v sb = (case sb of RamfsSb r \<Rightarrow> Some r | ProcfsSb r \<Rightarrow> Some r | Ext2Sb k \<Rightarrow> sb_root (ext2_sbs v ! k))"

definition sb_fs_type :: "super_block \<Rightarrow> string" where
  "sb_fs_type sb = (case sb of RamfsSb _ \<Rightarrow> ''ramfs'' | ProcfsSb _ \<Rightarrow> ''proc'' | Ext2Sb _ \<Rightarrow> ''ext2'')"

definition vfs_init :: "vfs \<Rightarrow> super_block \<Rightarrow> vfs" where
  "vfs_init v sb = v\<lparr>MOUNTS := Some [\<lparr>mountpoint_inode = None, mountpoint = ''/'', m_sb = sb\<rparr>]\<rparr>"

record mount_info =
  mi_id :: usize
  mi_fs_type :: string
  mi_mountpoint :: string

definition mounts :: "vfs \<Rightarrow> mount_info list" where
  "mounts v = (case MOUNTS v of None \<Rightarrow> []
     | Some ms \<Rightarrow> map (\<lambda>(i, m). \<lparr>mi_id = i, mi_fs_type = sb_fs_type (m_sb m), mi_mountpoint = mountpoint m\<rparr>) (enumerate 0 ms))"

definition fs_name :: "file_system \<Rightarrow> string" where
  "fs_name fs = (case fs of RAMFS_FS \<Rightarrow> ''ramfs'' | PROCFS_FS \<Rightarrow> ''proc'' | EXT2_FS \<Rightarrow> ''ext2'')"

definition fs_nodev :: "file_system \<Rightarrow> bool" where
  "fs_nodev fs = (case fs of RAMFS_FS \<Rightarrow> True | PROCFS_FS \<Rightarrow> True | EXT2_FS \<Rightarrow> False)"

definition register_filesystem :: "vfs \<Rightarrow> file_system \<Rightarrow> vfs" where
  "register_filesystem v fs = v\<lparr>FILESYSTEMS := Some ((case FILESYSTEMS v of None \<Rightarrow> [] | Some l \<Rightarrow> l) @ [fs])\<rparr>"

definition find_filesystem :: "vfs \<Rightarrow> string \<Rightarrow> file_system option" where
  "find_filesystem v name = Option.bind (FILESYSTEMS v) (find (\<lambda>fs. fs_name fs = name))"

definition filesystems :: "vfs \<Rightarrow> file_system list" where
  "filesystems v = (case FILESYSTEMS v of None \<Rightarrow> [] | Some l \<Rightarrow> l)"

section \<open>procfs\<close>

datatype proc_content = Static "u8 list" | Gen_Devices | Gen_Filesystems | Gen_Mounts

definition ENTRIES :: "(string \<times> proc_content) list" where
  "ENTRIES = [(''devices'', Gen_Devices), (''filesystems'', Gen_Filesystems), (''mounts'', Gen_Mounts),
     (''version'', Static (as_bytes (''Nano OS 0.1.0 (riscv64)'' @ [CHR 0x0A])))]"

definition device_line :: "u32 \<times> u32 \<times> string \<Rightarrow> string" where
  "device_line d = (let (major, minor, name) = d in
     pad3 (show_nat (unat major)) @ '' '' @ name @ '' ('' @ show_nat (unat major) @ '':'' @ show_nat (unat minor) @ '')'' @ [CHR 0x0A])"

definition gen_devices :: "vfs \<Rightarrow> string" where
  "gen_devices v = ''Character devices:'' @ [CHR 0x0A] @ concat (map device_line (chrdev_for_each v)) @ [CHR 0x0A] @
     ''Block devices:'' @ [CHR 0x0A] @ concat (map device_line (blkdev_for_each v))"

definition gen_filesystems :: "vfs \<Rightarrow> string" where
  "gen_filesystems v = concat (map (\<lambda>fs. (if fs_nodev fs then ''nodev'' @ [CHR 0x09] else [CHR 0x09]) @ fs_name fs @ [CHR 0x0A]) (filesystems v))"

definition gen_mounts :: "vfs \<Rightarrow> string" where
  "gen_mounts v = concat (map (\<lambda>m. mi_fs_type m @ '' '' @ mi_mountpoint m @ '' '' @ show_nat (mi_id m) @ [CHR 0x0A]) (mounts v))"

definition proc_bytes :: "vfs \<Rightarrow> proc_content \<Rightarrow> u8 list" where
  "proc_bytes v c = (case c of Static b \<Rightarrow> b | Gen_Devices \<Rightarrow> as_bytes (gen_devices v)
     | Gen_Filesystems \<Rightarrow> as_bytes (gen_filesystems v) | Gen_Mounts \<Rightarrow> as_bytes (gen_mounts v))"

definition procfs_lookup :: "istore \<Rightarrow> inode_ref \<Rightarrow> string \<Rightarrow> (istore \<times> (error + inode_ref)) option" where
  "procfs_lookup st i name =
     (case i_fs_data (st ! i) of
        ProcfsDir \<Rightarrow>
          (case position (\<lambda>e. fst e = name) ENTRIES of
             None \<Rightarrow> Some (st, Inl NotFound)
           | Some idx \<Rightarrow>
               let (st, c) = arc_new st \<lparr>i_ino = word_of_nat idx + 2, i_file_type = RegularFile, i_len = 0, i_iops = PROCFS_INODE_OPS,
                     i_fops = PROCFS_FILE_OPS, i_sb = None, i_rdev = None, i_fs_data = ProcfsFile idx\<rparr> in
               Some (st, Inr c))
      | ProcfsFile _ \<Rightarrow> Some (st, Inl NotADirectory)
      | _ \<Rightarrow> None)"

definition procfs_readdir :: "istore \<Rightarrow> open_file \<Rightarrow> (error + dir_entry list) option" where
  "procfs_readdir st f =
     (case i_fs_data (st ! f_inode f) of
        ProcfsDir \<Rightarrow> Some (Inr (map (\<lambda>(name, _). \<lparr>de_name = name, de_file_type = RegularFile\<rparr>) ENTRIES))
      | ProcfsFile _ \<Rightarrow> Some (Inl NotADirectory)
      | _ \<Rightarrow> None)"

definition procfs_open :: "vfs \<Rightarrow> inode_ref \<Rightarrow> vfs \<times> (error + open_file)" where
  "procfs_open v i =
     (case i_fs_data (inodes v ! i) of
        ProcfsFile idx \<Rightarrow>
          let data = proc_bytes v (snd (ENTRIES ! idx));
              (st, c) = arc_new (inodes v) \<lparr>i_ino = i_ino (inodes v ! i), i_file_type = RegularFile, i_len = length data,
                 i_iops = PROCFS_INODE_OPS, i_fops = PROCFS_FILE_OPS, i_sb = None, i_rdev = None, i_fs_data = ProcfsFileData data\<rparr> in
          (v\<lparr>inodes := st\<rparr>, Inr (file_new PROCFS_FILE_OPS c))
      | _ \<Rightarrow> (v, Inl error.InvalidInput))"

definition procfs_read :: "istore \<Rightarrow> open_file \<Rightarrow> usize \<Rightarrow> (open_file \<times> (error + u8 list)) option" where
  "procfs_read st f buf_len =
     (case i_fs_data (st ! f_inode f) of
        ProcfsFileData data \<Rightarrow> do {
          remaining \<leftarrow> slice data (f_offset f) (length data);
          let len = min (length remaining) buf_len;
          off \<leftarrow> uadd (f_offset f) len;
          Some (f\<lparr>f_offset := off\<rparr>, Inr (take len remaining))
        }
      | _ \<Rightarrow> Some (f, Inl error.InvalidInput))"

definition procfs_mount :: "istore \<Rightarrow> istore \<times> super_block" where
  "procfs_mount st =
     (let (st, root) = arc_new st \<lparr>i_ino = 1, i_file_type = Directory, i_len = 0, i_iops = PROCFS_INODE_OPS, i_fops = PROCFS_DIR_OPS,
            i_sb = None, i_rdev = None, i_fs_data = ProcfsDir\<rparr> in
      (st, ProcfsSb root))"

section \<open>Path lookup\<close>

definition root_inode :: "vfs \<Rightarrow> (error + inode_ref) option" where
  "root_inode v =
     (case MOUNTS v of
        None \<Rightarrow> Some (Inl error.InvalidInput)
      | Some ms \<Rightarrow> do { m \<leftarrow> list_get ms 0; r \<leftarrow> sb_root_inode v (m_sb m); Some (Inr r) })"

fun find_mount :: "inode_ref \<Rightarrow> mount list \<Rightarrow> mount option" where
  "find_mount i [] = None"
| "find_mount i (m # ms) =
     (case mountpoint_inode m of
        Some mp \<Rightarrow> if inode_id mp = inode_id i then Some m else find_mount i ms
      | None \<Rightarrow> find_mount i ms)"

definition cross_mount :: "vfs \<Rightarrow> inode_ref \<Rightarrow> inode_ref option" where
  "cross_mount v i =
     (case MOUNTS v of
        None \<Rightarrow> Some i
      | Some ms \<Rightarrow> (case find_mount i ms of None \<Rightarrow> Some i | Some m \<Rightarrow> sb_root_inode v (m_sb m)))"

text \<open>\<open>inode.iops.lookup\<close>, by operation table.\<close>

definition iops_lookup :: "device \<Rightarrow> (inode_ref \<Rightarrow> nat) \<Rightarrow> vfs \<Rightarrow> inode_ref \<Rightarrow> string \<Rightarrow> (vfs \<times> (error + inode_ref)) option" where
  "iops_lookup dev strong_count v i name =
     (case i_iops (inodes v ! i) of
        RAMFS_INODE_OPS \<Rightarrow> do { r \<leftarrow> ramfs_lookup (inodes v) i name; Some (v, r) }
      | PROCFS_INODE_OPS \<Rightarrow> do { (st, r) \<leftarrow> procfs_lookup (inodes v) i name; Some (v\<lparr>inodes := st\<rparr>, r) }
      | EXT2_INODE_OPS \<Rightarrow>
          (case i_fs_data (inodes v ! i) of
             Ext2InodeData k _ \<Rightarrow> do {
               let sb = ext2_sbs v ! k;
               (sb, st, r) \<leftarrow> ext2_lookup (sb_gb dev v sb) strong_count k sb (inodes v) i name;
               Some (v\<lparr>inodes := st, ext2_sbs := (ext2_sbs v)[k := sb]\<rparr>, r)
             }
           | _ \<Rightarrow> if i_file_type (inodes v ! i) \<noteq> Directory then Some (v, Inl NotADirectory) else None))"

fun lookup_loop :: "device \<Rightarrow> (inode_ref \<Rightarrow> nat) \<Rightarrow> vfs \<Rightarrow> inode_ref \<Rightarrow> string list \<Rightarrow> (vfs \<times> (error + inode_ref)) option" where
  "lookup_loop dev sc v i [] = Some (v, Inr i)"
| "lookup_loop dev sc v i (name # names) = do {
     (v, r) \<leftarrow> iops_lookup dev sc v i name;
     (case r of
        Inl e \<Rightarrow> Some (v, Inl e)
      | Inr c \<Rightarrow> do { c \<leftarrow> cross_mount v c; lookup_loop dev sc v c names })
   }"

definition vfs_lookup :: "device \<Rightarrow> (inode_ref \<Rightarrow> nat) \<Rightarrow> vfs \<Rightarrow> string \<Rightarrow> (vfs \<times> (error + inode_ref)) option" where
  "vfs_lookup dev sc v path = do {
     r \<leftarrow> root_inode v;
     (case r of Inl e \<Rightarrow> Some (v, Inl e) | Inr i \<Rightarrow> lookup_loop dev sc v i (path_parts path))
   }"

section \<open>Mounting\<close>

definition ext2_mount :: "device \<Rightarrow> (inode_ref \<Rightarrow> nat) \<Rightarrow> vfs \<Rightarrow> string option \<Rightarrow> (vfs \<times> (error + super_block)) option" where
  "ext2_mount dev sc v source =
     (case source of
        None \<Rightarrow> Some (v, Inl error.InvalidInput)
      | Some src \<Rightarrow> do {
          (v, r) \<leftarrow> vfs_lookup dev sc v src;
          (case r of
             Inl e \<Rightarrow> Some (v, Inl e)
           | Inr i \<Rightarrow>
               (case i_rdev (inodes v ! i) of
                  None \<Rightarrow> Some (v, Inl error.InvalidInput)
                | Some (major, minor) \<Rightarrow>
                    (case blkdev_get v major minor of
                       Inl _ \<Rightarrow> Some (v, Inl NotFound)
                     | Inr vol \<Rightarrow> do {
                         (st, r) \<leftarrow> ext2_new (volume_gb dev (volumes v ! vol)) sc (length (ext2_sbs v)) vol (inodes v);
                         (case r of
                            Inl _ \<Rightarrow> Some (v\<lparr>inodes := st\<rparr>, Inl error.InvalidInput)
                          | Inr sb \<Rightarrow> Some (v\<lparr>inodes := st, ext2_sbs := ext2_sbs v @ [sb]\<rparr>, Inr (Ext2Sb (length (ext2_sbs v)))))
                       })))
        })"

definition fs_mount :: "device \<Rightarrow> (inode_ref \<Rightarrow> nat) \<Rightarrow> vfs \<Rightarrow> file_system \<Rightarrow> string option \<Rightarrow> (vfs \<times> (error + super_block)) option" where
  "fs_mount dev sc v fs source =
     (case fs of
        RAMFS_FS \<Rightarrow> (let (st, r) = ramfs_new (inodes v) in Some (v\<lparr>inodes := st\<rparr>, Inr (RamfsSb (r_root r))))
      | PROCFS_FS \<Rightarrow> (let (st, sb) = procfs_mount (inodes v) in Some (v\<lparr>inodes := st\<rparr>, Inr sb))
      | EXT2_FS \<Rightarrow> ext2_mount dev sc v source)"

definition vfs_mount_at :: "device \<Rightarrow> (inode_ref \<Rightarrow> nat) \<Rightarrow> vfs \<Rightarrow> string option \<Rightarrow> string \<Rightarrow> string \<Rightarrow> (vfs \<times> (error + unit)) option" where
  "vfs_mount_at dev sc v source path name = do {
     (v, r) \<leftarrow> vfs_lookup dev sc v path;
     (case r of
        Inl e \<Rightarrow> Some (v, Inl e)
      | Inr mp \<Rightarrow>
          (case find_filesystem v name of
             None \<Rightarrow> Some (v, Inl NotFound)
           | Some fs \<Rightarrow> do {
               (v, r) \<leftarrow> fs_mount dev sc v fs source;
               (case r of
                  Inl e \<Rightarrow> Some (v, Inl e)
                | Inr sb \<Rightarrow> do {
                    ms \<leftarrow> MOUNTS v;
                    Some (v\<lparr>MOUNTS := Some (ms @ [\<lparr>mountpoint_inode = Some mp, mountpoint = path, m_sb = sb\<rparr>])\<rparr>, Inr ())
                  })
             }))
   }"

section \<open>File operations\<close>

definition fops_open :: "vfs \<Rightarrow> inode_ref \<Rightarrow> vfs \<times> (error + open_file)" where
  "fops_open v i = (case i_fops (inodes v ! i) of PROCFS_FILE_OPS \<Rightarrow> procfs_open v i | _ \<Rightarrow> (v, default_open (inodes v) i))"

definition vfs_open :: "device \<Rightarrow> (inode_ref \<Rightarrow> nat) \<Rightarrow> vfs \<Rightarrow> string \<Rightarrow> (vfs \<times> (error + open_file)) option" where
  "vfs_open dev sc v path = do {
     (v, r) \<leftarrow> vfs_lookup dev sc v path;
     (case r of
        Inl e \<Rightarrow> Some (v, Inl e)
      | Inr i \<Rightarrow> if i_file_type (inodes v ! i) = CharDevice then Some (v, chrdev_open v i) else Some (fops_open v i))
   }"

definition fops_readdir :: "device \<Rightarrow> vfs \<Rightarrow> open_file \<Rightarrow> (error + dir_entry list) option" where
  "fops_readdir dev v f =
     (case f_fops f of
        RAMFS_FILE_OPS \<Rightarrow> Some (ramfs_readdir (inodes v) f)
      | PROCFS_DIR_OPS \<Rightarrow> procfs_readdir (inodes v) f
      | EXT2_FILE_OPS \<Rightarrow>
          (case i_fs_data (inodes v ! f_inode f) of
             Ext2InodeData k _ \<Rightarrow> ext2_readdir (sb_gb dev v (ext2_sbs v ! k)) (ext2_sbs v ! k) (inodes v) f
           | _ \<Rightarrow> if i_file_type (inodes v ! f_inode f) \<noteq> Directory then Some (Inl NotADirectory) else None)
      | _ \<Rightarrow> Some (default_readdir f))"

definition vfs_readdir :: "device \<Rightarrow> (inode_ref \<Rightarrow> nat) \<Rightarrow> vfs \<Rightarrow> string \<Rightarrow> (vfs \<times> (error + dir_entry list)) option" where
  "vfs_readdir dev sc v path = do {
     (v, r) \<leftarrow> vfs_open dev sc v path;
     (case r of
        Inl e \<Rightarrow> Some (v, Inl e)
      | Inr f \<Rightarrow> do { l \<leftarrow> fops_readdir dev v f; Some (v, l) })
   }"

definition vfs_read :: "device \<Rightarrow> vfs \<Rightarrow> open_file \<Rightarrow> usize \<Rightarrow> (open_file \<times> (error + u8 list)) option" where
  "vfs_read dev v f n =
     (case f_fops f of
        RAMFS_FILE_OPS \<Rightarrow> ramfs_read (inodes v) f n
      | PROCFS_FILE_OPS \<Rightarrow> procfs_read (inodes v) f n
      | EXT2_FILE_OPS \<Rightarrow>
          (case i_fs_data (inodes v ! f_inode f) of
             Ext2InodeData k _ \<Rightarrow> ext2_read (sb_gb dev v (ext2_sbs v ! k)) (ext2_sbs v ! k) (inodes v) f n
           | _ \<Rightarrow> ext2_read (\<lambda>_. None) (ext2_blank 0) (inodes v) f n)
      | _ \<Rightarrow> Some (default_read f n))"

definition vfs_seek :: "vfs \<Rightarrow> open_file \<Rightarrow> seek_from \<Rightarrow> open_file option" where
  "vfs_seek v f pos = seek (inodes v) f pos"

text \<open>The loops over \<open>vfs_read\<close>, for any read function. \<open>acc\<close> is the part of the buffer that is filled.\<close>

partial_function (option) read_exact_loop ::
  "(open_file \<Rightarrow> usize \<Rightarrow> (open_file \<times> (error + u8 list)) option) \<Rightarrow> open_file \<Rightarrow> usize \<Rightarrow> u8 list \<Rightarrow> (open_file \<times> (error + u8 list)) option" where
  "read_exact_loop rd f remaining acc =
     (if remaining = 0 then Some (f, Inr acc)
      else do {
        (f, r) \<leftarrow> rd f remaining;
        (case r of
           Inl e \<Rightarrow> Some (f, Inl e)
         | Inr bytes \<Rightarrow>
             if bytes = [] then Some (f, Inl UnexpectedEof)
             else do { rest \<leftarrow> usub remaining (length bytes); read_exact_loop rd f rest (acc @ bytes) })
      })"

definition vfs_read_exact :: "device \<Rightarrow> vfs \<Rightarrow> open_file \<Rightarrow> usize \<Rightarrow> (open_file \<times> (error + u8 list)) option" where
  "vfs_read_exact dev v f n = read_exact_loop (vfs_read dev v) f n []"

partial_function (option) read_to_string_loop ::
  "(open_file \<Rightarrow> usize \<Rightarrow> (open_file \<times> (error + u8 list)) option) \<Rightarrow> open_file \<Rightarrow> string \<Rightarrow> (open_file \<times> (error + string)) option" where
  "read_to_string_loop rd f out = do {
     (f, r) \<leftarrow> rd f 256;
     (case r of
        Inl e \<Rightarrow> Some (f, Inl e)
      | Inr bytes \<Rightarrow>
          if bytes = [] then Some (f, Inr out)
          else (case from_utf8 bytes of
                  None \<Rightarrow> Some (f, Inl InvalidUtf8)
                | Some s \<Rightarrow> read_to_string_loop rd f (out @ s)))
   }"

definition vfs_read_to_string :: "device \<Rightarrow> vfs \<Rightarrow> open_file \<Rightarrow> string \<Rightarrow> (open_file \<times> (error + string)) option" where
  "vfs_read_to_string dev v f out = read_to_string_loop (vfs_read dev v) f out"

definition vfs_write :: "usize \<Rightarrow> usize \<Rightarrow> vfs \<Rightarrow> open_file \<Rightarrow> u8 list \<Rightarrow> vfs \<times> (error + usize)" where
  "vfs_write writer_tid current v f data =
     (case f_fops f of
        UART_FILE_OPS \<Rightarrow> (let (msg, n) = uart_file_write writer_tid current data in (v\<lparr>uart_messages := uart_messages v @ [msg]\<rparr>, Inr n))
      | RAMFS_FILE_OPS \<Rightarrow> (v, ramfs_write f data)
      | _ \<Rightarrow> (v, default_write f data))"

section \<open>What a read promises\<close>

text \<open>
  The contract between a file system's \<open>read\<close> and the loops over it: on an open file of the given
  contents a read returns bytes from the offset on, at least one unless the buffer is empty or the end
  is reached, and moves the offset behind them.
\<close>

locale file_reader =
  fixes rd :: "open_file \<Rightarrow> usize \<Rightarrow> (open_file \<times> (error + u8 list)) option"
    and opened :: "open_file \<Rightarrow> bool"
    and content :: "u8 list"
  assumes opened_seek: "opened f \<Longrightarrow> opened (f\<lparr>f_offset := k\<rparr>)"
    and read_law: "opened f \<Longrightarrow> f_offset f \<le> length content \<Longrightarrow>
      \<exists>m. rd f n = Some (f\<lparr>f_offset := f_offset f + m\<rparr>, Inr (take m (drop (f_offset f) content))) \<and>
        m \<le> n \<and> m \<le> length content - f_offset f \<and> (0 < n \<and> f_offset f < length content \<longrightarrow> 0 < m)"
begin

lemma read_exact_ok:
  "opened f \<Longrightarrow> f_offset f \<le> length content \<Longrightarrow>
   read_exact_loop rd f n acc =
     (if f_offset f + n \<le> length content
      then Some (f\<lparr>f_offset := f_offset f + n\<rparr>, Inr (acc @ take n (drop (f_offset f) content)))
      else Some (f\<lparr>f_offset := length content\<rparr>, Inl UnexpectedEof))"
proof (induction n arbitrary: f acc rule: less_induct)
  case (less n)
  show ?case
  proof (cases "n = 0")
    case True
    then show ?thesis using less.prems by (subst read_exact_loop.simps) simp
  next
    case False
    obtain m where m: "rd f n = Some (f\<lparr>f_offset := f_offset f + m\<rparr>, Inr (take m (drop (f_offset f) content)))"
        "m \<le> n" "m \<le> length content - f_offset f" "0 < n \<and> f_offset f < length content \<longrightarrow> 0 < m"
      using read_law[OF less.prems, of n] by blast
    show ?thesis
    proof (cases "f_offset f < length content")
      case True
      then have pos: "0 < m" using m(4) False by simp
      let ?f = "f\<lparr>f_offset := f_offset f + m\<rparr>" and ?b = "take m (drop (f_offset f) content)"
      have len: "length ?b = m" using m(3) by simp
      then have "?b \<noteq> []" using pos by auto
      then have "read_exact_loop rd f n acc = read_exact_loop rd ?f (n - m) (acc @ ?b)"
        using False m(1,2) len by (subst read_exact_loop.simps) simp
      moreover have "take n (drop (f_offset f) content) = ?b @ take (n - m) (drop (f_offset f + m) content)"
        using take_add[of m "n - m" "drop (f_offset f) content"] m(2) by (simp add: add.commute)
      ultimately show ?thesis using less.IH[of "n - m" ?f "acc @ ?b"] opened_seek[OF less.prems(1)] False pos m(2,3) True
        by auto
    next
      case at_end: False
      then have "f_offset f = length content" "m = 0" using less.prems m(3) by auto
      then show ?thesis using False m(1) by (subst read_exact_loop.simps) simp
    qed
  qed
qed

end

text \<open>Reading a prefix of a byte string from an offset, as ramfs and procfs do.\<close>

lemma slice_read:
  assumes "off \<le> length data" "length data < usize_bound"
  shows "slice data off (length data) = Some (drop off data)" "uadd off (min (length (drop off data)) n) = Some (off + min (length data - off) n)"
    "take (min (length (drop off data)) n) (drop off data) = take (min (length data - off) n) (drop off data)"
  using assms by (simp_all add: uadd_def)

text \<open>What an open file contains, for the three file systems.\<close>

definition file_data :: "device \<Rightarrow> vfs \<Rightarrow> open_file \<Rightarrow> u8 list option" where
  "file_data dev v f =
     (let i = inodes v ! f_inode f in
      case (f_fops f, i_fs_data i) of
        (RAMFS_FILE_OPS, RamfsFile data) \<Rightarrow> Some data
      | (PROCFS_FILE_OPS, ProcfsFileData data) \<Rightarrow> Some data
      | (EXT2_FILE_OPS, Ext2InodeData k blocks) \<Rightarrow>
          (let sb = ext2_sbs v ! k; gb = sb_gb dev v sb in
           if i_file_type i = RegularFile \<and> sane_log sb \<and> allocated gb sb blocks (i_len i) then Some (file_contents gb sb blocks (i_len i)) else None)
      | _ \<Rightarrow> None)"

text \<open>A file whose contents are known and fit the address space.\<close>

definition opened_with :: "device \<Rightarrow> vfs \<Rightarrow> u8 list \<Rightarrow> open_file \<Rightarrow> bool" where
  "opened_with dev v c f \<longleftrightarrow> file_data dev v f = Some c \<and> length c < usize_bound"

lemma vfs_read_law:
  assumes "opened_with dev v c f" "f_offset f \<le> length c"
  shows "\<exists>m. vfs_read dev v f n = Some (f\<lparr>f_offset := f_offset f + m\<rparr>, Inr (take m (drop (f_offset f) c))) \<and>
     m \<le> n \<and> m \<le> length c - f_offset f \<and> (0 < n \<and> f_offset f < length c \<longrightarrow> 0 < m)"
proof -
  have d: "file_data dev v f = Some c" "length c < usize_bound" using assms(1) by (simp_all add: opened_with_def)
  have m: "min (length c - f_offset f) n \<le> n \<and> min (length c - f_offset f) n \<le> length c - f_offset f \<and>
    (0 < n \<and> f_offset f < length c \<longrightarrow> 0 < min (length c - f_offset f) n)" by auto
  from d(1) consider (ramfs) "f_fops f = RAMFS_FILE_OPS" "i_fs_data (inodes v ! f_inode f) = RamfsFile c"
    | (procfs) "f_fops f = PROCFS_FILE_OPS" "i_fs_data (inodes v ! f_inode f) = ProcfsFileData c"
    | (ext2) k blocks where "f_fops f = EXT2_FILE_OPS" "i_fs_data (inodes v ! f_inode f) = Ext2InodeData k blocks"
        "i_file_type (inodes v ! f_inode f) = RegularFile" "sane_log (ext2_sbs v ! k)"
        "allocated (sb_gb dev v (ext2_sbs v ! k)) (ext2_sbs v ! k) blocks (i_len (inodes v ! f_inode f))"
        "c = file_contents (sb_gb dev v (ext2_sbs v ! k)) (ext2_sbs v ! k) blocks (i_len (inodes v ! f_inode f))"
    unfolding file_data_def by (auto simp: Let_def split: file_ops.splits fs_data.splits if_splits)
  then show ?thesis
  proof cases
    case ext2
    have "vfs_read dev v f n = Some (f\<lparr>f_offset := f_offset f + min n (length c - f_offset f)\<rparr>, Inr (take n (drop (f_offset f) c)))"
      using ext2 assms(2) ext2_read_ok[OF ext2(4,3,2,5), of n] by (simp add: vfs_read_def)
    moreover have "take n (drop (f_offset f) c) = take (min n (length c - f_offset f)) (drop (f_offset f) c)" by (simp add: min_def)
    ultimately show ?thesis using m by (intro exI[of _ "min n (length c - f_offset f)"]) (simp add: min.commute)
  qed (use m slice_read[OF assms(2) d(2)] in
      \<open>intro exI[of _ "min (length c - f_offset f) n"], simp add: vfs_read_def ramfs_read_def procfs_read_def Let_def\<close>)+
qed

interpretation fr: file_reader "vfs_read dev v" "opened_with dev v c" c for dev v c
proof
  fix f k assume "opened_with dev v c f"
  then show "opened_with dev v c (f\<lparr>f_offset := k\<rparr>)" by (simp add: opened_with_def file_data_def)
qed (rule vfs_read_law)

text \<open>
  C36: Reading exactly \<open>n\<close> bytes returns the next \<open>n\<close> bytes of the file if it has them and moves the
  offset behind them; otherwise it reports an unexpected end of file, with the offset at the end. It holds
  for files of the RAM file system, of procfs and of ext2, however small the pieces their reads return.
\<close>

theorem vfs_read_exact_correct:
  assumes "file_data dev v f = Some c" "length c < usize_bound" "f_offset f \<le> length c"
  shows "vfs_read_exact dev v f n =
    (if f_offset f + n \<le> length c
     then Some (f\<lparr>f_offset := f_offset f + n\<rparr>, Inr (take n (drop (f_offset f) c)))
     else Some (f\<lparr>f_offset := length c\<rparr>, Inl UnexpectedEof))"
  using fr.read_exact_ok[of dev v c f n "[]"] assms by (simp add: vfs_read_exact_def opened_with_def)

definition vfs_empty :: vfs where
  "vfs_empty = \<lparr>inodes = [], ext2_sbs = [], volumes = [], MOUNTS = None, FILESYSTEMS = None, CHARDEVS = None, BLOCKDEVS = [], uart_messages = []\<rparr>"

theorem vfs_read_exact_correct_witness:
  "vfs_read_exact (\<lambda>_ _. Inl IoError) (vfs_empty\<lparr>inodes := [\<lparr>i_ino = 2, i_file_type = RegularFile, i_len = 5, i_iops = RAMFS_INODE_OPS,
      i_fops = RAMFS_FILE_OPS, i_sb = None, i_rdev = None, i_fs_data = RamfsFile [1, 2, 3, 4, 5]\<rparr>]\<rparr>)
      \<lparr>f_fops = RAMFS_FILE_OPS, f_offset = 1, f_inode = 0\<rparr> 3 = Some (\<lparr>f_fops = RAMFS_FILE_OPS, f_offset = 4, f_inode = 0\<rparr>, Inr [2, 3, 4])"
  by (subst vfs_read_exact_correct[of _ _ _ "[1, 2, 3, 4, 5]"]) (simp_all add: file_data_def usize_bound_def)

section \<open>Mounting makes a path lead into the new file system\<close>

text \<open>What lookups and mounts do to the state: inodes are added, superblocks keep their root.\<close>

definition grows :: "vfs \<Rightarrow> vfs \<Rightarrow> bool" where
  "grows v w \<longleftrightarrow> (\<exists>xs. inodes w = inodes v @ xs) \<and> MOUNTS w = MOUNTS v \<and> length (ext2_sbs v) \<le> length (ext2_sbs w) \<and>
     (\<forall>k < length (ext2_sbs v). sb_root (ext2_sbs w ! k) = sb_root (ext2_sbs v ! k))"

lemma grows_refl: "grows v v"
  by (simp add: grows_def)

lemma grows_trans: "grows a b \<Longrightarrow> grows b c \<Longrightarrow> grows a c"
  unfolding grows_def by (auto intro: order_trans)

lemma get_or_read_inode_grows:
  assumes "get_or_read_inode gb sc k sb st n = Some (sb', st', r)"
  shows "(\<exists>xs. st' = st @ xs) \<and> sb_root sb' = sb_root sb"
  using assms by (auto simp: get_or_read_inode_def arc_new_def branch_Some split: prod.split_asm option.split_asm)

lemma ext2_lookup_grows:
  assumes "ext2_lookup gb sc k sb st i name = Some (sb', st', r)"
  shows "(\<exists>xs. st' = st @ xs) \<and> sb_root sb' = sb_root sb"
  using assms get_or_read_inode_grows[of gb sc k sb st _ sb' st']
  by (auto simp: ext2_lookup_def branch_Some split: if_split_asm)

lemma iops_lookup_grows:
  assumes "iops_lookup dev sc v i name = Some (w, r)"
  shows "grows v w"
proof (cases "i_iops (inodes v ! i)")
  case RAMFS_INODE_OPS
  then show ?thesis using assms by (auto simp: iops_lookup_def bind_eq_Some_conv grows_refl)
next
  case PROCFS_INODE_OPS
  then show ?thesis using assms
    by (auto simp: iops_lookup_def bind_eq_Some_conv procfs_lookup_def arc_new_def grows_def split: fs_data.splits option.splits)
next
  case EXT2_INODE_OPS
  show ?thesis
  proof (cases "\<exists>k b. i_fs_data (inodes v ! i) = Ext2InodeData k b")
    case True
    then obtain k b where d: "i_fs_data (inodes v ! i) = Ext2InodeData k b" by blast
    let ?sb = "ext2_sbs v ! k"
    from assms obtain sb' st' where l: "ext2_lookup (sb_gb dev v ?sb) sc k ?sb (inodes v) i name = Some (sb', st', r)"
      "w = v\<lparr>inodes := st', ext2_sbs := (ext2_sbs v)[k := sb']\<rparr>"
      using EXT2_INODE_OPS d by (auto simp: iops_lookup_def bind_eq_Some_conv Let_def)
    then show ?thesis using ext2_lookup_grows[OF l(1)]
      by (cases "k < length (ext2_sbs v)") (auto simp: grows_def nth_list_update)
  next
    case False
    then show ?thesis using assms EXT2_INODE_OPS by (auto simp: iops_lookup_def grows_refl split: fs_data.splits if_splits)
  qed
qed

lemma lookup_loop_grows: "lookup_loop dev sc v i names = Some (w, r) \<Longrightarrow> grows v w"
proof (induction names arbitrary: v i)
  case (Cons n ns)
  then obtain u q where u: "iops_lookup dev sc v i n = Some (u, q)"
    "(case q of Inl e \<Rightarrow> Some (u, Inl e) | Inr c \<Rightarrow> do { c \<leftarrow> cross_mount u c; lookup_loop dev sc u c ns }) = Some (w, r)"
    by (auto simp: bind_eq_Some_conv)
  have g: "grows v u" using iops_lookup_grows[OF u(1)] .
  show ?case
  proof (cases q)
    case (Inl e)
    then show ?thesis using u(2) g by simp
  next
    case (Inr c)
    then obtain c' where "lookup_loop dev sc u c' ns = Some (w, r)" using u(2) by (auto simp: bind_eq_Some_conv)
    then show ?thesis using Cons.IH g grows_trans by blast
  qed
qed (simp add: grows_refl)

lemma vfs_lookup_grows: "vfs_lookup dev sc v path = Some (w, r) \<Longrightarrow> grows v w"
  by (auto simp: vfs_lookup_def branch_Some grows_refl lookup_loop_grows)

lemma ext2_new_grows:
  assumes "ext2_new gb sc k vol st = Some (st', r)"
  shows "(\<exists>xs. st' = st @ xs) \<and> (\<forall>sb. r = Inr sb \<longrightarrow> sb_root sb \<noteq> None)"
proof -
  from assms obtain q where q: "(case q of Inl e \<Rightarrow> Some (st, Inl e) | Inr sb \<Rightarrow> do {
      (sb, st, root) \<leftarrow> get_or_read_inode gb sc k sb st ROOT_INODE;
      (case root of Inl e \<Rightarrow> Some (st, Inl e) | Inr i \<Rightarrow> Some (st, Inr (sb\<lparr>sb_root := Some i\<rparr>))) }) = Some (st', r)"
    unfolding ext2_new_def by (auto simp: bind_eq_Some_conv)
  show ?thesis
  proof (cases q)
    case (Inr sb)
    then obtain sb' i where g: "get_or_read_inode gb sc k sb st ROOT_INODE = Some (sb', st', i)"
        "r = (case i of Inl e \<Rightarrow> Inl e | Inr i \<Rightarrow> Inr (sb'\<lparr>sb_root := Some i\<rparr>))"
      using q by (auto simp: branch_Some)
    then show ?thesis using get_or_read_inode_grows[OF g(1)] by (auto split: sum.splits)
  qed (use q in auto)
qed

lemma fs_mount_grows:
  assumes "fs_mount dev sc v fs source = Some (w, r)"
  shows "grows v w \<and> (\<forall>sb. r = Inr sb \<longrightarrow> (\<exists>i. sb_root_inode w sb = Some i))"
proof (cases fs)
  case RAMFS_FS
  then show ?thesis using assms by (auto simp: fs_mount_def ramfs_new_def arc_new_def grows_def sb_root_inode_def)
next
  case PROCFS_FS
  then show ?thesis using assms by (auto simp: fs_mount_def procfs_mount_def arc_new_def grows_def sb_root_inode_def)
next
  case EXT2_FS
  show ?thesis
  proof (cases source)
    case (Some src)
    from assms EXT2_FS Some obtain u l where u: "vfs_lookup dev sc v src = Some (u, l)"
      by (auto simp: fs_mount_def ext2_mount_def bind_eq_Some_conv)
    have g: "grows v u" using vfs_lookup_grows[OF u] .
    consider "w = u" "\<exists>e. r = Inl e" | vol st' q where "ext2_new (volume_gb dev (volumes u ! vol)) sc (length (ext2_sbs u)) vol (inodes u) = Some (st', q)"
        "(w, r) = (case q of Inl _ \<Rightarrow> (u\<lparr>inodes := st'\<rparr>, Inl error.InvalidInput)
          | Inr sb \<Rightarrow> (u\<lparr>inodes := st', ext2_sbs := ext2_sbs u @ [sb]\<rparr>, Inr (Ext2Sb (length (ext2_sbs u)))))"
      using assms EXT2_FS Some u
      by (auto simp: fs_mount_def ext2_mount_def branch_Some split: prod.split_asm)
    then show ?thesis
    proof cases
      case 2
      have "grows u w \<and> (\<forall>sb. r = Inr sb \<longrightarrow> (\<exists>i. sb_root_inode w sb = Some i))"
        using ext2_new_grows[OF 2(1)] 2(2) by (cases q) (auto simp: grows_def nth_append sb_root_inode_def)
      then show ?thesis using grows_trans[OF g] by blast
    qed (use g in auto)
  qed (use assms EXT2_FS in \<open>auto simp: fs_mount_def ext2_mount_def grows_refl\<close>)
qed

text \<open>Resolution over the ramfs directories alone, which fails on the inode \<open>mp\<close>. It needs no device and
  changes no state.\<close>

definition ramfs_step :: "vfs \<Rightarrow> inode_ref \<Rightarrow> string \<Rightarrow> inode_ref option" where
  "ramfs_step v i n =
     (if i < length (inodes v) \<and> i_iops (inodes v ! i) = RAMFS_INODE_OPS
      then (case ramfs_lookup (inodes v) i n of Some (Inr c) \<Rightarrow> Some c | _ \<Rightarrow> None) else None)"

fun resolve_avoiding :: "vfs \<Rightarrow> inode_ref \<Rightarrow> inode_ref \<Rightarrow> string list \<Rightarrow> inode_ref option" where
  "resolve_avoiding v mp i [] = Some i"
| "resolve_avoiding v mp i (n # ns) = do {
     c \<leftarrow> ramfs_step v i n;
     if c = mp then None else do { c \<leftarrow> cross_mount v c; resolve_avoiding v mp c ns }
   }"

definition mounts_wf :: "vfs \<Rightarrow> bool" where
  "mounts_wf v \<longleftrightarrow> (\<forall>ms m k. MOUNTS v = Some ms \<and> m \<in> set ms \<and> m_sb m = Ext2Sb k \<longrightarrow> k < length (ext2_sbs v))"

lemma ramfs_step_iops:
  assumes "ramfs_step v i n = Some c" "inodes w = inodes v @ xs"
  shows "iops_lookup dev sc w i n = Some (w, Inr c)"
  using assms
  by (auto simp: ramfs_step_def iops_lookup_def ramfs_lookup_def nth_append branch_Some split: if_split_asm option.split_asm sum.split_asm)

lemma find_mount_append:
  "find_mount i (ms @ [m]) = (case find_mount i ms of Some q \<Rightarrow> Some q | None \<Rightarrow> find_mount i [m])"
  by (induction ms) (auto split: option.splits)

lemma find_mount_set: "find_mount i ms = Some m \<Longrightarrow> m \<in> set ms"
  by (induction ms) (auto split: option.splits if_splits)

lemma sb_root_inode_grows:
  assumes "grows v w" "\<And>k. sb = Ext2Sb k \<Longrightarrow> k < length (ext2_sbs v)"
  shows "sb_root_inode w sb = sb_root_inode v sb"
  using assms by (cases sb) (auto simp: grows_def sb_root_inode_def)

text \<open>The state after a mount on \<open>mp\<close>, seen from the state before it.\<close>

definition mounted :: "vfs \<Rightarrow> vfs \<Rightarrow> inode_ref \<Rightarrow> mount \<Rightarrow> bool" where
  "mounted v w mp m \<longleftrightarrow> (\<exists>u ms. grows v u \<and> MOUNTS v = Some ms \<and> w = u\<lparr>MOUNTS := Some (ms @ [m])\<rparr>) \<and> mountpoint_inode m = Some mp"

lemma sb_root_inode_MOUNTS [simp]: "sb_root_inode (u\<lparr>MOUNTS := x\<rparr>) sb = sb_root_inode u sb"
  by (simp add: sb_root_inode_def split: super_block.splits)

lemma mounted_cross_other:
  assumes "mounted v w mp m" "mounts_wf v" "c \<noteq> mp"
  shows "cross_mount w c = cross_mount v c"
proof -
  from assms(1) obtain u ms where u: "grows v u" "MOUNTS v = Some ms" "w = u\<lparr>MOUNTS := Some (ms @ [m])\<rparr>"
    "mountpoint_inode m = Some mp" by (auto simp: mounted_def)
  have "sb_root_inode u (m_sb q) = sb_root_inode v (m_sb q)" if "find_mount c ms = Some q" for q
    using sb_root_inode_grows[OF u(1)] assms(2) find_mount_set[OF that] u(2) by (auto simp: mounts_wf_def)
  then show ?thesis using u(2-4) assms(3)
    by (auto simp: cross_mount_def find_mount_append inode_id_def split: option.splits)
qed

lemma mounted_cross_mp:
  assumes "mounted v w mp m" "cross_mount v mp = Some mp" "MOUNTS v = Some ms" "find_mount mp ms = None"
  shows "cross_mount w mp = sb_root_inode w (m_sb m)"
  using assms by (auto simp: mounted_def cross_mount_def find_mount_append inode_id_def)

lemma mounted_lookup_prefix:
  assumes "mounted v w mp m" "mounts_wf v" "resolve_avoiding v mp i names = Some d"
  shows "lookup_loop dev sc w i (names @ rest) = lookup_loop dev sc w d rest"
  using assms(3)
proof (induction names arbitrary: i)
  case (Cons n ns)
  then obtain c c' where c: "ramfs_step v i n = Some c" "c \<noteq> mp" "cross_mount v c = Some c'" "resolve_avoiding v mp c' ns = Some d"
    by (auto simp: bind_eq_Some_conv split: if_splits)
  obtain xs where "inodes w = inodes v @ xs" using assms(1) by (auto simp: mounted_def grows_def)
  then have "iops_lookup dev sc w i n = Some (w, Inr c)" using ramfs_step_iops c(1) by blast
  then show ?case using c Cons.IH mounted_cross_other[OF assms(1,2) c(2)] by simp
qed simp

lemma mounted_root:
  assumes "mounted v w mp m" "mounts_wf v" "root_inode v = Some (Inr r)"
  shows "root_inode w = Some (Inr r)"
proof -
  from assms(1) obtain u ms where u: "grows v u" "MOUNTS v = Some ms" "w = u\<lparr>MOUNTS := Some (ms @ [m])\<rparr>" by (auto simp: mounted_def)
  then obtain q where q: "list_get ms 0 = Some q" "sb_root_inode v (m_sb q) = Some r"
    using assms(3) by (auto simp: root_inode_def bind_eq_Some_conv)
  then have "q \<in> set ms" by (auto simp: list_get_def split: if_splits)
  then have "sb_root_inode u (m_sb q) = Some r"
    using sb_root_inode_grows[OF u(1)] assms(2) u(2) q(2) by (auto simp: mounts_wf_def)
  then show ?thesis using u q(1) by (auto simp: root_inode_def list_get_def nth_append split: if_splits)
qed

lemma resolve_avoiding_lookup:
  "resolve_avoiding v mp i names = Some d \<Longrightarrow> lookup_loop dev sc v i (names @ rest) = lookup_loop dev sc v d rest"
proof (induction names arbitrary: i)
  case (Cons n ns)
  then obtain c c' where c: "ramfs_step v i n = Some c" "cross_mount v c = Some c'" "resolve_avoiding v mp c' ns = Some d"
    by (auto simp: bind_eq_Some_conv split: if_splits)
  then show ?case using Cons.IH ramfs_step_iops[OF c(1), of v "[]"] by simp
qed simp

text \<open>A path over ramfs directories to an inode that carries no mount yet.\<close>

definition plain_path :: "vfs \<Rightarrow> string \<Rightarrow> inode_ref \<Rightarrow> bool" where
  "plain_path v path mp \<longleftrightarrow> (\<exists>r ms d pre n. root_inode v = Some (Inr r) \<and> MOUNTS v = Some ms \<and> find_mount mp ms = None \<and>
     path_parts path = pre @ [n] \<and> resolve_avoiding v mp r pre = Some d \<and> ramfs_step v d n = Some mp)"

lemma plain_path_lookup:
  assumes "plain_path v path mp"
  shows "vfs_lookup dev sc v path = Some (v, Inr mp)"
proof -
  from assms obtain r ms d pre n where r: "root_inode v = Some (Inr r)" "MOUNTS v = Some ms" "find_mount mp ms = None"
    "path_parts path = pre @ [n]" "resolve_avoiding v mp r pre = Some d" "ramfs_step v d n = Some mp"
    by (auto simp: plain_path_def)
  then show ?thesis using resolve_avoiding_lookup[OF r(5), of dev sc "[n]"] ramfs_step_iops[OF r(6), of v "[]" dev sc]
    by (simp add: vfs_lookup_def cross_mount_def)
qed

lemma vfs_mount_at_mounted:
  assumes "plain_path v path mp" "vfs_mount_at dev sc v source path name = Some (w, Inr ())"
  obtains sb root where "mounted v w mp \<lparr>mountpoint_inode = Some mp, mountpoint = path, m_sb = sb\<rparr>" "sb_root_inode w sb = Some root"
proof -
  from assms(2) obtain u fs sb ms where u: "fs_mount dev sc v fs source = Some (u, Inr sb)" "MOUNTS u = Some ms"
    "w = u\<lparr>MOUNTS := Some (ms @ [\<lparr>mountpoint_inode = Some mp, mountpoint = path, m_sb = sb\<rparr>])\<rparr>"
    by (auto simp: vfs_mount_at_def plain_path_lookup[OF assms(1)] branch_Some)
  then obtain root where "grows v u" "sb_root_inode u sb = Some root" using fs_mount_grows[OF u(1)] by blast
  moreover have "mounted v w mp \<lparr>mountpoint_inode = Some mp, mountpoint = path, m_sb = sb\<rparr>"
    unfolding mounted_def using calculation(1) u(2,3) by (intro conjI exI[of _ u] exI[of _ ms]) (simp_all add: grows_def)
  ultimately show thesis using that[of sb root] u(3) by simp
qed

text \<open>C37: mounting a file system at a path that leads over ramfs directories to an inode with no mount on it (from
  \<^term>\<open>plain_path\<close>) resolves that path, and every path below it, in the new file system from its root on: the
  superblock of the mount just recorded. Every path over ramfs directories that does not touch the mount point leads
  to the inode it led to before.\<close>

theorem vfs_mount_crosses:
  assumes "plain_path v path mp" "mounts_wf v" "root_inode v = Some (Inr r)"
    and "vfs_mount_at dev sc v source path name = Some (w, Inr ())"
  shows "\<exists>m root. MOUNTS w = Some (the (MOUNTS v) @ [m]) \<and> mountpoint m = path \<and> sb_root_inode w (m_sb m) = Some root \<and>
      (\<forall>p rest. path_parts p = path_parts path @ rest \<longrightarrow> vfs_lookup dev sc w p = lookup_loop dev sc w root rest) \<and>
      (\<forall>p d. resolve_avoiding v mp r (path_parts p) = Some d \<longrightarrow>
         vfs_lookup dev sc v p = Some (v, Inr d) \<and> vfs_lookup dev sc w p = Some (w, Inr d))"
proof -
  obtain sb root where m: "mounted v w mp \<lparr>mountpoint_inode = Some mp, mountpoint = path, m_sb = sb\<rparr>" (is "mounted v w mp ?m")
    and root: "sb_root_inode w sb = Some root"
    using vfs_mount_at_mounted[OF assms(1,4)] .
  from assms(1,3) obtain ms d pre n where r: "MOUNTS v = Some ms" "find_mount mp ms = None"
    "path_parts path = pre @ [n]" "resolve_avoiding v mp r pre = Some d" "ramfs_step v d n = Some mp"
    by (auto simp: plain_path_def)
  have rw: "root_inode w = Some (Inr r)" using mounted_root[OF m assms(2,3)] .
  have "cross_mount w mp = Some root" using mounted_cross_mp[OF m _ r(1,2)] r(1,2) root by (simp add: cross_mount_def)
  moreover obtain xs where "inodes w = inodes v @ xs" using m by (auto simp: mounted_def grows_def)
  ultimately have "lookup_loop dev sc w d (n # rest) = lookup_loop dev sc w root rest" for rest
    using ramfs_step_iops[OF r(5)] by simp
  then have "vfs_lookup dev sc w p = lookup_loop dev sc w root rest" if "path_parts p = path_parts path @ rest" for p rest
    using that r(3) rw mounted_lookup_prefix[OF m assms(2) r(4), of dev sc "n # rest"] by (simp add: vfs_lookup_def)
  moreover have "vfs_lookup dev sc v p = Some (v, Inr e) \<and> vfs_lookup dev sc w p = Some (w, Inr e)"
    if "resolve_avoiding v mp r (path_parts p) = Some e" for p e
    using that rw assms(3) mounted_lookup_prefix[OF m assms(2) that, of dev sc "[]"] resolve_avoiding_lookup[OF that, of dev sc "[]"]
    by (simp add: vfs_lookup_def)
  moreover have "MOUNTS w = Some (the (MOUNTS v) @ [?m])" using m by (auto simp: mounted_def)
  ultimately show ?thesis using root by (intro exI[of _ ?m] exI[of _ root]) simp
qed

definition two_dirs :: vfs where
  "two_dirs = vfs_empty\<lparr>
     inodes := [(make_dir_inode 1)\<lparr>i_fs_data := RamfsDir [(''etc'', 2), (''proc'', 1)]\<rparr>, make_dir_inode 2, make_dir_inode 3],
     MOUNTS := Some [\<lparr>mountpoint_inode = None, mountpoint = ''/'', m_sb = RamfsSb 0\<rparr>], FILESYSTEMS := Some [PROCFS_FS]\<rparr>"

theorem vfs_mount_crosses_witness:
  "\<exists>w root. vfs_mount_at (\<lambda>_ _. Inl IoError) (\<lambda>_. 1) two_dirs None ''/proc'' ''proc'' = Some (w, Inr ()) \<and> root \<notin> {0, 1, 2} \<and>
     vfs_lookup (\<lambda>_ _. Inl IoError) (\<lambda>_. 1) w ''/proc'' = Some (w, Inr root) \<and>
     vfs_lookup (\<lambda>_ _. Inl IoError) (\<lambda>_. 1) w ''/etc'' = Some (w, Inr 2)"
proof -
  let ?dev = "\<lambda>_ _. Inl IoError" and ?sc = "\<lambda>_. 1"
  have parts: "path_parts ''/proc'' = [''proc'']" "path_parts ''/etc'' = [''etc'']" by (simp_all add: path_parts_def)
  have step: "ramfs_step two_dirs 0 ''proc'' = Some 1" "ramfs_step two_dirs 0 ''etc'' = Some 2"
    by (simp_all add: ramfs_step_def two_dirs_def make_dir_inode_def ramfs_lookup_def)
  have r: "root_inode two_dirs = Some (Inr 0)" by (simp add: root_inode_def two_dirs_def list_get_def sb_root_inode_def)
  have m: "MOUNTS two_dirs = Some [\<lparr>mountpoint_inode = None, mountpoint = ''/'', m_sb = RamfsSb 0\<rparr>]" by (simp add: two_dirs_def)
  have pp: "plain_path two_dirs ''/proc'' 1" unfolding plain_path_def by (simp add: parts r m step)
  have wf: "mounts_wf two_dirs" by (simp add: mounts_wf_def m)
  define pr where "pr = procfs_mount (inodes two_dirs)"
  have pr: "snd pr = ProcfsSb 3" by (simp add: pr_def procfs_mount_def arc_new_def two_dirs_def)
  have "find_filesystem two_dirs ''proc'' = Some PROCFS_FS" by (simp add: find_filesystem_def two_dirs_def fs_name_def)
  then obtain w where w: "vfs_mount_at ?dev ?sc two_dirs None ''/proc'' ''proc'' = Some (w, Inr ())"
      "\<And>m root. MOUNTS w = Some (the (MOUNTS two_dirs) @ [m]) \<Longrightarrow> sb_root_inode w (m_sb m) = Some root \<Longrightarrow> root = 3"
    using pr by (simp add: vfs_mount_at_def plain_path_lookup[OF pp] fs_mount_def pr_def[symmetric] split_beta m sb_root_inode_def) fastforce
  have "resolve_avoiding two_dirs 1 0 (path_parts ''/etc'') = Some 2"
    by (simp add: parts step cross_mount_def m)
  moreover obtain q root where "MOUNTS w = Some (the (MOUNTS two_dirs) @ [q])" "sb_root_inode w (m_sb q) = Some root"
     "vfs_lookup ?dev ?sc w ''/proc'' = lookup_loop ?dev ?sc w root []"
     "\<And>p d. resolve_avoiding two_dirs 1 0 (path_parts p) = Some d \<Longrightarrow> vfs_lookup ?dev ?sc w p = Some (w, Inr d)"
    using vfs_mount_crosses[OF pp wf r w(1)] by (metis append_Nil2)
  moreover have "root = 3" using w(2) calculation by blast
  ultimately show ?thesis using w(1) by (intro exI[of _ w] exI[of _ root]) simp
qed

end
