(* ===== verification/Uaccess.thy ===== *)
theory Uaccess
  imports Page_Table File_Api
begin

text \<open>
  Copies between kernel buffers and user memory (\<open>src/syscall/uaccess.rs\<close>). A user address is translated
  through the process's page table one page at a time; the translated address is used as a kernel pointer,
  which the kernel's identity mapping of RAM allows. The lemmas compare the page-wise loops with a copy byte
  by byte: \<open>copy_in_user\<close> returns the bytes at the translations of the addresses, or the error exactly if one of
  them has none, and \<open>copy_out_user\<close> stores bytes which \<open>copy_in_user\<close> reads back.
\<close>

unbundle bit_operations_syntax

section \<open>The copies\<close>

definition chunk :: "usize \<Rightarrow> usize \<Rightarrow> usize" where
  "chunk user_ptr left = min left (PAGE_SIZE - (user_ptr AND (PAGE_SIZE - 1)))"

lemma page_offset: "user_ptr AND (PAGE_SIZE - 1) = user_ptr mod 4096"
  using and_mask_mod[of user_ptr 12] by (simp add: PAGE_SIZE_def)

lemma page_chunk_eq: "chunk user_ptr left = min left (4096 - user_ptr mod 4096)"
  unfolding chunk_def page_offset by (simp add: PAGE_SIZE_def)

lemma chunk_pos [simp]: "0 < chunk user_ptr left \<longleftrightarrow> 0 < left"
  by (simp add: page_chunk_eq)

lemma chunk_le: "chunk user_ptr left \<le> left"
  by (simp add: page_chunk_eq)

lemma chunk_in_page: "u mod 4096 + chunk u left \<le> 4096"
proof -
  have "chunk u left \<le> 4096 - u mod 4096" "u mod 4096 < 4096" by (simp_all add: page_chunk_eq)
  then show ?thesis by linarith
qed

lemma chunk_shrinks: "offset < len \<Longrightarrow> len - (offset + chunk user_ptr (len - offset)) < len - offset"
  using chunk_pos[of user_ptr "len - offset"] by linarith

function copy_out_loop :: "usize \<Rightarrow> mem \<Rightarrow> usize \<Rightarrow> u8 list \<Rightarrow> (mem \<times> (unit + unit)) option" where
  "copy_out_loop page_map m user_ptr remaining =
     (if remaining = [] then Some (m, Inr ())
      else
        let chunk_size = chunk user_ptr (length remaining) in
        case virt_to_phys m page_map user_ptr of
          None \<Rightarrow> Some (m, Inl ())
        | Some phys_addr \<Rightarrow> do {
            let m = store_bytes (take chunk_size remaining) m phys_addr;
            user_ptr' \<leftarrow> uadd user_ptr chunk_size;
            copy_out_loop page_map m user_ptr' (drop chunk_size remaining)
          })"
  by pat_completeness auto
termination by (relation "measure (\<lambda>(p, m, u, r). length r)") auto

definition copy_out_user :: "usize \<Rightarrow> mem \<Rightarrow> usize \<Rightarrow> u8 list \<Rightarrow> (mem \<times> (unit + unit)) option" where
  "copy_out_user page_map m user_addr data = copy_out_loop page_map m user_addr data"

function copy_in_loop :: "usize \<Rightarrow> mem \<Rightarrow> usize \<Rightarrow> usize \<Rightarrow> u8 list \<Rightarrow> (unit + u8 list) option" where
  "copy_in_loop page_map m user_ptr offset kbuf =
     (if offset < length kbuf then
        let chunk_size = chunk user_ptr (length kbuf - offset) in
        case virt_to_phys m page_map user_ptr of
          None \<Rightarrow> Some (Inl ())
        | Some phys_addr \<Rightarrow> do {
            kbuf' \<leftarrow> slice_write kbuf offset (load_bytes chunk_size m phys_addr);
            user_ptr' \<leftarrow> uadd user_ptr chunk_size;
            copy_in_loop page_map m user_ptr' (offset + chunk_size) kbuf'
          }
      else Some (Inr kbuf))"
  by pat_completeness auto
termination
  by (relation "measure (\<lambda>(p, m, u, off, b). length b - off)")
    (auto simp: chunk_shrinks dest!: slice_write_length)

definition copy_in_user :: "usize \<Rightarrow> mem \<Rightarrow> usize \<Rightarrow> usize \<Rightarrow> (unit + u8 list) option" where
  "copy_in_user page_map m user_addr len = copy_in_loop page_map m user_addr 0 (replicate len 0)"

function copy_in_str_loop :: "usize \<Rightarrow> mem \<Rightarrow> usize \<Rightarrow> usize \<Rightarrow> usize \<Rightarrow> string \<Rightarrow> (unit + string) option" where
  "copy_in_str_loop page_map m max_len user_ptr scanned result =
     (if scanned < max_len then
        let chunk_size = chunk user_ptr (max_len - scanned) in
        case virt_to_phys m page_map user_ptr of
          None \<Rightarrow> Some (Inl ())
        | Some phys_addr \<Rightarrow>
            let bytes = load_bytes chunk_size m phys_addr in
            (case position (\<lambda>b. b = 0) bytes of
               Some null_pos \<Rightarrow>
                 Some (case from_utf8 (take null_pos bytes) of None \<Rightarrow> Inl () | Some s \<Rightarrow> Inr (result @ s))
             | None \<Rightarrow>
                 (case from_utf8 bytes of
                    None \<Rightarrow> Some (Inl ())
                  | Some s \<Rightarrow> do {
                      user_ptr' \<leftarrow> uadd user_ptr chunk_size;
                      copy_in_str_loop page_map m max_len user_ptr' (scanned + chunk_size) (result @ s)
                    }))
      else Some (Inl ()))"
  by pat_completeness auto
termination
  by (relation "measure (\<lambda>(p, m, max_len, u, scanned, r). max_len - scanned)") (auto simp: chunk_shrinks)

definition copy_in_str :: "usize \<Rightarrow> mem \<Rightarrow> usize \<Rightarrow> usize \<Rightarrow> (unit + string) option" where
  "copy_in_str page_map m user_addr max_len = copy_in_str_loop page_map m max_len user_addr 0 []"

declare copy_out_loop.simps [simp del] copy_in_loop.simps [simp del] copy_in_str_loop.simps [simp del]

section \<open>Translation within a page\<close>

lemma page_and_offset:
  assumes "a < usize_bound" "k \<le> 64"
  shows "(a AND unot (2 ^ k - 1)) OR (v AND (2 ^ k - 1)) = a div 2 ^ k * 2 ^ k + v mod 2 ^ k"
proof -
  let ?p = "a div 2 ^ k * 2 ^ k"
  have p: "?p < usize_bound" using assms(1) div_times_less_eq_dividend order.strict_trans1 by blast
  have "a AND unot (2 ^ k - 1) = ?p" "?p AND unot (2 ^ k - 1) = ?p" using and_unot_mask assms p by simp_all
  then show ?thesis using or_mask_add[of k ?p v] p assms(2) by simp
qed

lemma mod_add_in_page:
  fixes x :: nat
  assumes "x mod 4096 + j < 4096"
  shows "(x + j) mod (4096 * q) = x mod (4096 * q) + j"
proof (cases "q = 0")
  case False
  have e: "x mod (4096 * q) = 4096 * (x div 4096 mod q) + x mod 4096" by (simp add: mod_mult2_eq)
  have "x div 4096 mod q + 1 \<le> q" using False by (simp add: Suc_leI)
  then have "4096 * (x div 4096 mod q) + 4096 \<le> 4096 * q" by simp
  then have "x mod (4096 * q) + j < 4096 * q" using assms e by linarith
  then show ?thesis by (metis mod_add_left_eq mod_less)
qed simp

lemma pte_addr_less: "pte_addr e < usize_bound"
  by (simp add: pte_addr_def usize_bound_def order.strict_trans2[OF unsigned_less])

lemma virt_to_phys_in_page:
  assumes "x mod 4096 + j < 4096"
  shows "virt_to_phys m root (x + j) = map_option (\<lambda>p. p + j) (virt_to_phys m root x)"
proof -
  have "(x + j) div 4096 = x div 4096"
    using assms mult_div_mod_eq[of 4096 x] by (intro div_nat_eqI) (unfold mult_Suc_right, linarith+)
  then have v: "vpns (x + j) = vpns x" by (simp add: vpns_eq_iff)
  have "(pte_addr e AND unot (leaf_mask l)) OR ((x + j) AND leaf_mask l) =
      ((pte_addr e AND unot (leaf_mask l)) OR (x AND leaf_mask l)) + j" for e l
    using page_and_offset[OF pte_addr_less[of e], of 12] page_and_offset[OF pte_addr_less[of e], of 21] page_and_offset[OF pte_addr_less[of e], of 14]
      mod_add_in_page[OF assms, of 1] mod_add_in_page[OF assms, of 512] mod_add_in_page[OF assms, of 4]
    by (simp add: leaf_mask_def)
  then show ?thesis unfolding virt_to_phys_walk v by (cases "walk m root (vpns x)") auto
qed

section \<open>Copying in, byte by byte\<close>

fun user_bytes :: "usize \<Rightarrow> mem \<Rightarrow> usize \<Rightarrow> nat \<Rightarrow> unit + u8 list" where
  "user_bytes page_map m u 0 = Inr []"
| "user_bytes page_map m u (Suc n) =
     (case virt_to_phys m page_map u of
        None \<Rightarrow> Inl ()
      | Some p \<Rightarrow> (case user_bytes page_map m (u + 1) n of Inl e \<Rightarrow> Inl e | Inr bs \<Rightarrow> Inr (m p # bs)))"

lemma user_bytes_add:
  "user_bytes pm m u (a + b) =
     (case user_bytes pm m u a of Inl e \<Rightarrow> Inl e
      | Inr xs \<Rightarrow> (case user_bytes pm m (u + a) b of Inl e \<Rightarrow> Inl e | Inr ys \<Rightarrow> Inr (xs @ ys)))"
  by (induction a arbitrary: u) (auto split: option.splits sum.splits)

lemma load_bytes_Suc: "load_bytes (Suc n) m a = m a # load_bytes n m (a + 1)"
  by (simp add: load_bytes_def upt_conv_Cons map_Suc_upt[symmetric] o_def del: upt_Suc)

lemma user_bytes_page:
  "u mod 4096 + n \<le> 4096 \<Longrightarrow> virt_to_phys m pm u = Some p \<Longrightarrow> user_bytes pm m u n = Inr (load_bytes n m p)"
proof (induction n arbitrary: u p)
  case (Suc n)
  show ?case
  proof (cases n)
    case 0
    then show ?thesis using Suc.prems by (simp add: load_bytes_Suc) (simp add: load_bytes_def)
  next
    case (Suc k)
    then have "u mod 4096 + 1 < 4096" using Suc.prems(1) by simp
    then have "virt_to_phys m pm (u + 1) = Some (p + 1)" "(u + 1) mod 4096 = u mod 4096 + 1"
      using virt_to_phys_in_page[of u 1 m pm] mod_add_in_page[of u 1 1] Suc.prems(2) by simp_all
    then show ?thesis using Suc.IH[of "u + 1" "p + 1"] Suc.prems by (simp add: load_bytes_Suc)
  qed
qed (simp add: load_bytes_def)

lemma copy_in_loop_bytes:
  "offset \<le> length kbuf \<Longrightarrow> u + (length kbuf - offset) < usize_bound \<Longrightarrow>
   copy_in_loop pm m u offset kbuf =
     Some (case user_bytes pm m u (length kbuf - offset) of Inl e \<Rightarrow> Inl e | Inr bs \<Rightarrow> Inr (take offset kbuf @ bs))"
proof (induction pm m u offset kbuf rule: copy_in_loop.induct)
  case (1 pm m u offset kbuf)
  show ?case
  proof (cases "offset < length kbuf")
    case True
    define c left where "c = chunk u (length kbuf - offset)" and "left = length kbuf - offset"
    have c: "0 < c" "c \<le> left" "u mod 4096 + c \<le> 4096"
      using True by (simp_all add: c_def left_def chunk_le chunk_in_page)
    show ?thesis
    proof (cases "virt_to_phys m pm u")
      case None
      then have "user_bytes pm m u left = Inl ()" using c(1,2) by (cases left) simp_all
      then show ?thesis using None True by (simp add: copy_in_loop.simps[of _ _ u offset] left_def[symmetric] Let_def)
    next
      case (Some p)
      define kbuf' where "kbuf' = take offset kbuf @ load_bytes c m p @ drop (offset + c) kbuf"
      have w: "slice_write kbuf offset (load_bytes c m p) = Some kbuf'" using c(2) True by (simp add: kbuf'_def left_def)
      have len: "length kbuf' = length kbuf" "length kbuf - (offset + c) = left - c" using c(2) True by (simp_all add: kbuf'_def left_def)
      have up: "uadd u c = Some (u + c)" using c(2) "1.prems"(2) by (simp add: left_def)
      have "copy_in_loop pm m (u + c) (offset + c) kbuf' =
          Some (case user_bytes pm m (u + c) (left - c) of Inl e \<Rightarrow> Inl e | Inr bs \<Rightarrow> Inr (take (offset + c) kbuf' @ bs))"
      proof -
        have b: "offset + c \<le> length kbuf'" "u + c + (length kbuf' - (offset + c)) < usize_bound"
          using "1.prems" c(2) True len(1) by (simp_all add: left_def)
        show ?thesis using "1.IH"[OF True c_def Some w up b] by (simp only: len)
      qed
      moreover have "take (offset + c) kbuf' = take offset kbuf @ load_bytes c m p" using True by (simp add: kbuf'_def)
      moreover have "copy_in_loop pm m u offset kbuf = copy_in_loop pm m (u + c) (offset + c) kbuf'"
        using True Some w up by (simp add: copy_in_loop.simps[of _ _ u offset] c_def[symmetric] Let_def)
      moreover have "user_bytes pm m u left = (case user_bytes pm m (u + c) (left - c) of Inl e \<Rightarrow> Inl e | Inr ys \<Rightarrow> Inr (load_bytes c m p @ ys))"
        using user_bytes_add[of pm m u c "left - c"] user_bytes_page[OF c(3) Some] c(2) by simp
      ultimately show ?thesis unfolding left_def[symmetric] by (auto split: sum.splits)
    qed
  qed (use "1.prems" in \<open>simp add: copy_in_loop.simps[of _ _ u "length kbuf"]\<close>)
qed

lemma copy_in_bytes:
  assumes "u + n < usize_bound"
  shows "copy_in_user pm m u n = Some (user_bytes pm m u n)"
  using copy_in_loop_bytes[of 0 "replicate n 0" u pm m] assms by (simp add: copy_in_user_def split: sum.splits)

section \<open>Copying out\<close>

text \<open>
  A range of user addresses, each mapped, no two to the same byte, and none to a byte of the page tables.
\<close>

definition user_range :: "usize \<Rightarrow> mem \<Rightarrow> usize \<Rightarrow> nat \<Rightarrow> bool" where
  "user_range page_map m u n \<longleftrightarrow> u + n < usize_bound \<and>
     (\<forall>i < n. \<exists>p. virt_to_phys m page_map (u + i) = Some p \<and> p \<notin> table_bytes m page_map) \<and>
     (\<forall>i < n. \<forall>j < n. virt_to_phys m page_map (u + i) = virt_to_phys m page_map (u + j) \<longrightarrow> i = j)"

lemma user_range_tail:
  "user_range pm m u (a + n) \<Longrightarrow> user_range pm m (u + a) n"
proof -
  assume r: "user_range pm m u (a + n)"
  have "a + i = a + j" if "i < n" "j < n" "virt_to_phys m pm (u + a + i) = virt_to_phys m pm (u + a + j)" for i j
    using r that unfolding user_range_def by (metis add.assoc nat_add_left_cancel_less)
  moreover have "\<exists>p. virt_to_phys m pm (u + a + i) = Some p \<and> p \<notin> table_bytes m pm" if "i < n" for i
    using r that unfolding user_range_def by (metis add.assoc nat_add_left_cancel_less)
  ultimately show ?thesis using r by (simp add: user_range_def)
qed

text \<open>Memory after the bytes have been stored through the translation, one by one.\<close>

definition stored :: "usize \<Rightarrow> mem \<Rightarrow> usize \<Rightarrow> u8 list \<Rightarrow> mem \<Rightarrow> bool" where
  "stored page_map m u bs m' \<longleftrightarrow>
     (\<forall>i < length bs. \<forall>p. virt_to_phys m page_map (u + i) = Some p \<longrightarrow> m' p = bs ! i) \<and>
     (\<forall>y. (\<forall>i < length bs. virt_to_phys m page_map (u + i) \<noteq> Some y) \<longrightarrow> m' y = m y)"

lemma stored_tables:
  assumes "stored pm m u bs m'" "user_range pm m u (length bs)"
  shows "virt_to_phys m' pm v = virt_to_phys m pm v" "table_bytes m' pm = table_bytes m pm"
  using assms same_tables[of m pm m'] unfolding stored_def user_range_def by (metis option.inject)+

lemma stored_user_range:
  assumes "stored pm m u bs m'" "user_range pm m u (length bs)"
  shows "user_range pm m' v n = user_range pm m v n"
  using stored_tables[OF assms] by (simp add: user_range_def)

lemma stored_page:
  assumes "virt_to_phys m pm u = Some p" "u mod 4096 + length bs \<le> 4096"
  shows "stored pm m u bs (store_bytes bs m p)"
proof -
  have t: "virt_to_phys m pm (u + i) = Some (p + i)" if "i < length bs" for i
    using virt_to_phys_in_page[of u i m pm] assms that by simp
  have "\<exists>i < length bs. p + i = y" if "p \<le> y" "y < p + length bs" for y
    using that by (intro exI[of _ "y - p"]) auto
  then show ?thesis using t by (auto simp: stored_def store_bytes_def)
qed

lemma stored_append:
  assumes "stored pm m u xs m1" "stored pm m1 (u + length xs) ys m2" "user_range pm m u (length xs + length ys)"
    "user_range pm m u (length xs)"
  shows "stored pm m u (xs @ ys) m2"
proof -
  have tr: "virt_to_phys m1 pm v = virt_to_phys m pm v" for v using stored_tables(1)[OF assms(1,4)] .
  have "m2 p = (xs @ ys) ! i" if i: "i < length (xs @ ys)" "virt_to_phys m pm (u + i) = Some p" for i p
  proof (cases "i < length xs")
    case True
    have "virt_to_phys m pm (u + length xs + j) \<noteq> Some p" if "j < length ys" for j
      using assms(3) i True that unfolding user_range_def
      by (metis add.assoc length_append nat_add_left_cancel_less not_add_less1 trans_less_add1)
    then have "m2 p = m1 p" using assms(2) tr by (simp add: stored_def)
    then show ?thesis using assms(1) i True by (simp add: stored_def nth_append)
  next
    case False
    then have "virt_to_phys m1 pm (u + length xs + (i - length xs)) = Some p" using i(2) tr by simp
    then show ?thesis using assms(2) i(1) False by (simp add: stored_def nth_append)
  qed
  moreover have "m2 y = m y" if y: "\<forall>i < length (xs @ ys). virt_to_phys m pm (u + i) \<noteq> Some y" for y
  proof -
    have "virt_to_phys m pm (u + length xs + j) \<noteq> Some y" if "j < length ys" for j
      using y that by (metis add.assoc length_append nat_add_left_cancel_less)
    then show ?thesis using assms(1,2) y tr by (simp add: stored_def)
  qed
  ultimately show ?thesis by (simp add: stored_def)
qed

lemma user_range_prefix: "user_range pm m u (a + n) \<Longrightarrow> user_range pm m u a"
  by (auto simp: user_range_def)

lemma copy_out_loop_stored:
  "user_range pm m u (length data) \<Longrightarrow> \<exists>m'. copy_out_loop pm m u data = Some (m', Inr ()) \<and> stored pm m u data m'"
proof (induction "length data" arbitrary: m u data rule: less_induct)
  case less
  show ?case
  proof (cases "data = []")
    case False
    define c where "c = chunk u (length data)"
    have c: "0 < c" "c \<le> length data" "u mod 4096 + c \<le> 4096"
      using False by (simp_all add: c_def chunk_le chunk_in_page)
    obtain p where p: "virt_to_phys m pm u = Some p"
      using less.prems False unfolding user_range_def by (metis add_0_right length_greater_0_conv)
    define m1 where "m1 = store_bytes (take c data) m p"
    have split: "length data = c + length (drop c data)" "length (take c data) = c" using c(2) by simp_all
    have r: "user_range pm m u (length (take c data))"
      using user_range_prefix less.prems split by metis
    have st: "stored pm m u (take c data) m1" unfolding m1_def by (rule stored_page[OF p]) (simp add: c)
    have "user_range pm m (u + c) (length (drop c data))" using user_range_tail less.prems split(1) by metis
    then have "user_range pm m1 (u + c) (length (drop c data))" using stored_user_range[OF st r] by blast
    moreover have "length (drop c data) < length data" using c(1,2) by simp
    ultimately obtain m' where m': "copy_out_loop pm m1 (u + c) (drop c data) = Some (m', Inr ())" "stored pm m1 (u + c) (drop c data) m'"
      using less.hyps by blast
    have "uadd u c = Some (u + c)" using less.prems c(2) by (simp add: user_range_def)
    then have "copy_out_loop pm m u data = Some (m', Inr ())"
      using False p m'(1) by (simp add: copy_out_loop.simps[of _ _ u data] c_def[symmetric] m1_def[symmetric] Let_def)
    moreover have "stored pm m u (take c data @ drop c data) m'"
      by (rule stored_append[OF st _ _ r]) (use m'(2) less.prems c(2) in simp_all)
    ultimately show ?thesis by simp
  qed (simp add: copy_out_loop.simps[of _ _ u "[]"] stored_def)
qed

lemma user_bytes_Inr:
  "(\<And>i. i < n \<Longrightarrow> virt_to_phys m pm (u + i) = Some (f i)) \<Longrightarrow> user_bytes pm m u n = Inr (map (\<lambda>i. m (f i)) [0..<n])"
proof (induction n arbitrary: u f)
  case (Suc n)
  have "user_bytes pm m (u + 1) n = Inr (map (\<lambda>i. m (f (Suc i))) [0..<n])"
    by (rule Suc.IH) (use Suc.prems[of "Suc _"] in simp)
  then show ?case using Suc.prems[of 0]
    by (simp add: upt_conv_Cons map_Suc_upt[symmetric] o_def del: upt_Suc)
qed simp

text \<open>Bytes copied out to a user range are read back by \<open>copy_in_user\<close>.\<close>

lemma copy_out_in:
  assumes "user_range pm m u (length data)"
  shows "\<exists>m'. copy_out_user pm m u data = Some (m', Inr ()) \<and> stored pm m u data m' \<and> copy_in_user pm m' u (length data) = Some (Inr data)"
proof -
  obtain m' where m': "copy_out_user pm m u data = Some (m', Inr ())" "stored pm m u data m'"
    using copy_out_loop_stored[OF assms] by (auto simp: copy_out_user_def)
  obtain f where f: "\<And>i. i < length data \<Longrightarrow> virt_to_phys m pm (u + i) = Some (f i)"
    using assms unfolding user_range_def by metis
  have "user_bytes pm m' u (length data) = Inr (map (\<lambda>i. m' (f i)) [0..<length data])"
    using f stored_tables(1)[OF m'(2) assms] by (intro user_bytes_Inr) simp
  also have "map (\<lambda>i. m' (f i)) [0..<length data] = data"
    using m'(2) f by (intro nth_equalityI) (auto simp: stored_def)
  finally show ?thesis using m' copy_in_bytes[of u "length data" pm m'] assms by (auto simp: user_range_def)
qed

lemma copy_out_total:
  "u + length data < usize_bound \<Longrightarrow> copy_out_loop pm m u data \<noteq> None"
proof (induction "length data" arbitrary: m u data rule: less_induct)
  case less
  show ?case
  proof (cases "data = []")
    case False
    define c where "c = chunk u (length data)"
    have c: "0 < c" "c \<le> length data" using False by (simp_all add: c_def chunk_le)
    then have "uadd u c = Some (u + c)" using less.prems by simp
    moreover have "copy_out_loop pm m1 (u + c) (drop c data) \<noteq> None" for m1
      using less.hyps[of "drop c data" "u + c" m1] less.prems c by simp
    ultimately show ?thesis
      by (simp add: copy_out_loop.simps[of _ _ u data] c_def[symmetric] Let_def split: option.splits)
  qed (simp add: copy_out_loop.simps[of _ _ u "[]"])
qed

end
