(* ===== verification/Syscalls.thy ===== *)
theory Syscalls
  imports Vfs Uaccess Trap_Handlers Threads
begin

text \<open>
  The process context (\<open>src/process.rs\<close>) and the system calls (\<open>src/syscall/\<close>). The kernel state gathers what
  a system call reads and writes: RAM with the page allocator, the file systems, the current process context
  and the scheduler. \<open>handle\<close> dispatches on \<open>a7\<close> and returns past the \<open>ecall\<close>; a call that spins forever or
  panics has no result. The theorems show that \<open>read\<close> delivers a file's bytes to user memory through the trap
  handler, and what a system call can change at all.
\<close>

unbundle bit_operations_syntax

section \<open>Process context and kernel state\<close>

definition PROCESS_MMAP_START :: usize where "PROCESS_MMAP_START = 0x100000000"

record process_context =
  ctx_page_map :: usize  \<comment> \<open>address of the root table\<close>
  ctx_satp :: u64
  heap_begin :: usize
  heap_end :: usize
  mmap_next :: usize
  ctx_files :: "open_file option list"

record kernel =
  k_machine :: machine
  k_vfs :: vfs
  k_context :: process_context
  k_sched :: sched

text \<open>
  What the calls depend on besides the kernel state: the disk, the reference counts of the inodes, the id of the
  UART writer thread, and what the other threads do while the caller has yielded the processor, which ends when
  it is resumed.
\<close>

record environment =
  e_device :: device
  e_strong_count :: "inode_ref \<Rightarrow> nat"
  e_writer_tid :: usize
  e_resumed :: "kernel \<Rightarrow> kernel option"

definition context_new :: "machine \<Rightarrow> (machine \<times> process_context) option" where
  "context_new st = do {
     (st, page_map) \<leftarrow> mapper_new st;
     Some (st, \<lparr>ctx_page_map = page_map, ctx_satp = satp_value page_map, heap_begin = 0, heap_end = 0,
       mmap_next = PROCESS_MMAP_START, ctx_files = []\<rparr>)
   }"

section \<open>Arguments and results\<close>

definition ENOENT :: int where "ENOENT = -2"
definition EIO :: int where "EIO = -5"
definition EBADF :: int where "EBADF = -9"
definition EFAULT :: int where "EFAULT = -14"

text \<open>Register \<open>a\<^sub>n\<close> is \<open>x10 + n\<close>, stored at index \<open>9 + n\<close>.\<close>

definition arg :: "process_trap_frame \<Rightarrow> nat \<Rightarrow> u64" where
  "arg tf n = tf_registers tf ! (9 + n)"

definition set_a0 :: "process_trap_frame \<Rightarrow> u64 \<Rightarrow> process_trap_frame" where
  "set_a0 tf v = tf\<lparr>tf_registers := (tf_registers tf)[9 := v]\<rparr>"

definition set_a0_int :: "process_trap_frame \<Rightarrow> int \<Rightarrow> process_trap_frame" where
  "set_a0_int tf v = set_a0 tf (word_of_int v)"

definition user_mem :: "kernel \<Rightarrow> mem" where
  "user_mem k = mmem (k_machine k)"

definition set_mem :: "kernel \<Rightarrow> mem \<Rightarrow> kernel" where
  "set_mem k m = k\<lparr>k_machine := (k_machine k)\<lparr>mmem := m\<rparr>\<rparr>"

definition set_files :: "kernel \<Rightarrow> open_file option list \<Rightarrow> kernel" where
  "set_files k fs = k\<lparr>k_context := (k_context k)\<lparr>ctx_files := fs\<rparr>\<rparr>"

abbreviation files_of :: "kernel \<Rightarrow> open_file option list" where
  "files_of k \<equiv> ctx_files (k_context k)"

text \<open>\<open>ctx.files.get(fd)\<close>: the open file, if the descriptor is in the table and in use.\<close>

definition fd_file :: "kernel \<Rightarrow> usize \<Rightarrow> open_file option" where
  "fd_file k fd = (case list_get (files_of k) fd of Some (Some f) \<Rightarrow> Some f | _ \<Rightarrow> None)"

text \<open>\<open>vec![0u8; n]\<close> panics beyond \<open>isize::MAX\<close> bytes.\<close>

definition vec_capacity :: "usize \<Rightarrow> unit option" where
  "vec_capacity n = guard_assert (n < 2 ^ 63)"

section \<open>File system calls\<close>

definition sys_write :: "environment \<Rightarrow> kernel \<Rightarrow> usize \<Rightarrow> usize \<Rightarrow> usize \<Rightarrow> (kernel \<times> int) option" where
  "sys_write env k fd ubuf cnt =
     (case fd_file k fd of
        None \<Rightarrow> Some (k, EBADF)
      | Some f \<Rightarrow> do {
          vec_capacity cnt;
          r \<leftarrow> copy_in_user (ctx_page_map (k_context k)) (user_mem k) ubuf cnt;
          (case r of
             Inl _ \<Rightarrow> Some (k, EFAULT)
           | Inr kbuf \<Rightarrow> do {
               t \<leftarrow> current_thread (k_sched k);
               let (v, w) = vfs_write (e_writer_tid env) (t_id t) (k_vfs k) f kbuf;
               (case w of
                  Inl _ \<Rightarrow> Some (k\<lparr>k_vfs := v\<rparr>, EIO)
                | Inr written \<Rightarrow> do { k \<leftarrow> e_resumed env (k\<lparr>k_vfs := v\<rparr>); Some (k, int written) })
             })
        })"

definition write_call :: "environment \<Rightarrow> kernel \<Rightarrow> process_trap_frame \<Rightarrow> (kernel \<times> process_trap_frame) option" where
  "write_call env k tf = do {
     (k, r) \<leftarrow> sys_write env k (unat (arg tf 0)) (unat (arg tf 1)) (unat (arg tf 2));
     Some (k, set_a0_int tf r)
   }"

text \<open>The slot a new descriptor takes: the first free one, or a new one at the end.\<close>

definition place_file :: "open_file option list \<Rightarrow> open_file \<Rightarrow> open_file option list \<times> usize" where
  "place_file fs f =
     (case position (\<lambda>slot. slot = None) fs of
        Some i \<Rightarrow> (fs[i := Some f], i)
      | None \<Rightarrow> (fs @ [Some f], length fs))"

definition openat :: "environment \<Rightarrow> kernel \<Rightarrow> process_trap_frame \<Rightarrow> (kernel \<times> process_trap_frame) option" where
  "openat env k tf = do {
     r \<leftarrow> copy_in_str (ctx_page_map (k_context k)) (user_mem k) (unat (arg tf 1)) 256;
     (case r of
        Inl _ \<Rightarrow> Some (k, set_a0_int tf EFAULT)
      | Inr path \<Rightarrow> do {
          (v, r) \<leftarrow> vfs_open (e_device env) (e_strong_count env) (k_vfs k) path;
          (case r of
             Inl _ \<Rightarrow> Some (k\<lparr>k_vfs := v\<rparr>, set_a0_int tf ENOENT)
           | Inr f \<Rightarrow>
               let (fs, fd) = place_file (files_of k) f in
               Some (set_files (k\<lparr>k_vfs := v\<rparr>) fs, set_a0 tf (word_of_nat fd)))
        })
   }"

definition fcntl :: "kernel \<Rightarrow> process_trap_frame \<Rightarrow> (kernel \<times> process_trap_frame) option" where
  "fcntl k tf = Some (k, tf)"

record stat =
  st_dev :: u64
  st_ino :: u64
  st_mode :: u32
  st_nlink :: u32
  st_uid :: u32
  st_gid :: u32
  st_rdev :: u64
  st_pad1 :: u64
  st_size :: u64
  st_blksize :: u32
  st_pad2 :: u32
  st_blocks :: u64
  st_atime :: u64
  st_atime_nsec :: u64
  st_mtime :: u64
  st_mtime_nsec :: u64
  st_ctime :: u64
  st_ctime_nsec :: u64
  st_unused4 :: u32
  st_unused5 :: u32

definition stat_zeroed :: stat where
  "stat_zeroed = \<lparr>st_dev = 0, st_ino = 0, st_mode = 0, st_nlink = 0, st_uid = 0, st_gid = 0, st_rdev = 0, st_pad1 = 0,
     st_size = 0, st_blksize = 0, st_pad2 = 0, st_blocks = 0, st_atime = 0, st_atime_nsec = 0, st_mtime = 0,
     st_mtime_nsec = 0, st_ctime = 0, st_ctime_nsec = 0, st_unused4 = 0, st_unused5 = 0\<rparr>"

text \<open>The bytes of the \<open>repr(C)\<close> structure, which has no padding.\<close>

definition stat_bytes :: "stat \<Rightarrow> u8 list" where
  "stat_bytes s =
     to_le 8 (unat (st_dev s)) @ to_le 8 (unat (st_ino s)) @ to_le 4 (unat (st_mode s)) @ to_le 4 (unat (st_nlink s)) @
     to_le 4 (unat (st_uid s)) @ to_le 4 (unat (st_gid s)) @ to_le 8 (unat (st_rdev s)) @ to_le 8 (unat (st_pad1 s)) @
     to_le 8 (unat (st_size s)) @ to_le 4 (unat (st_blksize s)) @ to_le 4 (unat (st_pad2 s)) @ to_le 8 (unat (st_blocks s)) @
     to_le 8 (unat (st_atime s)) @ to_le 8 (unat (st_atime_nsec s)) @ to_le 8 (unat (st_mtime s)) @
     to_le 8 (unat (st_mtime_nsec s)) @ to_le 8 (unat (st_ctime s)) @ to_le 8 (unat (st_ctime_nsec s)) @
     to_le 4 (unat (st_unused4 s)) @ to_le 4 (unat (st_unused5 s))"

definition STAT_DEFAULT_MODE :: u32 where "STAT_DEFAULT_MODE = 0x124"  \<comment> \<open>octal 444\<close>
definition STAT_BLKSIZE :: u32 where "STAT_BLKSIZE = 4096"
definition RDEV_MINOR_BITS :: nat where "RDEV_MINOR_BITS = 8"

definition mode_type :: "file_type \<Rightarrow> u32" where
  "mode_type t = (case t of RegularFile \<Rightarrow> ucast S_IFREG | Directory \<Rightarrow> ucast S_IFDIR
     | CharDevice \<Rightarrow> ucast S_IFCHR | BlockDevice \<Rightarrow> ucast S_IFBLK)"

definition stat_of :: "inode \<Rightarrow> stat" where
  "stat_of i =
     (let s = stat_zeroed\<lparr>st_ino := i_ino i, st_mode := mode_type (i_file_type i) OR STAT_DEFAULT_MODE, st_nlink := 1,
        st_size := word_of_nat (i_len i), st_blksize := STAT_BLKSIZE\<rparr>
      in case i_rdev i of
           None \<Rightarrow> s
         | Some (major, minor) \<Rightarrow> s\<lparr>st_rdev := push_bit RDEV_MINOR_BITS (ucast major) OR ucast minor\<rparr>)"

definition newfstat :: "kernel \<Rightarrow> process_trap_frame \<Rightarrow> (kernel \<times> process_trap_frame) option" where
  "newfstat k tf =
     (case fd_file k (unat (arg tf 0)) of
        None \<Rightarrow> Some (k, set_a0_int tf EBADF)
      | Some f \<Rightarrow> do {
          (m, r) \<leftarrow> copy_out_user (ctx_page_map (k_context k)) (user_mem k) (unat (arg tf 1))
             (stat_bytes (stat_of (inodes (k_vfs k) ! f_inode f)));
          Some (set_mem k m, case r of Inl _ \<Rightarrow> set_a0_int tf EFAULT | Inr _ \<Rightarrow> set_a0 tf 0)
        })"

definition read :: "environment \<Rightarrow> kernel \<Rightarrow> process_trap_frame \<Rightarrow> (kernel \<times> process_trap_frame) option" where
  "read env k tf =
     (let fd = unat (arg tf 0); ubuf = unat (arg tf 1); sz = unat (arg tf 2) in
      case fd_file k fd of
        None \<Rightarrow> Some (k, set_a0_int tf EBADF)
      | Some f \<Rightarrow> do {
          vec_capacity sz;
          (f, r) \<leftarrow> vfs_read (e_device env) (k_vfs k) f sz;
          let k = set_files k ((files_of k)[fd := Some f]);
          (case r of
             Inl _ \<Rightarrow> Some (k, set_a0_int tf EIO)
           | Inr bytes \<Rightarrow>
               if 0 < length bytes then do {
                 (m, r) \<leftarrow> copy_out_user (ctx_page_map (k_context k)) (user_mem k) ubuf bytes;
                 Some (set_mem k m, case r of Inl _ \<Rightarrow> set_a0_int tf EFAULT | Inr _ \<Rightarrow> set_a0 tf (word_of_nat (length bytes)))
               } else Some (k, set_a0 tf (word_of_nat (length bytes))))
        })"

definition close :: "kernel \<Rightarrow> process_trap_frame \<Rightarrow> (kernel \<times> process_trap_frame) option" where
  "close k tf =
     (let fd = unat (arg tf 0) in
      case fd_file k fd of
        Some _ \<Rightarrow> Some (set_files k ((files_of k)[fd := None]), set_a0 tf 0)
      | None \<Rightarrow> Some (k, set_a0_int tf EBADF))"

section \<open>Memory, process and signal calls\<close>

definition user_rw :: page_flags where
  "user_rw = PF_READ OR PF_WRITE OR PF_ACCESSED OR PF_DIRTY OR PF_USER"

definition EXPECTED_PROT :: usize where "EXPECTED_PROT = 0x3"
definition EXPECTED_FLAGS :: usize where "EXPECTED_FLAGS = 0x22"

definition mmap :: "kernel \<Rightarrow> process_trap_frame \<Rightarrow> (kernel \<times> process_trap_frame) option" where
  "mmap k tf =
     (let addr_hint = unat (arg tf 0); len = unat (arg tf 1); prot = unat (arg tf 2); flags = unat (arg tf 3) in
      if addr_hint \<noteq> 0 \<or> len = 0 \<or> prot \<noteq> EXPECTED_PROT \<or> flags \<noteq> EXPECTED_FLAGS
      then Some (k, set_a0 tf (word_of_nat (usize_bound - 1 - 37 + 1)))
      else do {
        let ctx = k_context k;
        sz \<leftarrow> align_up len;
        let virt_addr = mmap_next ctx;
        st \<leftarrow> allocate_and_map_pages_zeroed (k_machine k) (ctx_page_map ctx) virt_addr sz user_rw;
        next \<leftarrow> uadd (mmap_next ctx) sz;
        Some (k\<lparr>k_machine := st, k_context := ctx\<lparr>mmap_next := next\<rparr>\<rparr>, set_a0 tf (word_of_nat virt_addr))
      })"

definition brk :: "kernel \<Rightarrow> process_trap_frame \<Rightarrow> (kernel \<times> process_trap_frame) option" where
  "brk k tf =
     (let sz = unat (arg tf 0); ctx = k_context k in
      if sz \<noteq> 0 then do {
        top \<leftarrow> align_up sz;
        sz \<leftarrow> usub top (heap_end ctx);
        st \<leftarrow> allocate_and_map_pages_zeroed (k_machine k) (ctx_page_map ctx) (heap_end ctx) sz user_rw;
        e \<leftarrow> uadd (heap_end ctx) sz;
        Some (k\<lparr>k_machine := st, k_context := ctx\<lparr>heap_end := e\<rparr>\<rparr>, set_a0 tf (word_of_nat e))
      } else Some (k, set_a0 tf (word_of_nat (heap_end ctx))))"

definition set_tid_address :: "kernel \<Rightarrow> process_trap_frame \<Rightarrow> (kernel \<times> process_trap_frame) option" where
  "set_tid_address k tf = do { t \<leftarrow> current_thread (k_sched k); Some (k, set_a0 tf (word_of_nat (t_id t))) }"

definition gettid :: "kernel \<Rightarrow> process_trap_frame \<Rightarrow> (kernel \<times> process_trap_frame) option" where
  "gettid k tf = do { t \<leftarrow> current_thread (k_sched k); Some (k, set_a0 tf (word_of_nat (t_id t))) }"

definition generic_stub :: "kernel \<Rightarrow> process_trap_frame \<Rightarrow> (kernel \<times> process_trap_frame) option" where
  "generic_stub k tf = Some (k, set_a0 tf 0)"

section \<open>Dispatch\<close>

text \<open>An unknown system call number makes the kernel wait forever.\<close>

definition syscall :: "environment \<Rightarrow> kernel \<Rightarrow> process_trap_frame \<Rightarrow> (kernel \<times> process_trap_frame) option" where
  "syscall env k tf =
     (let n = unat (arg tf 7) in
      if n = 73 \<or> n = 134 \<or> n = 132 \<or> n = 135 then generic_stub k tf
      else if n = 96 then set_tid_address k tf
      else if n = 178 then gettid k tf
      else if n = 222 then mmap k tf
      else if n = 214 then brk k tf
      else if n = 64 then write_call env k tf
      else if n = 56 then openat env k tf
      else if n = 25 then fcntl k tf
      else if n = 80 then newfstat k tf
      else if n = 63 then read env k tf
      else if n = 57 then close k tf
      else None)"

definition handle :: "environment \<Rightarrow> kernel \<Rightarrow> process_trap_frame \<Rightarrow> (kernel \<times> process_trap_frame) option" where
  "handle env k tf = do {
     (k, tf) \<leftarrow> syscall env k tf;
     pc \<leftarrow> uadd (tf_sepc tf) 4;
     Some (k, tf\<lparr>tf_pc := pc\<rparr>)
   }"

text \<open>The trap handler of user mode, with the system calls as its handler of \<open>ecall\<close>.\<close>

definition user_trap_handler ::
  "(kernel \<Rightarrow> kernel option) \<Rightarrow> environment \<Rightarrow> kernel \<Rightarrow> process_trap_frame \<Rightarrow> (kernel \<times> process_trap_frame) option" where
  "user_trap_handler dispatch_irq env k tf = do {
     ((m, k), tf) \<leftarrow> trap_handler dispatch_irq
        (\<lambda>(m, k) tf. do { (k, tf) \<leftarrow> handle env (set_mem k m) tf; Some ((user_mem k, k), tf) })
        (ctx_page_map (k_context k)) (user_mem k, k) tf;
     Some (set_mem k m, tf)
   }"

section \<open>Basic facts\<close>

lemma set_mem_user_mem [simp]: "set_mem k (user_mem k) = k" "user_mem (set_mem k m) = m" "set_mem (set_mem k m) m' = set_mem k m'"
  by (simp_all add: set_mem_def user_mem_def)

lemma set_fields [simp]:
  "k_context (set_mem k m) = k_context k" "user_mem (set_files k fs) = user_mem k" "files_of (set_files k fs) = fs"
  "ctx_page_map (k_context (set_files k fs)) = ctx_page_map (k_context k)"
  by (simp_all add: set_mem_def set_files_def user_mem_def)

lemma fd_file_Some_iff: "fd_file k fd = Some f \<longleftrightarrow> fd < length (files_of k) \<and> files_of k ! fd = Some f"
  by (auto simp: fd_file_def list_get_def split: option.splits)

lemma fd_file_None_iff: "fd_file k fd = None \<longleftrightarrow> length (files_of k) \<le> fd \<or> files_of k ! fd = None"
  by (auto simp: fd_file_def list_get_def split: option.splits if_splits)

lemma fd_file_cong: "files_of k' = files_of k \<Longrightarrow> fd_file k' fd = fd_file k fd"
  by (simp add: fd_file_def)

lemma fd_file_update:
  "files_of k' = (files_of k)[fd := x] \<Longrightarrow> fd < length (files_of k) \<Longrightarrow> fd_file k' j = (if j = fd then x else fd_file k j)"
  by (auto simp: fd_file_def list_get_def split: option.splits)

lemma set_a0_arg [simp]: "set_a0 tf (arg tf 0) = tf"
  by (simp add: set_a0_def arg_def)

lemma set_a0_sepc [simp]: "tf_sepc (set_a0 tf v) = tf_sepc tf"
  by (simp add: set_a0_def)

lemma user_trap_ecall:
  "tf_scause tf = ECALL_FROM_U \<Longrightarrow> user_trap_handler dispatch_irq env k tf = handle env k tf"
  by (auto simp: user_trap_handler_def trap_handler_def is_interrupt_def SCAUSE_INTERRUPT_BIT_def ECALL_FROM_U_def
      STORE_ACCESS_FAULT_def LOAD_PAGE_FAULT_def STORE_PAGE_FAULT_def bind_assoc split: bind_split)

section \<open>Reading a file into user memory\<close>

lemma read_delivers:
  assumes "fd_file k (unat (arg tf 0)) = Some f" "opened_with (e_device env) (k_vfs k) c f" "f_offset f \<le> length c"
    and "unat (arg tf 2) < 2 ^ 63"
    and "user_range (ctx_page_map (k_context k)) (user_mem k) (unat (arg tf 1)) (unat (arg tf 2))"
  shows "\<exists>m' n. read env k tf = Some (set_mem (set_files k ((files_of k)[unat (arg tf 0) := Some (f\<lparr>f_offset := f_offset f + n\<rparr>)])) m',
      set_a0 tf (word_of_nat n)) \<and>
    n \<le> unat (arg tf 2) \<and> n \<le> length c - f_offset f \<and> (0 < n \<or> unat (arg tf 2) = 0 \<or> f_offset f = length c) \<and>
    stored (ctx_page_map (k_context k)) (user_mem k) (unat (arg tf 1)) (take n (drop (f_offset f) c)) m' \<and>
    copy_in_user (ctx_page_map (k_context k)) m' (unat (arg tf 1)) n = Some (Inr (take n (drop (f_offset f) c)))"
proof -
  let ?pm = "ctx_page_map (k_context k)" and ?u = "unat (arg tf 1)"
  obtain n where n: "vfs_read (e_device env) (k_vfs k) f (unat (arg tf 2)) =
      Some (f\<lparr>f_offset := f_offset f + n\<rparr>, Inr (take n (drop (f_offset f) c)))"
      "n \<le> unat (arg tf 2)" "n \<le> length c - f_offset f" "0 < unat (arg tf 2) \<and> f_offset f < length c \<longrightarrow> 0 < n"
    using vfs_read_law[OF assms(2,3)] by blast
  let ?data = "take n (drop (f_offset f) c)"
  let ?k = "set_files k ((files_of k)[unat (arg tf 0) := Some (f\<lparr>f_offset := f_offset f + n\<rparr>)])"
  have len: "length ?data = n" using n(3) by simp
  have cap: "vec_capacity (unat (arg tf 2)) = Some ()" using assms(4) by (simp add: vec_capacity_def)
  have "user_range ?pm (user_mem k) ?u (length ?data)"
    using user_range_prefix[of ?pm "user_mem k" ?u n "unat (arg tf 2) - n"] assms(5) n(2) len by simp
  then obtain m' where m': "copy_out_user ?pm (user_mem k) ?u ?data = Some (m', Inr ())" "stored ?pm (user_mem k) ?u ?data m'"
      "copy_in_user ?pm m' ?u n = Some (Inr ?data)"
    using copy_out_in len by metis
  have "read env k tf = Some (set_mem ?k m', set_a0 tf (word_of_nat n))"
  proof (cases "n = 0")
    case True
    have "m' = user_mem k" using m'(1) True by (simp add: copy_out_user_def copy_out_loop.simps[of _ _ _ "[]"])
    then have "set_mem ?k m' = ?k" using set_mem_user_mem(1)[of ?k] by simp
    then show ?thesis using True assms(1) cap n(1) by (simp add: read_def)
  next
    case False
    then show ?thesis using assms(1) cap n(1,3) m'(1) by (simp add: read_def)
  qed
  then show ?thesis using m'(2,3) n(2-4) assms(3) by (intro exI[of _ m'] exI[of _ n]) auto
qed

text \<open>C38: the system call \<open>read\<close>, from the trap to the return. For a descriptor of a ramfs, procfs or ext2 file and a
  buffer mapped in the process, the trap handler returns after the \<open>ecall\<close> with a count \<open>n\<close> in \<open>a0\<close>; it is at
  most the size asked for and what the file has left, and zero only if one of them is. The next \<open>n\<close> bytes of the file
  are at the buffer's addresses, across page boundaries, where \<open>copy_in_user\<close> finds them; no other byte of memory and
  nothing else of the kernel state changes but the file's offset, which advances by \<open>n\<close>.\<close>

theorem sys_read_delivers:
  assumes "tf_scause tf = ECALL_FROM_U" "arg tf 7 = 63" "tf_sepc tf + 4 < usize_bound"
    and "fd_file k (unat (arg tf 0)) = Some f" "file_data (e_device env) (k_vfs k) f = Some c" "length c < usize_bound"
    and "f_offset f \<le> length c" "unat (arg tf 2) < 2 ^ 63"
    and "user_range (ctx_page_map (k_context k)) (user_mem k) (unat (arg tf 1)) (unat (arg tf 2))"
  shows "\<exists>m' n. user_trap_handler dispatch_irq env k tf =
      Some (set_mem (set_files k ((files_of k)[unat (arg tf 0) := Some (f\<lparr>f_offset := f_offset f + n\<rparr>)])) m',
        (set_a0 tf (word_of_nat n))\<lparr>tf_pc := tf_sepc tf + 4\<rparr>) \<and>
    n \<le> unat (arg tf 2) \<and> n \<le> length c - f_offset f \<and> (0 < n \<or> unat (arg tf 2) = 0 \<or> f_offset f = length c) \<and>
    stored (ctx_page_map (k_context k)) (user_mem k) (unat (arg tf 1)) (take n (drop (f_offset f) c)) m' \<and>
    copy_in_user (ctx_page_map (k_context k)) m' (unat (arg tf 1)) n = Some (Inr (take n (drop (f_offset f) c)))"
proof -
  have "opened_with (e_device env) (k_vfs k) c f" using assms(5,6) by (simp add: opened_with_def)
  from read_delivers[OF assms(4) this assms(7-9)] obtain m' n where r:
    "read env k tf = Some (set_mem (set_files k ((files_of k)[unat (arg tf 0) := Some (f\<lparr>f_offset := f_offset f + n\<rparr>)])) m',
      set_a0 tf (word_of_nat n))"
    "n \<le> unat (arg tf 2)" "n \<le> length c - f_offset f" "0 < n \<or> unat (arg tf 2) = 0 \<or> f_offset f = length c"
    "stored (ctx_page_map (k_context k)) (user_mem k) (unat (arg tf 1)) (take n (drop (f_offset f) c)) m'"
    "copy_in_user (ctx_page_map (k_context k)) m' (unat (arg tf 1)) n = Some (Inr (take n (drop (f_offset f) c)))"
    by blast
  have "user_trap_handler dispatch_irq env k tf = do { (k, tf) \<leftarrow> read env k tf; pc \<leftarrow> uadd (tf_sepc tf) 4; Some (k, tf\<lparr>tf_pc := pc\<rparr>) }"
    using assms(2) by (simp add: user_trap_ecall[OF assms(1)] handle_def syscall_def)
  with r show ?thesis using assms(3) by (intro exI[of _ m'] exI[of _ n]) simp
qed

text \<open>A process with a 1 GiB page at address 0 and one open ramfs file.\<close>

definition demo_user_mem :: mem where
  "demo_user_mem = write_pte (\<lambda>_. 0) 0x80200000 0 (pte_set 0x80000000 (PF_READ OR PF_WRITE))"

definition demo_kernel :: kernel where
  "demo_kernel = \<lparr>k_machine = \<lparr>mmem = demo_user_mem, mpa = pa_new\<rparr>,
     k_vfs = vfs_empty\<lparr>inodes := [\<lparr>i_ino = 2, i_file_type = RegularFile, i_len = 3, i_iops = RAMFS_INODE_OPS,
       i_fops = RAMFS_FILE_OPS, i_sb = None, i_rdev = None, i_fs_data = RamfsFile [7, 8, 9]\<rparr>]\<rparr>,
     k_context = \<lparr>ctx_page_map = 0x80200000, ctx_satp = 0, heap_begin = 0, heap_end = 0, mmap_next = PROCESS_MMAP_START,
       ctx_files = [Some \<lparr>f_fops = RAMFS_FILE_OPS, f_offset = 1, f_inode = 0\<rparr>]\<rparr>,
     k_sched = demo_sched\<rparr>"

definition demo_env :: environment where
  "demo_env = \<lparr>e_device = (\<lambda>_ _. Inl IoError), e_strong_count = (\<lambda>_. 1), e_writer_tid = 0, e_resumed = Some\<rparr>"

definition demo_ecall :: "u64 \<Rightarrow> process_trap_frame" where
  "demo_ecall n = \<lparr>tf_registers = (replicate 31 0)[10 := 0x1000, 11 := 2, 16 := n], tf_pc = 0, tf_sepc = 0x400,
     tf_sstatus = 0, tf_stval = 0, tf_scause = ECALL_FROM_U, tf_satp = 0\<rparr>"

lemma demo_user_pte:
  "i < 512 \<Longrightarrow> read_pte demo_user_mem 0x80200000 i = (if i = 0 then pte_set 0x80000000 (PF_READ OR PF_WRITE) else 0)"
proof -
  assume "i < 512"
  moreover have "zero_page (\<lambda>_. 0) 0x80200000 = (\<lambda>_. 0)" by (simp add: zero_page_def)
  ultimately have "read_pte (\<lambda>_. 0) 0x80200000 i = 0" using read_zero_page[of i "\<lambda>_. 0" "0x80200000"] by simp
  with \<open>i < 512\<close> show ?thesis
    using read_write_pte_other[of "0x80200000" "0x80200000" 0 i "\<lambda>_. 0"] by (simp add: demo_user_mem_def)
qed

lemma demo_leaf:
  "pf_intersects (PF_READ OR PF_WRITE) (PF_READ OR PF_WRITE OR PF_EXECUTE)"
  "pte_addr (pte_set 0x80000000 (PF_READ OR PF_WRITE)) = 0x80000000"
  by (simp add: pf_intersects_def pf_defs, rule pte_addr_set) (simp_all add: pf_defs ppn_bits_def)

lemma demo_translation: "v < 0x4000 \<Longrightarrow> virt_to_phys demo_user_mem 0x80200000 v = Some (0x80000000 + v)"
proof -
  assume v: "v < 0x4000"
  then have "vpn2 v = 0" by (simp add: vpn_eqs)
  then show ?thesis using v page_and_offset[of "0x80000000" 14 v]
    by (simp add: virt_to_phys_def demo_user_pte demo_leaf usize_bound_def Let_def)
qed

lemma demo_tables: "table_bytes demo_user_mem 0x80200000 = {0x80200000..<0x80201000}"
proof -
  have one: "t = 0x80200000" if "tbl demo_user_mem 0x80200000 p = Some t" "idx_ok p" for p t
    using that by (cases p) (auto simp: demo_user_pte demo_leaf split: if_splits)
  show ?thesis by (auto simp: table_bytes_def dest!: one intro!: exI[of _ "[]"])
qed

lemma demo_user_range: "n \<le> 2 \<Longrightarrow> user_range 0x80200000 demo_user_mem 0x1000 n"
  by (auto simp: user_range_def demo_translation demo_tables usize_bound_def)

theorem sys_read_delivers_witness:
  "\<exists>k' n. user_trap_handler Some demo_env demo_kernel (demo_ecall 63) =
      Some (k', (set_a0 (demo_ecall 63) (word_of_nat n))\<lparr>tf_pc := 0x404\<rparr>) \<and> 0 < n \<and>
     copy_in_user 0x80200000 (user_mem k') 0x1000 n = Some (Inr (take n [8, 9]))"
proof -
  have a: "arg (demo_ecall 63) 0 = 0" "arg (demo_ecall 63) 1 = 0x1000" "arg (demo_ecall 63) 2 = 2" "arg (demo_ecall 63) 7 = 63"
    "tf_scause (demo_ecall 63) = ECALL_FROM_U" "tf_sepc (demo_ecall 63) = 0x400"
    by (simp_all add: arg_def demo_ecall_def)
  have k: "user_mem demo_kernel = demo_user_mem" "ctx_page_map (k_context demo_kernel) = 0x80200000"
    "fd_file demo_kernel 0 = Some \<lparr>f_fops = RAMFS_FILE_OPS, f_offset = 1, f_inode = 0\<rparr>"
    "file_data (e_device demo_env) (k_vfs demo_kernel) \<lparr>f_fops = RAMFS_FILE_OPS, f_offset = 1, f_inode = 0\<rparr> = Some [7, 8, 9]"
    by (simp_all add: demo_kernel_def user_mem_def fd_file_def list_get_def file_data_def)
  show ?thesis
    using sys_read_delivers[of "demo_ecall 63" demo_kernel _ demo_env _ Some, OF a(5,4)] a k demo_user_range[of 2]
    by (fastforce simp: usize_bound_def)
qed

section \<open>What a system call can change\<close>

definition ctx_kept :: "process_context \<Rightarrow> process_context \<Rightarrow> bool" where
  "ctx_kept c c' \<longleftrightarrow> ctx_page_map c' = ctx_page_map c \<and> ctx_satp c' = ctx_satp c \<and> heap_begin c' = heap_begin c \<and>
     heap_end c \<le> heap_end c' \<and> mmap_next c \<le> mmap_next c'"

text \<open>
  The descriptors a call may change: \<open>read\<close> and \<open>close\<close> the one they are given, \<open>openat\<close> the lowest free one,
  which it returns.
\<close>

definition fd_may_change :: "kernel \<Rightarrow> process_trap_frame \<Rightarrow> u64 \<Rightarrow> usize \<Rightarrow> bool" where
  "fd_may_change k tf v j \<longleftrightarrow>
     (arg tf 7 = 63 \<or> arg tf 7 = 57) \<and> j = unat (arg tf 0) \<or>
     arg tf 7 = 56 \<and> fd_file k j = None \<and> (\<forall>i < j. fd_file k i \<noteq> None) \<and> v = word_of_nat j"

definition call_ok :: "kernel \<Rightarrow> process_trap_frame \<Rightarrow> kernel \<Rightarrow> process_trap_frame \<Rightarrow> bool" where
  "call_ok k tf k' tf' \<longleftrightarrow> (\<exists>v. tf' = set_a0 tf v \<and> ctx_kept (k_context k) (k_context k') \<and>
     (\<forall>j. fd_file k' j = fd_file k j \<or> fd_may_change k tf v j))"

lemma call_ok_same_ctx: "k_context k' = k_context k \<Longrightarrow> call_ok k tf k' (set_a0 tf v)"
  by (auto simp: call_ok_def ctx_kept_def fd_file_def)

lemma place_file_fd:
  assumes "place_file (files_of k) f = (fs, fd)" "files_of k' = fs"
  shows "fd_file k fd = None" "\<forall>i < fd. fd_file k i \<noteq> None" "j \<noteq> fd \<Longrightarrow> fd_file k' j = fd_file k j"
proof -
  consider "position (\<lambda>slot. slot = None) (files_of k) = Some fd" "fs = (files_of k)[fd := Some f]"
    | "\<forall>x \<in> set (files_of k). x \<noteq> None" "fd = length (files_of k)" "fs = files_of k @ [Some f]"
    using assms(1) by (auto simp: place_file_def split: option.splits)
  then show "fd_file k fd = None" "\<forall>i < fd. fd_file k i \<noteq> None" "j \<noteq> fd \<Longrightarrow> fd_file k' j = fd_file k j"
    by (cases; use assms(2) in \<open>auto simp: fd_file_def list_get_def nth_append dest!: position_SomeD split: option.splits if_splits\<close>)+
qed

lemma call_ok_fd:
  assumes "k_context k' = (k_context k)\<lparr>ctx_files := (files_of k)[unat (arg tf 0) := x]\<rparr>" "fd_file k (unat (arg tf 0)) = Some f"
    "arg tf 7 = 63 \<or> arg tf 7 = 57"
  shows "call_ok k tf k' (set_a0 tf v)"
  using assms fd_file_update[of k' k "unat (arg tf 0)" x] unfolding call_ok_def ctx_kept_def fd_may_change_def
  by (intro exI[of _ v]) (auto simp: fd_file_Some_iff)

lemma write_call_ok:
  assumes "write_call env k tf = Some (k', tf')" "\<forall>a b. e_resumed env a = Some b \<longrightarrow> k_context b = k_context a"
  shows "call_ok k tf k' tf'"
proof -
  from assms(1) obtain r where r: "sys_write env k (unat (arg tf 0)) (unat (arg tf 1)) (unat (arg tf 2)) = Some (k', r)" "tf' = set_a0_int tf r"
    by (auto simp: write_call_def bind_eq_Some_conv)
  have "k_context k' = k_context k"
    using r(1) assms(2) by (auto simp: sys_write_def branch_Some split_beta split: sum.split_asm)
  then show ?thesis using r(2) call_ok_same_ctx by (simp add: set_a0_int_def)
qed

lemma openat_ok:
  assumes "openat env k tf = Some (k', tf')" "arg tf 7 = 56"
  shows "call_ok k tf k' tf'"
proof -
  from assms(1) consider "k_context k' = k_context k" "\<exists>v. tf' = set_a0 tf v"
    | v f where "k' = set_files (k\<lparr>k_vfs := v\<rparr>) (fst (place_file (files_of k) f))" "tf' = set_a0 tf (word_of_nat (snd (place_file (files_of k) f)))"
    by (auto simp: openat_def branch_Some set_a0_int_def split_beta Let_def) blast+
  then show ?thesis
  proof cases
    case 2
    obtain fs fd where pf: "place_file (files_of k) f = (fs, fd)" by (rule prod.exhaust)
    have "files_of k' = fs" using 2(1) pf by simp
    note p = place_file_fd[OF pf this]
    have "ctx_kept (k_context k) (k_context k')" using 2(1) by (simp add: ctx_kept_def set_files_def)
    moreover have "fd_file k' j = fd_file k j \<or> fd_may_change k tf (word_of_nat fd) j" for j
      using p assms(2) by (cases "j = fd") (simp_all add: fd_may_change_def)
    ultimately show ?thesis using 2(2) pf by (auto simp: call_ok_def)
  qed (use call_ok_same_ctx in blast)
qed

lemma read_ok:
  assumes "read env k tf = Some (k', tf')" "arg tf 7 = 63"
  shows "call_ok k tf k' tf'"
proof (cases "fd_file k (unat (arg tf 0))")
  case None
  then show ?thesis using assms(1) call_ok_same_ctx[of k k] by (auto simp: read_def set_a0_int_def)
next
  case (Some f)
  have "\<exists>x v. k_context k' = (k_context k)\<lparr>ctx_files := (files_of k)[unat (arg tf 0) := x]\<rparr> \<and> tf' = set_a0 tf v"
    using assms(1) Some
    by (auto simp: read_def branch_Some set_a0_int_def set_files_def set_mem_def Let_def sum.case_eq_if split: if_split_asm)
  then show ?thesis using call_ok_fd Some assms(2) by blast
qed

lemma close_ok: "close k tf = Some (k', tf') \<Longrightarrow> arg tf 7 = 57 \<Longrightarrow> call_ok k tf k' tf'"
  by (cases "fd_file k (unat (arg tf 0))")
    (auto simp: close_def set_a0_int_def Let_def set_files_def intro: call_ok_same_ctx call_ok_fd)

lemma newfstat_ok: "newfstat k tf = Some (k', tf') \<Longrightarrow> call_ok k tf k' tf'"
proof -
  assume "newfstat k tf = Some (k', tf')"
  then have "k_context k' = k_context k \<and> (\<exists>v. tf' = set_a0 tf v)"
    by (auto simp: newfstat_def branch_Some set_a0_int_def sum.case_eq_if)
  then show ?thesis using call_ok_same_ctx by blast
qed

lemma mmap_ok: "mmap k tf = Some (k', tf') \<Longrightarrow> call_ok k tf k' tf'"
  by (auto simp: mmap_def branch_Some Let_def call_ok_def ctx_kept_def fd_file_def dest!: uadd_SomeD split: if_split_asm)

lemma brk_ok: "brk k tf = Some (k', tf') \<Longrightarrow> call_ok k tf k' tf'"
  by (auto simp: brk_def branch_Some Let_def call_ok_def ctx_kept_def fd_file_def dest!: uadd_SomeD split: if_split_asm)

lemma fcntl_ok: "fcntl k tf = Some (k', tf') \<Longrightarrow> call_ok k tf k' tf'"
  using call_ok_same_ctx[of k k tf "arg tf 0"] by (auto simp: fcntl_def)

lemma simple_calls_ok:
  "generic_stub k tf = Some (k', tf') \<Longrightarrow> call_ok k tf k' tf'"
  "set_tid_address k tf = Some (k', tf') \<Longrightarrow> call_ok k tf k' tf'"
  "gettid k tf = Some (k', tf') \<Longrightarrow> call_ok k tf k' tf'"
  by (auto simp: generic_stub_def set_tid_address_def gettid_def bind_eq_Some_conv call_ok_same_ctx)

lemmas calls_ok = write_call_ok openat_ok read_ok close_ok newfstat_ok mmap_ok brk_ok fcntl_ok simple_calls_ok

lemma arg_eq: "unat (arg tf n) = unat c \<Longrightarrow> arg tf n = c"
  by (simp add: word_unat_eq_iff)

lemma syscall_ok:
  assumes "syscall env k tf = Some (k', tf')" "\<forall>a b. e_resumed env a = Some b \<longrightarrow> k_context b = k_context a"
  shows "call_ok k tf k' tf'"
  using assms arg_eq[of tf 7 56] arg_eq[of tf 7 63] arg_eq[of tf 7 57]
  unfolding syscall_def Let_def by (auto intro: calls_ok split: if_split_asm)

text \<open>C39: what a system call can change in the process that makes it. Of the saved registers only \<open>a0\<close>, and the
  program counter is set behind the \<open>ecall\<close>; the address space stays the same one, heap and mapping area never shrink; and
  of the open files \<open>read\<close> and \<open>close\<close> touch the descriptor they are given, \<open>openat\<close> takes the lowest free descriptor and
  returns it, and no other call touches any. While the caller has yielded, the other threads leave its process context alone.\<close>

theorem syscall_isolation:
  assumes "handle env k tf = Some (k', tf')" "\<forall>a b. e_resumed env a = Some b \<longrightarrow> k_context b = k_context a"
  shows "\<exists>v. tf' = (set_a0 tf v)\<lparr>tf_pc := tf_sepc tf + 4\<rparr> \<and> ctx_kept (k_context k) (k_context k') \<and>
    (\<forall>j. fd_file k' j = fd_file k j \<or> fd_may_change k tf v j)"
proof -
  from assms(1) obtain tf1 where s: "syscall env k tf = Some (k', tf1)" "tf' = tf1\<lparr>tf_pc := tf_sepc tf1 + 4\<rparr>"
    by (auto simp: handle_def bind_eq_Some_conv dest!: uadd_SomeD)
  then show ?thesis using syscall_ok[OF s(1) assms(2)] by (auto simp: call_ok_def)
qed

theorem syscall_isolation_witness:
  "\<exists>k' v. handle demo_env demo_kernel (demo_ecall 57) = Some (k', (set_a0 (demo_ecall 57) v)\<lparr>tf_pc := 0x404\<rparr>) \<and>
     fd_file k' 1 = None \<and> ctx_page_map (k_context k') = 0x80200000"
proof -
  have "fd_file demo_kernel 0 \<noteq> None" by (simp add: demo_kernel_def fd_file_def list_get_def)
  then obtain k' tf' where h: "handle demo_env demo_kernel (demo_ecall 57) = Some (k', tf')"
    by (auto simp: handle_def syscall_def arg_def demo_ecall_def close_def set_a0_def usize_bound_def)
  have "\<forall>a b. e_resumed demo_env a = Some b \<longrightarrow> k_context b = k_context a" by (simp add: demo_env_def)
  from syscall_isolation[OF h this] obtain v where v: "tf' = (set_a0 (demo_ecall 57) v)\<lparr>tf_pc := tf_sepc (demo_ecall 57) + 4\<rparr>"
    "ctx_kept (k_context demo_kernel) (k_context k')" "fd_file k' 1 = fd_file demo_kernel 1 \<or> fd_may_change demo_kernel (demo_ecall 57) v 1"
    by blast
  have "\<not> fd_may_change demo_kernel (demo_ecall 57) v 1" by (simp add: fd_may_change_def arg_def demo_ecall_def)
  moreover have "fd_file demo_kernel 1 = None" by (simp add: demo_kernel_def fd_file_def list_get_def)
  moreover have "tf_sepc (demo_ecall 57) = 0x400" "ctx_page_map (k_context demo_kernel) = 0x80200000"
    by (simp_all add: demo_ecall_def demo_kernel_def)
  ultimately show ?thesis using h v by (intro exI[of _ k'] exI[of _ v]) (simp add: ctx_kept_def)
qed

end
