(* ===== verification/Initramfs.thy ===== *)
theory Initramfs
  imports Ramfs
begin

text \<open>
  The initial RAM file system (\<open>src/fs/initramfs.rs\<close>): a CPIO archive in the "newc" format, unpacked into a
  ramfs at boot. The loop advances by at least a header per round, so it ends on any input; slices out of
  range panic. The theorem compares it with a writer of the format: unpacking what was packed performs the
  insertions of the entries in order.
\<close>

unbundle bit_operations_syntax

section \<open>Constants\<close>

definition CPIO_MAGIC :: "u8 list" where "CPIO_MAGIC = [0x30, 0x37, 0x30, 0x37, 0x30, 0x31]"  \<comment> \<open>\<open>070701\<close>\<close>
definition CPIO_MAGIC_LEN :: usize where "CPIO_MAGIC_LEN = 6"
definition CPIO_HEADER_SIZE :: usize where "CPIO_HEADER_SIZE = 110"
definition CPIO_ALIGN :: usize where "CPIO_ALIGN = 4"
definition CPIO_FIELD_WIDTH :: usize where "CPIO_FIELD_WIDTH = 8"
definition CPIO_MODE_OFFSET :: usize where "CPIO_MODE_OFFSET = 14"
definition CPIO_FILESIZE_OFFSET :: usize where "CPIO_FILESIZE_OFFSET = 54"
definition CPIO_RDEVMAJOR_OFFSET :: usize where "CPIO_RDEVMAJOR_OFFSET = 78"
definition CPIO_RDEVMINOR_OFFSET :: usize where "CPIO_RDEVMINOR_OFFSET = 86"
definition CPIO_NAMESIZE_OFFSET :: usize where "CPIO_NAMESIZE_OFFSET = 94"

lemmas cpio_consts = CPIO_MAGIC_def CPIO_MAGIC_LEN_def CPIO_HEADER_SIZE_def CPIO_ALIGN_def CPIO_FIELD_WIDTH_def
  CPIO_MODE_OFFSET_def CPIO_FILESIZE_OFFSET_def CPIO_RDEVMAJOR_OFFSET_def CPIO_RDEVMINOR_OFFSET_def CPIO_NAMESIZE_OFFSET_def

section \<open>Parsing\<close>

definition cpio_align_up :: "usize \<Rightarrow> usize \<Rightarrow> usize option" where
  "cpio_align_up x align = do {
     a \<leftarrow> uadd x align;
     b \<leftarrow> usub a 1;
     c \<leftarrow> usub align 1;
     Some (b AND unot c)
   }"

text \<open>\<open>usize::from_str_radix(_, 16)\<close>: an optional plus sign and at least one digit, without overflow.\<close>

definition hex_digit :: "nat \<Rightarrow> nat option" where
  "hex_digit c =
     (if 0x30 \<le> c \<and> c \<le> 0x39 then Some (c - 0x30)
      else if 0x61 \<le> c \<and> c \<le> 0x66 then Some (c - 0x61 + 10)
      else if 0x41 \<le> c \<and> c \<le> 0x46 then Some (c - 0x41 + 10)
      else None)"

fun hex_digits :: "usize \<Rightarrow> nat list \<Rightarrow> usize option" where
  "hex_digits acc [] = Some acc"
| "hex_digits acc (c # cs) = do { a \<leftarrow> umul acc 16; d \<leftarrow> hex_digit c; a \<leftarrow> uadd a d; hex_digits a cs }"

definition from_str_radix16 :: "nat list \<Rightarrow> usize option" where
  "from_str_radix16 cs =
     (if cs = [] \<or> cs = [0x2b] \<or> cs = [0x2d] then None
      else hex_digits 0 (if hd cs = 0x2b then tl cs else cs))"

definition parse_hex :: "u8 list \<Rightarrow> usize" where
  "parse_hex bytes =
     (let s = (case from_utf8 bytes of None \<Rightarrow> [0x30] | Some _ \<Rightarrow> map unat bytes) in
      case from_str_radix16 s of None \<Rightarrow> 0 | Some n \<Rightarrow> n)"

definition hdr_field :: "u8 list \<Rightarrow> usize \<Rightarrow> usize option" where
  "hdr_field hdr off = map_option parse_hex (slice hdr off (off + CPIO_FIELD_WIDTH))"

section \<open>Unpacking\<close>

text \<open>The insertion of one entry; the result of the insertion is discarded.\<close>

definition insert_entry ::
  "u8 list \<Rightarrow> u8 list \<Rightarrow> u16 \<Rightarrow> string \<Rightarrow> usize \<Rightarrow> usize \<Rightarrow> ramfs \<Rightarrow> istore \<Rightarrow> (ramfs \<times> istore) option" where
  "insert_entry cpio hdr mode filename data_start data_end r st =
     (let fmt = mode AND S_IFMT in
      map_option (\<lambda>(r, st, _). (r, st))
       (if fmt = S_IFDIR then insert_dir r st filename
        else if fmt = S_IFCHR then do {
          rdevmajor \<leftarrow> hdr_field hdr CPIO_RDEVMAJOR_OFFSET;
          rdevminor \<leftarrow> hdr_field hdr CPIO_RDEVMINOR_OFFSET;
          insert_chardev r st filename (word_of_nat rdevmajor) (word_of_nat rdevminor)
        }
        else if fmt = S_IFBLK then do {
          rdevmajor \<leftarrow> hdr_field hdr CPIO_RDEVMAJOR_OFFSET;
          rdevminor \<leftarrow> hdr_field hdr CPIO_RDEVMINOR_OFFSET;
          insert_blockdev r st filename (word_of_nat rdevmajor) (word_of_nat rdevminor)
        }
        else do { data \<leftarrow> slice cpio data_start data_end; insert_file r st filename data }))"

text \<open>One round of the loop: the new position, or \<open>None\<close> after a \<open>break\<close>.\<close>

definition unpack_step :: "u8 list \<Rightarrow> usize \<Rightarrow> ramfs \<Rightarrow> istore \<Rightarrow> (usize option \<times> ramfs \<times> istore) option" where
  "unpack_step cpio pos r st = do {
     hdr \<leftarrow> slice cpio pos (length cpio);
     magic \<leftarrow> slice hdr 0 CPIO_MAGIC_LEN;
     if magic \<noteq> CPIO_MAGIC then Some (None, r, st)
     else do {
       mode \<leftarrow> hdr_field hdr CPIO_MODE_OFFSET;
       filesize \<leftarrow> hdr_field hdr CPIO_FILESIZE_OFFSET;
       namesize \<leftarrow> hdr_field hdr CPIO_NAMESIZE_OFFSET;
       name_start \<leftarrow> uadd pos CPIO_HEADER_SIZE;
       name_end \<leftarrow> uadd name_start namesize;
       name_last \<leftarrow> usub name_end 1;
       bytes \<leftarrow> slice cpio name_start name_last;
       (case from_utf8 bytes of
          None \<Rightarrow> Some (None, r, st)
        | Some filename \<Rightarrow>
            if filename = ''TRAILER!!!'' then Some (None, r, st)
            else do {
              data_start \<leftarrow> cpio_align_up name_end CPIO_ALIGN;
              data_end \<leftarrow> uadd data_start filesize;
              (r, st) \<leftarrow> insert_entry cpio hdr (word_of_nat mode) filename data_start data_end r st;
              pos \<leftarrow> cpio_align_up data_end CPIO_ALIGN;
              Some (Some pos, r, st)
            })
     }
   }"

lemma cpio_align_up_le: "cpio_align_up x CPIO_ALIGN = Some y \<Longrightarrow> x \<le> y"
proof -
  assume a: "cpio_align_up x CPIO_ALIGN = Some y"
  then have y: "y = (x + 3) AND unot 3" "x + 4 < usize_bound"
    by (auto simp: cpio_align_up_def CPIO_ALIGN_def bind_eq_Some_conv uadd_def usub_def add.commute split: if_splits)
  then have "y = (x + 3) div 4 * 4" using and_unot_mask[of "x + 3" 2] by simp
  then show ?thesis by presburger
qed

lemma unpack_step_advances:
  assumes "unpack_step cpio pos r st = Some (Some pos', r', st')"
  shows "pos + CPIO_HEADER_SIZE \<le> pos'"
proof -
  from assms obtain name_start namesize name_end data_start data_end filesize where
    "uadd pos CPIO_HEADER_SIZE = Some name_start" "uadd name_start namesize = Some name_end" "cpio_align_up name_end CPIO_ALIGN = Some data_start"
    "uadd data_start filesize = Some data_end" "cpio_align_up data_end CPIO_ALIGN = Some pos'"
    by (auto simp: unpack_step_def branch_Some split: if_split_asm)
  then show ?thesis by (auto dest!: uadd_SomeD cpio_align_up_le)
qed

function unpack_loop :: "u8 list \<Rightarrow> usize \<Rightarrow> ramfs \<Rightarrow> istore \<Rightarrow> (ramfs \<times> istore) option" where
  "unpack_loop cpio pos r st = do {
     e \<leftarrow> uadd pos CPIO_HEADER_SIZE;
     if e \<le> length cpio then
       (case unpack_step cpio pos r st of
          None \<Rightarrow> None
        | Some (None, r, st) \<Rightarrow> Some (r, st)
        | Some (Some pos, r, st) \<Rightarrow> unpack_loop cpio pos r st)
     else Some (r, st)
   }"
  by pat_completeness auto
termination
  by (relation "measure (\<lambda>(cpio, pos, r, st). length cpio - pos)")
    (auto dest!: unpack_step_advances uadd_SomeD simp: CPIO_HEADER_SIZE_def)

declare unpack_loop.simps [simp del]

definition unpack_cpio :: "ramfs \<Rightarrow> istore \<Rightarrow> u8 list \<Rightarrow> (ramfs \<times> istore) option" where
  "unpack_cpio r st cpio = unpack_loop cpio 0 r st"

text \<open>\<open>initramfs::new\<close>, with the addresses of the archive from the device tree; the result is the superblock's root.\<close>

definition initramfs_new :: "mem \<Rightarrow> usize \<Rightarrow> usize \<Rightarrow> istore \<Rightarrow> (istore \<times> inode_ref) option" where
  "initramfs_new m initrd_start initrd_end st = do {
     len \<leftarrow> usub initrd_end initrd_start;
     let cpio = load_bytes len m initrd_start;
     let (st, r) = ramfs_new st;
     (r, st) \<leftarrow> unpack_cpio r st cpio;
     Some (st, r_root r)
   }"

section \<open>A writer of the format\<close>

definition hex_char :: "nat \<Rightarrow> nat" where
  "hex_char d = (if d < 10 then 0x30 + d else 0x61 + (d - 10))"

fun hex_field :: "nat \<Rightarrow> nat \<Rightarrow> nat list" where
  "hex_field 0 n = []"
| "hex_field (Suc k) n = hex_field k (n div 16) @ [hex_char (n mod 16)]"

definition hex8 :: "nat \<Rightarrow> u8 list" where
  "hex8 n = map word_of_nat (hex_field 8 n)"

record cpio_entry =
  ce_name :: string
  ce_mode :: u16
  ce_major :: u32
  ce_minor :: u32
  ce_data :: "u8 list"

definition pad4 :: "nat \<Rightarrow> u8 list" where
  "pad4 n = replicate ((4 - n mod 4) mod 4) 0"

definition cpio_header :: "cpio_entry \<Rightarrow> u8 list" where
  "cpio_header e = CPIO_MAGIC @ hex8 0 @ hex8 (unat (ce_mode e)) @ hex8 0 @ hex8 0 @ hex8 1 @ hex8 0 @
     hex8 (length (ce_data e)) @ hex8 0 @ hex8 0 @ hex8 (unat (ce_major e)) @ hex8 (unat (ce_minor e)) @
     hex8 (length (ce_name e) + 1) @ hex8 0"

definition entry_bytes :: "cpio_entry \<Rightarrow> u8 list" where
  "entry_bytes e = cpio_header e @ as_bytes (ce_name e) @ [0] @ pad4 (110 + (length (ce_name e) + 1)) @
     ce_data e @ pad4 (length (ce_data e))"

definition trailer :: cpio_entry where
  "trailer = \<lparr>ce_name = ''TRAILER!!!'', ce_mode = 0, ce_major = 0, ce_minor = 0, ce_data = []\<rparr>"

definition archive :: "cpio_entry list \<Rightarrow> u8 list" where
  "archive es = concat (map entry_bytes es) @ entry_bytes trailer"

text \<open>What the format can hold: a valid name, and sizes of 32 bits.\<close>

definition entry_ok :: "cpio_entry \<Rightarrow> bool" where
  "entry_ok e \<longleftrightarrow> utf8_valid (map unat (as_bytes (ce_name e))) \<and> length (ce_name e) + 1 < 2 ^ 32 \<and> length (ce_data e) < 2 ^ 32"

definition insert_of :: "cpio_entry \<Rightarrow> ramfs \<Rightarrow> istore \<Rightarrow> (ramfs \<times> istore) option" where
  "insert_of e r st =
     (let fmt = ce_mode e AND S_IFMT in
      map_option (\<lambda>(r, st, _). (r, st))
       (if fmt = S_IFDIR then insert_dir r st (ce_name e)
        else if fmt = S_IFCHR then insert_chardev r st (ce_name e) (ce_major e) (ce_minor e)
        else if fmt = S_IFBLK then insert_blockdev r st (ce_name e) (ce_major e) (ce_minor e)
        else insert_file r st (ce_name e) (ce_data e)))"

definition insert_all :: "cpio_entry list \<Rightarrow> ramfs \<times> istore \<Rightarrow> (ramfs \<times> istore) option" where
  "insert_all es = ofold (\<lambda>e (r, st). insert_of e r st) es"

section \<open>Parsing what was written\<close>

lemma hex_field_length [simp]: "length (hex_field k n) = k"
  by (induction k arbitrary: n) auto

lemma hex8_length [simp]: "length (hex8 n) = 8"
  by (simp add: hex8_def)

lemma hex_digits_append: "hex_digits acc (xs @ ys) = Option.bind (hex_digits acc xs) (\<lambda>a. hex_digits a ys)"
  by (induction xs arbitrary: acc) (auto simp: bind_assoc split: bind_split)

lemma hex_digit_char: "d < 16 \<Longrightarrow> hex_digit (hex_char d) = Some d"
  by (simp add: hex_digit_def hex_char_def)

lemma hex_digits_field: "n < 16 ^ k \<Longrightarrow> n < usize_bound \<Longrightarrow> hex_digits 0 (hex_field k n) = Some n"
proof (induction k arbitrary: n)
  case (Suc k)
  have "n div 16 < 16 ^ k" "n div 16 < usize_bound" using Suc.prems by (simp_all add: less_mult_imp_div_less mult.commute)
  then have "hex_digits 0 (hex_field k (n div 16)) = Some (n div 16)" by (rule Suc.IH)
  moreover have "n div 16 * 16 + n mod 16 = n" by simp
  then have "umul (n div 16) 16 = Some (n div 16 * 16)" "uadd (n div 16 * 16) (n mod 16) = Some n"
    using Suc.prems(2) by (simp_all add: umul_def uadd_def)
  ultimately show ?case by (simp add: hex_digits_append hex_digit_char)
qed simp

lemma hex_field_chars: "c \<in> set (hex_field k n) \<Longrightarrow> 0x30 \<le> c \<and> c < 0x67"
  by (induction k arbitrary: n) (auto simp: hex_char_def)

lemma unat_bytes: "\<forall>x \<in> set xs. x < 256 \<Longrightarrow> map unat (map word_of_nat xs :: u8 list) = xs"
  by (induction xs) (simp_all add: unat_of_nat)

lemma from_str_radix16_field:
  assumes "n < 16 ^ k" "n < usize_bound" "2 \<le> k"
  shows "from_str_radix16 (hex_field k n) = Some n"
proof -
  have ne: "hex_field k n \<noteq> []" "length (hex_field k n) \<noteq> 1" using assms(3) hex_field_length[of k n] by (fastforce simp del: hex_field_length)+
  then have "hex_field k n \<noteq> [c]" for c by fastforce
  moreover have "hd (hex_field k n) \<noteq> 0x2b" using hex_field_chars[OF hd_in_set[OF ne(1)]] by linarith
  ultimately show ?thesis using ne(1) hex_digits_field[OF assms(1,2)] by (simp add: from_str_radix16_def)
qed

lemma parse_hex8:
  assumes "n < 2 ^ 32"
  shows "parse_hex (hex8 n) = n"
proof -
  define k where "k = (8 :: nat)"
  have n: "n < 16 ^ k" "n < usize_bound" "2 \<le> k" using assms by (simp_all add: k_def usize_bound_def)
  have "\<forall>x \<in> set (hex_field k n). x < 256" using hex_field_chars[of _ k n] by fastforce
  then have "map unat (hex8 n) = hex_field k n" by (simp add: hex8_def k_def[symmetric] unat_bytes del: map_map)
  moreover have "utf8_valid (hex_field k n)" using hex_field_chars[of _ k n] by (intro ascii_utf8) fastforce
  ultimately show ?thesis using from_str_radix16_field[OF n] by (simp add: parse_hex_def from_utf8_def)
qed

lemma to_str_as_bytes [simp]: "to_str (as_bytes s) = s"
  by (induction s) (auto simp: as_bytes_def to_str_def unat_of_nat take_bit_eq_mod)

lemma cpio_header_length [simp]: "length (cpio_header e) = 110"
  by (simp add: cpio_header_def CPIO_MAGIC_def)

lemma header_fields:
  assumes "entry_ok e"
  shows "slice (cpio_header e @ ys) 0 CPIO_MAGIC_LEN = Some CPIO_MAGIC"
    "hdr_field (cpio_header e @ ys) CPIO_MODE_OFFSET = Some (unat (ce_mode e))"
    "hdr_field (cpio_header e @ ys) CPIO_FILESIZE_OFFSET = Some (length (ce_data e))"
    "hdr_field (cpio_header e @ ys) CPIO_NAMESIZE_OFFSET = Some (length (ce_name e) + 1)"
    "hdr_field (cpio_header e @ ys) CPIO_RDEVMAJOR_OFFSET = Some (unat (ce_major e))"
    "hdr_field (cpio_header e @ ys) CPIO_RDEVMINOR_OFFSET = Some (unat (ce_minor e))"
proof -
  have len: "length (ce_data e) < 2 ^ 32" "length (ce_name e) + 1 < 2 ^ 32" using assms by (simp_all add: entry_ok_def)
  have m: "unat (ce_mode e) < 2 ^ 32" by (rule order.strict_trans2[OF unsigned_less]) simp
  have d: "unat (ce_major e) < 2 ^ 32" "unat (ce_minor e) < 2 ^ 32"
    by (rule order.strict_trans2[OF unsigned_less], simp)+
  have l: "110 \<le> length (cpio_header e @ ys)" by simp
  note field = hdr_field_def slice_def cpio_header_def cpio_consts
  show "slice (cpio_header e @ ys) 0 CPIO_MAGIC_LEN = Some CPIO_MAGIC" by (simp add: field)
  show "hdr_field (cpio_header e @ ys) CPIO_MODE_OFFSET = Some (unat (ce_mode e))" using parse_hex8[OF m] by (simp add: field)
  show "hdr_field (cpio_header e @ ys) CPIO_FILESIZE_OFFSET = Some (length (ce_data e))" using parse_hex8[OF len(1)] by (simp add: field)
  show "hdr_field (cpio_header e @ ys) CPIO_NAMESIZE_OFFSET = Some (length (ce_name e) + 1)" using parse_hex8[OF len(2)] by (simp add: field)
  show "hdr_field (cpio_header e @ ys) CPIO_RDEVMAJOR_OFFSET = Some (unat (ce_major e))" using parse_hex8[OF d(1)] by (simp add: field)
  show "hdr_field (cpio_header e @ ys) CPIO_RDEVMINOR_OFFSET = Some (unat (ce_minor e))" using parse_hex8[OF d(2)] by (simp add: field)
qed

lemma round_up_4: "(k + 3) div 4 * 4 = k + (4 - k mod 4) mod (4 :: nat)"
proof -
  obtain q r where k: "k = 4 * q + r" "r < 4" by (metis mod_less_divisor mult_div_mod_eq zero_less_numeral)
  then have "r \<in> {0, 1, 2, 3}" by auto
  then show ?thesis using k(1) by auto
qed

lemma cpio_align_up_pad:
  assumes "4 dvd pos" "pos + k + 4 < usize_bound"
  shows "cpio_align_up (pos + k) CPIO_ALIGN = Some (pos + k + length (pad4 k))"
proof -
  have "cpio_align_up (pos + k) CPIO_ALIGN = Some ((pos + k + 3) AND unot (2 ^ 2 - 1))"
    using assms(2) by (simp add: cpio_align_up_def CPIO_ALIGN_def uadd_def usub_def add.commute)
  also have "(pos + k + 3) AND unot (2 ^ 2 - 1) = (pos + k + 3) div 4 * 4"
    using and_unot_mask[of "pos + k + 3" 2] assms(2) by simp
  also have "\<dots> = pos + (k + 3) div 4 * 4" using assms(1) by (auto elim!: dvdE simp: add.assoc)
  also have "(k + 3) div 4 * 4 = k + (4 - k mod 4) mod 4" by (rule round_up_4)
  finally show ?thesis by (simp add: pad4_def add.assoc)
qed

lemma entry_bytes_length:
  "length (entry_bytes e) = 110 + (length (ce_name e) + 1) + length (pad4 (110 + (length (ce_name e) + 1))) +
     length (ce_data e) + length (pad4 (length (ce_data e)))"
  by (simp add: entry_bytes_def)

lemma four_dvd_pad: "4 dvd k + length (pad4 k)"
  unfolding pad4_def length_replicate round_up_4[symmetric] by simp

lemma entry_bytes_dvd: "4 dvd length (entry_bytes e)"
proof -
  have "length (entry_bytes e) = (110 + (length (ce_name e) + 1) + length (pad4 (110 + (length (ce_name e) + 1)))) +
      (length (ce_data e) + length (pad4 (length (ce_data e))))" by (simp add: entry_bytes_length)
  then show ?thesis using four_dvd_pad by (metis dvd_add)
qed

lemma unpack_step_entry:
  assumes "drop pos cpio = entry_bytes e @ rest" "4 dvd pos" "length cpio + 4 < usize_bound" "entry_ok e" "pos \<le> length cpio"
  shows "unpack_step cpio pos r st =
    (if ce_name e = ''TRAILER!!!'' then Some (None, r, st)
     else map_option (\<lambda>(r, st). (Some (pos + length (entry_bytes e)), r, st)) (insert_of e r st))"
proof -
  define ns p1 p2 where "ns = length (ce_name e) + 1" and "p1 = pad4 (110 + ns)" and "p2 = pad4 (length (ce_data e))"
  define tail where "tail = as_bytes (ce_name e) @ [0] @ p1 @ ce_data e @ p2 @ rest"
  have hdr: "drop pos cpio = cpio_header e @ tail"
    using assms(1) by (simp add: entry_bytes_def tail_def p1_def p2_def ns_def)
  have len: "length cpio = pos + (110 + ns + length p1 + length (ce_data e) + length p2 + length rest)"
    using arg_cong[OF assms(1), of length] assms(5) by (simp add: entry_bytes_length p1_def p2_def ns_def)
  have after: "drop (pos + 110 + k) cpio = drop k tail" for k
    using arg_cong[OF hdr, of "drop (110 + k)"] by (simp add: ac_simps)
  have name: "slice cpio (pos + 110) (pos + 110 + ns - 1) = Some (as_bytes (ce_name e))"
    using len after[of 0] by (simp add: slice_def ns_def tail_def)
  have data: "slice cpio (pos + (110 + ns) + length p1) (pos + (110 + ns) + length p1 + length (ce_data e)) = Some (ce_data e)"
    using len after[of "ns + length p1"] by (simp add: slice_def ns_def tail_def ac_simps)
  have al: "cpio_align_up (pos + (110 + ns)) CPIO_ALIGN = Some (pos + (110 + ns) + length p1)"
    unfolding p1_def by (rule cpio_align_up_pad) (use assms(2,3) len in simp_all)
  have dv: "4 dvd pos + (110 + ns) + length p1" using assms(2) four_dvd_pad[of "110 + ns"] by (simp add: p1_def add.assoc)
  have al2: "cpio_align_up (pos + (110 + ns) + length p1 + length (ce_data e)) CPIO_ALIGN = Some (pos + length (entry_bytes e))"
    using cpio_align_up_pad[OF dv, of "length (ce_data e)"] assms(3) len
    by (simp add: entry_bytes_length p1_def p2_def ns_def add.assoc)
  have h: "slice cpio pos (length cpio) = Some (cpio_header e @ tail)" unfolding hdr[symmetric] using assms(5) by simp
  have un: "from_utf8 (as_bytes (ce_name e)) = Some (ce_name e)" using assms(4) by (simp add: from_utf8_def entry_ok_def)
  have ua: "uadd pos CPIO_HEADER_SIZE = Some (pos + 110)" "uadd (pos + 110) ns = Some (pos + (110 + ns))"
    "usub (pos + (110 + ns)) 1 = Some (pos + 110 + ns - 1)"
    "uadd (pos + (110 + ns) + length p1) (length (ce_data e)) = Some (pos + (110 + ns) + length p1 + length (ce_data e))"
    using assms(3) len by (simp_all add: CPIO_HEADER_SIZE_def uadd_def usub_def add.assoc)
  have "insert_entry cpio (cpio_header e @ tail) (word_of_nat (unat (ce_mode e))) (ce_name e)
      (pos + (110 + ns) + length p1) (pos + (110 + ns) + length p1 + length (ce_data e)) r st = insert_of e r st"
    using data header_fields(5,6)[OF assms(4), of tail] by (simp add: insert_entry_def insert_of_def Let_def cong: if_cong)
  then show ?thesis
    using h header_fields[OF assms(4), of tail, folded ns_def] ua name un al al2
    by (cases "insert_of e r st") (auto simp: unpack_step_def)
qed

section \<open>Insertions keep the file system\<close>

definition fs_ok :: "(ramfs \<times> istore) \<Rightarrow> bool" where
  "fs_ok s \<longleftrightarrow> ramfs_wf (snd s) (r_root (fst s))"

definition insertion_ok :: "(ramfs \<times> istore \<times> (error + unit)) option \<Rightarrow> bool" where
  "insertion_ok q \<longleftrightarrow> (\<exists>r' st' res. q = Some (r', st', res) \<and> ramfs_wf st' (r_root r'))"

lemma insert_new_leaf:
  assumes "ramfs_wf st (r_root r)" "i_fs_data node \<in> {RamfsCharDevice, RamfsBlockDevice} \<union> range RamfsFile"
  shows "insertion_ok (insert_leaf (r\<lparr>r_next_ino := x\<rparr>) (st @ [node]) path (length st))"
proof -
  have l: "leaf_data (i_fs_data node)" "is_ramfs (i_fs_data node)" "\<not> is_dir (st @ [node]) (length st)"
    using assms(2) by (auto simp: leaf_data_def is_dir_def is_ramfs_def)
  show ?thesis using insert_leaf_ok[of "st @ [node]" "r\<lparr>r_next_ino := x\<rparr>" "length st" path] wf_append[OF assms(1) l(1)] l(2,3)
    by (fastforce simp: insertion_ok_def)
qed

lemma insert_of_ok:
  assumes "fs_ok (r, st)"
  shows "\<exists>s'. insert_of e r st = Some s' \<and> fs_ok s'"
proof -
  have wf: "ramfs_wf st (r_root r)" using assms by (simp add: fs_ok_def)
  have root: "node_at st (r_root r) [] (r_root r)"
    using wf by (auto simp: node_at_def ramfs_wf_def is_dir_def is_ramfs_def split: fs_data.splits)
  have "insertion_ok (insert_dir r st (ce_name e))"
    using descend_ok[OF wf root, of r "path_parts (ce_name e)"] wf
    by (cases "path_parts (ce_name e) = []") (auto simp: insertion_ok_def insert_dir_def)
  moreover have "insertion_ok (insert_chardev r st (ce_name e) a b)" "insertion_ok (insert_blockdev r st (ce_name e) a b)"
      "insertion_ok (insert_file r st (ce_name e) d)" for a b d
    by (simp_all add: insert_chardev_def insert_blockdev_def insert_file_def make_file_inode_def make_dev_inode_def
        alloc_ino_def arc_new_def insert_new_leaf[OF wf])
  ultimately have "insertion_ok (if ce_mode e AND S_IFMT = S_IFDIR then insert_dir r st (ce_name e)
        else if ce_mode e AND S_IFMT = S_IFCHR then insert_chardev r st (ce_name e) (ce_major e) (ce_minor e)
        else if ce_mode e AND S_IFMT = S_IFBLK then insert_blockdev r st (ce_name e) (ce_major e) (ce_minor e)
        else insert_file r st (ce_name e) (ce_data e))" by simp
  then show ?thesis by (auto simp: insert_of_def insertion_ok_def fs_ok_def Let_def)
qed

lemma unpack_loop_entries:
  assumes "drop pos cpio = archive es" "4 dvd pos" "length cpio + 4 < usize_bound" "pos \<le> length cpio"
    and "\<forall>e \<in> set es. entry_ok e \<and> ce_name e \<noteq> ''TRAILER!!!''" "fs_ok (r, st)"
  shows "\<exists>s'. unpack_loop cpio pos r st = Some s' \<and> insert_all es (r, st) = Some s' \<and> fs_ok s'"
  using assms
proof (induction es arbitrary: pos r st)
  case Nil
  have ok: "entry_ok trailer" by (simp add: entry_ok_def trailer_def as_bytes_def)
  have d: "drop pos cpio = entry_bytes trailer @ []" using Nil.prems(1) by (simp add: archive_def)
  have "pos + 110 \<le> length cpio" using arg_cong[OF d, of length] Nil.prems(4) by (simp add: entry_bytes_length)
  then have "unpack_loop cpio pos r st = Some (r, st)"
    using unpack_step_entry[OF d Nil.prems(2,3) ok Nil.prems(4), of r st] Nil.prems(3)
    by (simp add: unpack_loop.simps[of cpio pos] CPIO_HEADER_SIZE_def trailer_def)
  then show ?case using Nil.prems(6) by (simp add: insert_all_def)
next
  case (Cons e es)
  have d: "drop pos cpio = entry_bytes e @ archive es" using Cons.prems(1) by (simp add: archive_def)
  let ?n = "length (entry_bytes e)"
  have len: "pos + ?n \<le> length cpio" using arg_cong[OF d, of length] Cons.prems(4) by simp
  have ok: "entry_ok e" "ce_name e \<noteq> ''TRAILER!!!''" using Cons.prems(5) by simp_all
  obtain r1 st1 where i: "insert_of e r st = Some (r1, st1)" "fs_ok (r1, st1)" using insert_of_ok[OF Cons.prems(6), of e] by auto
  have "pos + 110 \<le> length cpio" using len by (simp add: entry_bytes_length)
  then have run: "unpack_loop cpio pos r st = unpack_loop cpio (pos + ?n) r1 st1"
    using unpack_step_entry[OF d Cons.prems(2,3) ok(1) Cons.prems(4), of r st] Cons.prems(3) ok(2) i(1)
    by (simp add: unpack_loop.simps[of cpio pos] CPIO_HEADER_SIZE_def)
  have "drop (pos + ?n) cpio = archive es" using arg_cong[OF d, of "drop ?n"] by (simp add: add.commute)
  moreover have "4 dvd pos + ?n" using Cons.prems(2) entry_bytes_dvd by simp
  ultimately show ?case using Cons.IH[of "pos + ?n" r1 st1] len Cons.prems(3,5) i run by (simp add: insert_all_def)
qed

text \<open>C40: unpacking a CPIO archive. For the archive of any list of entries with valid names and sizes of 32 bits, the
  parser neither panics nor stops early: it performs exactly the insertions of the entries, in their order, with the
  type, device numbers, name and contents that were written, and the file system stays a tree.\<close>

theorem unpack_cpio_roundtrip:
  assumes "\<forall>e \<in> set es. entry_ok e \<and> ce_name e \<noteq> ''TRAILER!!!''" "length (archive es) + 4 < usize_bound" "ramfs_wf st (r_root r)"
  shows "\<exists>r' st'. unpack_cpio r st (archive es) = Some (r', st') \<and> insert_all es (r, st) = Some (r', st') \<and> ramfs_wf st' (r_root r')"
  using unpack_loop_entries[of 0 "archive es" es r st] assms by (auto simp: unpack_cpio_def fs_ok_def)

theorem unpack_cpio_roundtrip_witness:
  "\<exists>r' st'. unpack_cpio (snd (ramfs_new [])) (fst (ramfs_new []))
       (archive [\<lparr>ce_name = ''dev'', ce_mode = 0x41ed, ce_major = 0, ce_minor = 0, ce_data = []\<rparr>,
         \<lparr>ce_name = ''dev/console'', ce_mode = 0x2180, ce_major = 5, ce_minor = 1, ce_data = []\<rparr>]) = Some (r', st') \<and>
     ramfs_wf st' (r_root r')"
proof -
  let ?es = "[\<lparr>ce_name = ''dev'', ce_mode = 0x41ed, ce_major = 0, ce_minor = 0, ce_data = []\<rparr>,
      \<lparr>ce_name = ''dev/console'', ce_mode = 0x2180, ce_major = 5, ce_minor = 1, ce_data = []\<rparr>]"
  have "\<forall>e \<in> set ?es. entry_ok e \<and> ce_name e \<noteq> ''TRAILER!!!''" by (simp add: entry_ok_def as_bytes_def)
  moreover have "length (archive ?es) + 4 < usize_bound"
    by (simp add: archive_def entry_bytes_length pad4_def trailer_def usize_bound_def)
  ultimately show ?thesis using unpack_cpio_roundtrip[of ?es "fst (ramfs_new [])" "snd (ramfs_new [])"] ramfs_new_wf by blast
qed

end
