(* ===== verification/Dtb.thy ===== *)
theory Dtb
  imports Memory_Regions Bytes File_Api
begin

text \<open>
  The device tree blob (\<open>src/dtb.rs\<close>): the walk over the structure block, and the three clients of it, which
  find the memory map with the initial RAM disk, the board and the timebase. The blob is read from memory
  through pointers; a walk that meets no end token does not return. The theorem compares the walk with a
  writer of the format.
\<close>

unbundle bit_operations_syntax

section \<open>Reading\<close>

definition FDT_MAGIC :: u32 where "FDT_MAGIC = 0xd00dfeed"
definition FDT_BEGIN_NODE :: u32 where "FDT_BEGIN_NODE = 1"
definition FDT_END_NODE :: u32 where "FDT_END_NODE = 2"
definition FDT_PROP :: u32 where "FDT_PROP = 3"
definition FDT_NOP :: u32 where "FDT_NOP = 4"
definition FDT_END :: u32 where "FDT_END = 9"

lemmas fdt_consts = FDT_MAGIC_def FDT_BEGIN_NODE_def FDT_END_NODE_def FDT_PROP_def FDT_NOP_def FDT_END_def

datatype dtb_token = BeginNode | EndNode | Prop | Nop | End | Unknown

record dtb_context =
  dtb_total_size :: usize
  struct_ptr :: usize
  strings_ptr :: usize

datatype cpu_type = UnknownCpu | Qemu | LicheeRVNano

definition read_be32 :: "mem \<Rightarrow> usize \<Rightarrow> u32" where
  "read_be32 m p = word_of_nat (le_nat (rev (load_bytes 4 m p)))"

definition read_be64 :: "mem \<Rightarrow> usize \<Rightarrow> u64" where
  "read_be64 m p = word_of_nat (le_nat (rev (load_bytes 8 m p)))"

text \<open>The loops to the terminating zero of a string.\<close>

partial_function (option) strz_end :: "mem \<Rightarrow> usize \<Rightarrow> usize option" where
  "strz_end m p = (if m p \<noteq> 0 then strz_end m (p + 1) else Some p)"

definition read_strz :: "mem \<Rightarrow> usize \<Rightarrow> (string \<times> usize) option" where
  "read_strz m p = do {
     e \<leftarrow> strz_end m p;
     Some (to_str (load_bytes (e - p) m p), (e + 1 + 3) AND unot 3)
   }"

definition parse_dtb :: "mem \<Rightarrow> usize \<Rightarrow> dtb_context option" where
  "parse_dtb m dtb = do {
     guard_assert (read_be32 m dtb = FDT_MAGIC);
     Some \<lparr>dtb_total_size = unat (read_be32 m (dtb + 4)),
       struct_ptr = dtb + unat (read_be32 m (dtb + 8)), strings_ptr = dtb + unat (read_be32 m (dtb + 12))\<rparr>
   }"

section \<open>The walk\<close>

text \<open>
  The callback gets the token, the depth, the node's name and, for a property, its name, the address of its data
  and their length; it works on a state of its own and may panic.
\<close>

type_synonym 's callback = "dtb_token \<Rightarrow> usize \<Rightarrow> string option \<Rightarrow> (string \<times> usize \<times> usize) option \<Rightarrow> 's \<Rightarrow> 's option"

text \<open>One turn of the loop: the next pointer and depth, and whether the end was met.\<close>

definition traverse_step :: "'s callback \<Rightarrow> mem \<Rightarrow> usize \<Rightarrow> usize \<Rightarrow> usize \<Rightarrow> 's \<Rightarrow> (usize \<times> usize \<times> bool \<times> 's) option" where
  "traverse_step f m strings p depth s =
     (let token_val = read_be32 m p; p = p + 4 in
      if token_val = FDT_BEGIN_NODE then do {
        (name, next) \<leftarrow> read_strz m p;
        s \<leftarrow> f BeginNode depth (Some name) None s;
        depth \<leftarrow> uadd depth 1;
        Some (next, depth, False, s)
      }
      else if token_val = FDT_END_NODE then do {
        s \<leftarrow> f EndNode (depth - 1) None None s;
        Some (p, depth - 1, False, s)
      }
      else if token_val = FDT_PROP then do {
        let len = unat (read_be32 m p);
        let nameoff = unat (read_be32 m (p + 4));
        let data = p + 8;
        let name_ptr = strings + nameoff;
        e \<leftarrow> strz_end m name_ptr;
        s \<leftarrow> f Prop depth (Some []) (Some (to_str (load_bytes (e - name_ptr) m name_ptr), data, len)) s;
        Some (data + ((len + 3) AND unot 3), depth, False, s)
      }
      else if token_val = FDT_NOP then do { s \<leftarrow> f Nop depth None None s; Some (p, depth, False, s) }
      else if token_val = FDT_END then do { s \<leftarrow> f End depth None None s; Some (p, depth, True, s) }
      else do { s \<leftarrow> f Unknown depth None None s; Some (p, depth, False, s) })"

partial_function (option) traverse_loop :: "'s callback \<Rightarrow> mem \<Rightarrow> usize \<Rightarrow> usize \<Rightarrow> usize \<Rightarrow> 's \<Rightarrow> 's option" where
  "traverse_loop f m strings p depth s = do {
     (p, depth, stop, s) \<leftarrow> traverse_step f m strings p depth s;
     if stop then Some s else traverse_loop f m strings p depth s
   }"

definition traverse_dtb :: "mem \<Rightarrow> dtb_context \<Rightarrow> 's callback \<Rightarrow> 's \<Rightarrow> 's option" where
  "traverse_dtb m ctx f s = traverse_loop f m (strings_ptr ctx) (struct_ptr ctx) 0 s"

section \<open>Memory map and initial RAM disk\<close>

record memory_map_state =
  mm_memory :: "region option"
  memory_active :: bool
  reserved_active :: bool
  chosen_active :: bool
  initrd_start :: "usize option"
  initrd_end :: "usize option"
  mm_reserved :: "region list"
  INITRD_START :: usize
  INITRD_END :: usize

definition starts_with :: "string \<Rightarrow> string \<Rightarrow> bool" where
  "starts_with s pre \<longleftrightarrow> take (length pre) s = pre"

definition memory_prop :: "nat \<Rightarrow> mem \<Rightarrow> usize \<Rightarrow> string \<Rightarrow> usize \<Rightarrow> usize \<Rightarrow> memory_map_state \<Rightarrow> memory_map_state option" where
  "memory_prop cap m depth prop_name data len s =
     (if memory_active s \<and> prop_name = ''reg'' \<and> 16 \<le> len then do {
        let start = unat (read_be64 m data);
        let sz = unat (read_be64 m (data + 8));
        e \<leftarrow> uadd start sz;
        Some (s\<lparr>mm_memory := Some \<lparr>r_start = start, r_end = e\<rparr>\<rparr>)
      }
      else if reserved_active s \<and> (prop_name = ''reg'' \<or> prop_name = ''alloc-ranges'') \<and> 16 \<le> len then do {
        let start = unat (read_be64 m data);
        let sz = unat (read_be64 m (data + 8));
        let aligned_start = align_down start;
        e \<leftarrow> uadd start sz;
        aligned_end \<leftarrow> align_up e;
        guard_assert (aligned_start \<le> aligned_end);
        Some (s\<lparr>mm_reserved := hpush cap \<lparr>r_start = aligned_start, r_end = aligned_end\<rparr> (mm_reserved s)\<rparr>)
      }
      else if chosen_active s then do {
        let s = (if prop_name = ''linux,initrd-start'' then s\<lparr>initrd_start := Some (unat (read_be64 m data))\<rparr>
                 else if prop_name = ''linux,initrd-end'' then s\<lparr>initrd_end := Some (unat (read_be64 m data))\<rparr>
                 else s);
        (case (initrd_start s, initrd_end s) of
           (Some start, Some e) \<Rightarrow> do {
             let aligned_start = align_down start;
             aligned_end \<leftarrow> align_up e;
             Some (s\<lparr>mm_reserved := hpush cap \<lparr>r_start = aligned_start, r_end = aligned_end\<rparr> (mm_reserved s),
               INITRD_START := start, INITRD_END := e, initrd_start := None, initrd_end := None\<rparr>)
           }
         | _ \<Rightarrow> Some s)
      }
      else if depth = 1 \<and> prop_name = ''#address-cells'' then do { guard_assert (read_be32 m data = 2); Some s }
      else if depth = 1 \<and> prop_name = ''#size-cells'' then do { guard_assert (read_be32 m data = 2); Some s }
      else Some s)"

definition memory_callback :: "nat \<Rightarrow> mem \<Rightarrow> memory_map_state callback" where
  "memory_callback cap m token depth name_opt prop_opt s =
     (if token = BeginNode \<and> depth = 1 then
        Some (case name_opt of
           None \<Rightarrow> s
         | Some name \<Rightarrow>
             if name = ''reserved-memory'' then s\<lparr>reserved_active := True\<rparr>
             else if name = ''chosen'' then s\<lparr>chosen_active := True\<rparr>
             else if starts_with name ''memory@'' then s\<lparr>memory_active := True\<rparr>
             else s)
      else if token = EndNode \<and> depth = 1 then Some (s\<lparr>memory_active := False, reserved_active := False\<rparr>)
      else if token = Prop then
        (case prop_opt of None \<Rightarrow> Some s | Some (prop_name, data, len) \<Rightarrow> memory_prop cap m depth prop_name data len s)
      else Some s)"

text \<open>The result with the reserved regions and the two statics.\<close>

definition collect_memory_map ::
  "nat \<Rightarrow> mem \<Rightarrow> usize \<Rightarrow> region list \<Rightarrow> usize \<Rightarrow> usize \<Rightarrow> (region option \<times> region list \<times> usize \<times> usize) option" where
  "collect_memory_map cap m dtb reserved start e = do {
     ctx \<leftarrow> parse_dtb m dtb;
     s \<leftarrow> traverse_dtb m ctx (memory_callback cap m) \<lparr>mm_memory = None, memory_active = False, reserved_active = False,
       chosen_active = False, initrd_start = None, initrd_end = None, mm_reserved = reserved, INITRD_START = start, INITRD_END = e\<rparr>;
     Some (mm_memory s, mm_reserved s, INITRD_START s, INITRD_END s)
   }"

section \<open>Board and timebase\<close>

definition str_contains :: "string \<Rightarrow> string \<Rightarrow> bool" where
  "str_contains s t \<longleftrightarrow> list_ex (\<lambda>i. take (length t) (drop i s) = t) [0..<Suc (length s)]"

definition get_cpu_type :: "u8 \<Rightarrow> cpu_type" where
  "get_cpu_type v = (if v = 1 then Qemu else if v = 2 then LicheeRVNano else UnknownCpu)"

definition cpu_callback :: "mem \<Rightarrow> (bool \<times> u8) callback" where
  "cpu_callback m token depth name_opt prop s =
     (if fst s then Some s
      else case (token, depth, prop) of
        (Prop, d, Some (prop_name, data, len)) \<Rightarrow>
          if d = 1 \<and> prop_name = ''compatible'' then
            (case from_utf8 (load_bytes len m data) of
               Some compat_str \<Rightarrow> if str_contains compat_str ''cv181x'' then Some (True, 2) else Some s
             | None \<Rightarrow> Some s)
          else Some s
      | _ \<Rightarrow> Some s)"

text \<open>The new value of \<open>CPU_TYPE\<close>.\<close>

definition detect_cpu_type :: "mem \<Rightarrow> usize \<Rightarrow> u8 \<Rightarrow> u8 option" where
  "detect_cpu_type m dtb cpu =
     (if get_cpu_type cpu \<noteq> UnknownCpu then Some cpu
      else do {
        ctx \<leftarrow> parse_dtb m dtb;
        (found, cpu) \<leftarrow> traverse_dtb m ctx (cpu_callback m) (False, cpu);
        Some (if \<not> found then 1 else cpu)
      })"

definition timebase_callback :: "mem \<Rightarrow> (bool \<times> u64) callback" where
  "timebase_callback m token depth name_opt prop_opt s =
     (if token = BeginNode \<and> depth = 1 then Some (if name_opt = Some ''cpus'' then (True, snd s) else s)
      else if token = EndNode \<and> depth = 1 then Some (False, snd s)
      else if token = Prop \<and> fst s then
        Some (case prop_opt of
           None \<Rightarrow> s
         | Some (prop_name, data, len) \<Rightarrow>
             if prop_name = ''timebase-frequency'' \<and> len = 4 then (fst s, ucast (read_be32 m data)) else s)
      else Some s)"

text \<open>The new value of \<open>TIMEBASE_FREQ\<close>.\<close>

definition parse_timebase_frequency :: "mem \<Rightarrow> usize \<Rightarrow> u64 \<Rightarrow> u64 option" where
  "parse_timebase_frequency m dtb freq =
     (if freq \<noteq> 0 then Some freq
      else do {
        ctx \<leftarrow> parse_dtb m dtb;
        (_, freq) \<leftarrow> traverse_dtb m ctx (timebase_callback m) (False, freq);
        Some freq
      })"

definition get_timebase_frequency :: "u64 \<Rightarrow> u64" where
  "get_timebase_frequency freq = (if freq = 0 then 10000000 else freq)"

section \<open>A writer of the structure block\<close>

definition holds :: "mem \<Rightarrow> usize \<Rightarrow> u8 list \<Rightarrow> bool" where
  "holds m p bs \<longleftrightarrow> load_bytes (length bs) m p = bs"

lemma holds_nth: "holds m p bs \<longleftrightarrow> (\<forall>i < length bs. m (p + i) = bs ! i)"
  unfolding holds_def by (auto simp: list_eq_iff_nth_eq)

lemma holds_append [simp]: "holds m p (xs @ ys) \<longleftrightarrow> holds m p xs \<and> holds m (p + length xs) ys"
proof -
  have "[0..<length xs + length ys] = [0..<length xs] @ map (\<lambda>i. length xs + i) [0..<length ys]"
    by (simp add: upt_add_eq_append[of 0 "length xs" "length ys", simplified] map_add_upt add.commute)
  then show ?thesis unfolding holds_def load_bytes_def by (simp add: o_def add.assoc)
qed

lemma holds_Nil [simp]: "holds m p []"
  by (simp add: holds_def load_bytes_def)

lemma holds_load: "holds m p bs \<Longrightarrow> n = length bs \<Longrightarrow> load_bytes n m p = bs"
  by (simp add: holds_def)

definition be32 :: "nat \<Rightarrow> u8 list" where "be32 v = rev (to_le 4 v)"

definition pad4 :: "nat \<Rightarrow> u8 list" where "pad4 n = replicate ((4 - n mod 4) mod 4) 0"

text \<open>A token of the block: names and data are bytes, and a property has the offset of its name.\<close>

datatype item = IBegin "u8 list" | IEnd | IProp nat "u8 list" "u8 list" | INop

fun enc_item :: "item \<Rightarrow> u8 list" where
  "enc_item (IBegin nm) = be32 1 @ (nm @ [0]) @ pad4 (length nm + 1)"
| "enc_item IEnd = be32 2"
| "enc_item (IProp off nm data) = be32 3 @ be32 (length data) @ be32 off @ data @ pad4 (length data)"
| "enc_item INop = be32 4"

definition enc_block :: "item list \<Rightarrow> u8 list" where
  "enc_block items = concat (map enc_item items) @ be32 9"

fun item_ok :: "mem \<Rightarrow> usize \<Rightarrow> item \<Rightarrow> bool" where
  "item_ok m strings (IBegin nm) \<longleftrightarrow> 0 \<notin> set nm"
| "item_ok m strings (IProp off nm data) \<longleftrightarrow>
     0 \<notin> set nm \<and> off < 2 ^ 32 \<and> length data < 2 ^ 32 \<and> holds m (strings + off) (nm @ [0])"
| "item_ok m strings _ \<longleftrightarrow> True"

text \<open>The calls a reader has to make, in order, for a block that is stored at \<open>p\<close>.\<close>

fun run_items :: "'s callback \<Rightarrow> usize \<Rightarrow> usize \<Rightarrow> item list \<Rightarrow> 's \<Rightarrow> 's option" where
  "run_items f p d [] s = f End d None None s"
| "run_items f p d (it # r) s =
     (let q = p + length (enc_item it) in
      case it of
        IBegin nm \<Rightarrow> do { s \<leftarrow> f BeginNode d (Some (to_str nm)) None s; run_items f q (d + 1) r s }
      | IEnd \<Rightarrow> do { s \<leftarrow> f EndNode (d - 1) None None s; run_items f q (d - 1) r s }
      | IProp off nm data \<Rightarrow> do {
          s \<leftarrow> f Prop d (Some []) (Some (to_str nm, p + 12, length data)) s;
          run_items f q d r s
        }
      | INop \<Rightarrow> do { s \<leftarrow> f Nop d None None s; run_items f q d r s })"

section \<open>The walk reads what the writer wrote\<close>

lemma be32_length [simp]: "length (be32 v) = 4"
  by (simp add: be32_def)

lemma read_be32_holds: "holds m p (be32 v) \<Longrightarrow> v < 2 ^ 32 \<Longrightarrow> read_be32 m p = word_of_nat v"
  by (simp add: read_be32_def holds_load be32_def le_nat_to_le)

lemma unat_read_be32: "holds m p (be32 v) \<Longrightarrow> v < 2 ^ 32 \<Longrightarrow> unat (read_be32 m p) = v"
  by (simp add: read_be32_holds unat_of_nat take_bit_nat_eq_self)

lemma strz_end_holds: "holds m p (nm @ [0]) \<Longrightarrow> 0 \<notin> set nm \<Longrightarrow> strz_end m p = Some (p + length nm)"
proof (induction nm arbitrary: p)
  case Nil
  then have "m p = 0" by (simp add: holds_def load_bytes_def)
  then show ?case by (simp add: strz_end.simps)
next
  case (Cons b nm)
  from Cons.prems(1) have "holds m p ([b] @ (nm @ [0]))" by simp
  then have h: "m p = b" "holds m (p + 1) (nm @ [0])"
    unfolding holds_append by (simp_all add: holds_def load_bytes_def)
  show ?case using Cons.IH[OF h(2)] Cons.prems(2) h(1) by (simp add: strz_end.simps[of m p])
qed

lemma strz_bytes: "holds m p (nm @ [0]) \<Longrightarrow> load_bytes (length nm) m p = nm"
  unfolding holds_append by (simp add: holds_def)

lemma round4: "x < usize_bound \<Longrightarrow> x AND unot 3 = x div 4 * 4"
  using and_unot_mask[of x 2] by simp

lemma pad4_round: "n + length (pad4 n) = (n + 3) div 4 * 4"
proof -
  obtain q r where n: "n = r + q * 4" "r < 4" by (metis add.commute div_mult_mod_eq mod_less_divisor zero_less_numeral)
  have "r = 0 \<or> r = 1 \<or> r = 2 \<or> r = 3" using n(2) by linarith
  then have "r + q * 4 + (4 - r) mod 4 = (r + q * 4 + 3) div 4 * 4" by (elim disjE) simp_all
  moreover have "n mod 4 = r" using n by simp
  ultimately have "n + (4 - n mod 4) mod 4 = (n + 3) div 4 * 4" using n(1) by simp
  then show ?thesis by (simp add: pad4_def)
qed

lemma pad4_round_at: "4 dvd p \<Longrightarrow> p + n + length (pad4 n) = (p + n + 3) div 4 * 4"
  using pad4_round[of n] by (auto simp: add.assoc elim!: dvdE)

lemma read_strz_holds:
  assumes "holds m p (nm @ [0])" "0 \<notin> set nm" "4 dvd p" "p + length nm + 4 < usize_bound"
  shows "read_strz m p = Some (to_str nm, p + (length nm + 1) + length (pad4 (length nm + 1)))"
proof -
  have "(p + length nm + 1 + 3) AND unot 3 = p + (length nm + 1) + length (pad4 (length nm + 1))"
    using round4[of "p + length nm + 1 + 3"] assms(4) pad4_round_at[OF assms(3), of "length nm + 1"]
    by (simp add: add.assoc)
  then show ?thesis by (simp only: read_strz_def strz_end_holds[OF assms(1,2)] strz_bytes[OF assms(1)]
      bind.bind_lunit diff_add_inverse)
qed

lemma enc_item_aligned: "4 dvd length (enc_item it)"
proof (cases it)
  case (IBegin nm)
  then have "length (enc_item it) = 4 + (length nm + 1 + length (pad4 (length nm + 1)))" by simp
  also have "\<dots> = 4 + (length nm + 1 + 3) div 4 * 4" by (simp only: pad4_round)
  finally show ?thesis by simp
next
  case (IProp off nm data)
  then have "length (enc_item it) = 12 + (length data + length (pad4 (length data)))" by simp
  also have "\<dots> = 12 + (length data + 3) div 4 * 4" by (simp only: pad4_round)
  finally show ?thesis by simp
qed simp_all

lemma uadd_1: "d + 1 < usize_bound \<Longrightarrow> uadd d 1 = Some (d + 1)"
  by (simp add: uadd_def)

lemma step_begin:
  assumes h: "holds m p (enc_item (IBegin nm))" and "item_ok m strings (IBegin nm)" "4 dvd p"
    "p + length (enc_item (IBegin nm)) + 4 < usize_bound" "d + 1 < usize_bound"
  shows "traverse_step f m strings p d s =
    map_option (\<lambda>s. (p + length (enc_item (IBegin nm)), d + 1, False, s)) (f BeginNode d (Some (to_str nm)) None s)"
proof -
  have a: "holds m p (be32 1)" "holds m (p + 4) (nm @ [0])"
    using h unfolding enc_item.simps holds_append by simp_all
  have "read_strz m (p + 4) = Some (to_str nm, p + length (enc_item (IBegin nm)))"
    using read_strz_holds[OF a(2)] assms(2-4) by (simp add: add.assoc)
  then show ?thesis using read_be32_holds[OF a(1)] uadd_1[OF assms(5)]
    by (cases "f BeginNode d (Some (to_str nm)) None s") (simp_all add: traverse_step_def fdt_consts)
qed

lemma step_prop:
  assumes h: "holds m p (enc_item (IProp off nm data))" and ok: "item_ok m strings (IProp off nm data)" and "4 dvd p"
    and "p + length (enc_item (IProp off nm data)) + 4 < usize_bound"
  shows "traverse_step f m strings p d s = map_option (\<lambda>s. (p + length (enc_item (IProp off nm data)), d, False, s))
    (f Prop d (Some []) (Some (to_str nm, p + 12, length data)) s)"
proof -
  have a: "holds m p (be32 3)" "holds m (p + 4) (be32 (length data))" "holds m (p + 8) (be32 off)"
    using h unfolding enc_item.simps holds_append by (simp_all add: add.assoc)
  have b: "read_be32 m p = 3" "unat (read_be32 m (p + 4)) = length data" "unat (read_be32 m (p + 8)) = off"
    "holds m (strings + off) (nm @ [0])" "0 \<notin> set nm"
    using ok read_be32_holds[OF a(1)] unat_read_be32[OF a(2)] unat_read_be32[OF a(3)] by simp_all
  have "(length data + 3) AND unot 3 = length data + length (pad4 (length data))"
    using ok round4[of "length data + 3"] by (simp add: pad4_round usize_bound_def)
  then have "p + 12 + ((length data + 3) AND unot 3) = p + length (enc_item (IProp off nm data))" by simp
  then show ?thesis using b strz_end_holds[OF b(4,5)] strz_bytes[OF b(4)]
    by (cases "f Prop d (Some []) (Some (to_str nm, p + 12, length data)) s")
      (simp_all add: traverse_step_def fdt_consts Let_def add.assoc)
qed

lemma step_simple:
  "holds m p (be32 2) \<Longrightarrow> traverse_step f m strings p d s = map_option (\<lambda>s. (p + 4, d - 1, False, s)) (f EndNode (d - 1) None None s)"
  "holds m p (be32 4) \<Longrightarrow> traverse_step f m strings p d s = map_option (\<lambda>s. (p + 4, d, False, s)) (f Nop d None None s)"
  "holds m p (be32 9) \<Longrightarrow> traverse_step f m strings p d s = map_option (\<lambda>s. (p + 4, d, True, s)) (f End d None None s)"
  by (simp_all add: traverse_step_def fdt_consts read_be32_holds Let_def map_option_case split: option.split)

lemma traverse_items:
  assumes "holds m p (enc_block items)" "4 dvd p" "p + length (enc_block items) < usize_bound"
    "d + length items < usize_bound" "list_all (item_ok m strings) items"
  shows "traverse_loop f m strings p d s = run_items f p d items s"
  using assms
proof (induction items arbitrary: p d s)
  case Nil
  then have "holds m p (be32 9)" by (simp add: enc_block_def)
  then show ?case using step_simple(3)[of m p f strings d s]
    by (cases "f End d None None s") (simp_all add: traverse_loop.simps[of f m strings p d s])
next
  case (Cons it r)
  let ?q = "p + length (enc_item it)"
  have h: "holds m p (enc_item it)" "holds m ?q (enc_block r)" "4 dvd ?q" "?q + length (enc_block r) < usize_bound"
    "list_all (item_ok m strings) r" "item_ok m strings it" "4 dvd p" "?q + 4 < usize_bound"
    "d + length r < usize_bound" "d + 1 < usize_bound"
    using Cons.prems enc_item_aligned[of it] by (simp_all add: enc_block_def add.assoc)
  have IH: "traverse_loop f m strings ?q d' s' = run_items f ?q d' r s'" if "d' \<le> d + 1" for d' s'
    by (rule Cons.IH[OF h(2-4) _ h(5)]) (use that Cons.prems(4) in simp)
  note step = traverse_loop.simps[of f m strings p d s]
  show ?case
  proof (cases it)
    case (IBegin nm)
    then show ?thesis using IH[of "d + 1"] step_begin[of m p nm strings d f s] h
      by (cases "f BeginNode d (Some (to_str nm)) None s") (simp_all add: step Let_def)
  next
    case IEnd
    then show ?thesis using IH[of "d - 1"] step_simple(1)[of m p f strings d s] h(1)
      by (cases "f EndNode (d - 1) None None s") (simp_all add: step Let_def)
  next
    case (IProp off nm data)
    then show ?thesis using IH[of d] step_prop[of m p off nm data strings f d s] h
      by (cases "f Prop d (Some []) (Some (to_str nm, p + 12, length data)) s") (simp_all add: step Let_def)
  next
    case INop
    then show ?thesis using IH[of d] step_simple(2)[of m p f strings d s] h(1)
      by (cases "f Nop d None None s") (simp_all add: step Let_def)
  qed
qed

section \<open>The memory map of a tree\<close>

definition be_val :: "u8 list \<Rightarrow> nat" where "be_val bs = le_nat (rev bs)"

text \<open>
  What the tree says: the last \<open>reg\<close> of a \<open>memory@\<close> node below the root. The properties the kernel reads are
  well-formed: ranges end below the top of the address space and both cell counts are 2.
\<close>

fun mem_of :: "nat \<Rightarrow> bool \<Rightarrow> region option \<Rightarrow> item list \<Rightarrow> region option" where
  "mem_of d act acc [] = acc"
| "mem_of d act acc (IBegin nm # r) = mem_of (d + 1) (act \<or> d = 1 \<and> starts_with (to_str nm) ''memory@'') acc r"
| "mem_of d act acc (IEnd # r) = mem_of (d - 1) (act \<and> d - 1 \<noteq> 1) acc r"
| "mem_of d act acc (IProp off nm data # r) = mem_of d act
     (if act \<and> to_str nm = ''reg'' \<and> 16 \<le> length data
      then Some \<lparr>r_start = be_val (take 8 data), r_end = be_val (take 8 data) + be_val (take 8 (drop 8 data))\<rparr> else acc) r"
| "mem_of d act acc (INop # r) = mem_of d act acc r"

definition prop_sane :: "string \<Rightarrow> u8 list \<Rightarrow> bool" where
  "prop_sane nm data \<longleftrightarrow>
     (if nm = ''reg'' \<or> nm = ''alloc-ranges'' then
        16 \<le> length data \<longrightarrow> be_val (take 8 data) + be_val (take 8 (drop 8 data)) + 4096 < usize_bound
      else if nm = ''linux,initrd-start'' \<or> nm = ''linux,initrd-end'' then
        8 \<le> length data \<and> be_val (take 8 data) + 4096 < usize_bound
      else if nm = ''#address-cells'' \<or> nm = ''#size-cells'' then 4 \<le> length data \<and> be_val (take 4 data) = 2
      else True)"

fun item_sane :: "item \<Rightarrow> bool" where
  "item_sane (IProp off nm data) = prop_sane (to_str nm) data"
| "item_sane _ = True"

definition mm_inv :: "memory_map_state \<Rightarrow> bool" where
  "mm_inv s \<longleftrightarrow> (case initrd_end s of None \<Rightarrow> True | Some e \<Rightarrow> e + 4096 < usize_bound)"

lemma holds_take: "holds m p bs \<Longrightarrow> k + n \<le> length bs \<Longrightarrow> load_bytes n m (p + k) = take n (drop k bs)"
  by (auto simp: holds_nth list_eq_iff_nth_eq add.assoc)

lemma be_val_less: "be_val bs < 256 ^ length bs"
  using le_nat_less[of "rev bs"] by (simp add: be_val_def)

lemma unat_read_be64:
  assumes "holds m p bs" "k + 8 \<le> length bs"
  shows "unat (read_be64 m (p + k)) = be_val (take 8 (drop k bs))"
proof -
  have "be_val (take 8 (drop k bs)) < 256 ^ 8" using be_val_less[of "take 8 (drop k bs)"] assms(2) by simp
  then show ?thesis using assms
    by (simp add: read_be64_def holds_take unat_of_nat take_bit_nat_eq_self be_val_def)
qed

lemma read_be32_val:
  assumes "holds m p bs" "4 \<le> length bs"
  shows "read_be32 m p = word_of_nat (be_val (take 4 bs))"
  using holds_take[OF assms(1), of 0 4] assms(2) by (simp add: read_be32_def be_val_def)

lemma memory_prop_reg:
  assumes "holds m p data" "prop_sane ''reg'' data" "memory_active s" "16 \<le> length data"
  shows "memory_prop cap m d ''reg'' p (length data) s = Some (s\<lparr>mm_memory := Some
    \<lparr>r_start = be_val (take 8 data), r_end = be_val (take 8 data) + be_val (take 8 (drop 8 data))\<rparr>\<rparr>)"
  using assms unat_read_be64[of m p data 0] unat_read_be64[of m p data 8]
  by (simp add: memory_prop_def prop_sane_def Let_def uadd_def)

lemma align_up_total: "a + 4096 < usize_bound \<Longrightarrow> align_up a = Some ((a + 4095) div 4096 * 4096)"
  by (simp add: align_up_Some_iff)

lemma memory_prop_reserved:
  assumes "holds m p data" "prop_sane nm data" "16 \<le> length data" "nm = ''reg'' \<or> nm = ''alloc-ranges''"
    "reserved_active s" "\<not> (memory_active s \<and> nm = ''reg'')" "mm_inv s"
  shows "\<exists>rs. memory_prop cap m d nm p (length data) s = Some (s\<lparr>mm_reserved := rs\<rparr>)"
proof -
  let ?a = "be_val (take 8 data)" and ?n = "be_val (take 8 (drop 8 data))"
  have r: "unat (read_be64 m p) = ?a" "unat (read_be64 m (p + 8)) = ?n"
    using assms(1,3) unat_read_be64[of m p data 0] unat_read_be64[of m p data 8] by simp_all
  have b: "?a + ?n + 4096 < usize_bound" using assms(2-4) unfolding prop_sane_def by (auto split: if_split_asm)
  note u = align_up_total[OF b]
  have "align_down ?a \<le> (?a + ?n + 4095) div 4096 * 4096"
    using align_down_bounds(1)[of ?a] align_up_bounds(1)[OF u] b by linarith
  then have g: "guard_assert (align_down ?a \<le> (?a + ?n + 4095) div 4096 * 4096) = Some ()" by (simp add: guard_assert_def)
  have e: "uadd ?a ?n = Some (?a + ?n)" using b by (simp add: uadd_def)
  have c1: "\<not> (memory_active s \<and> nm = ''reg'' \<and> 16 \<le> length data)" using assms(6) by blast
  have c2: "reserved_active s \<and> (nm = ''reg'' \<or> nm = ''alloc-ranges'') \<and> 16 \<le> length data" using assms(3-5) by blast
  show ?thesis unfolding memory_prop_def if_not_P[OF c1] if_P[OF c2] Let_def r e u bind.bind_lunit g by blast
qed

lemma memory_prop_other:
  assumes "holds m p data" "prop_sane nm data" "mm_inv s"
    "\<not> (memory_active s \<and> nm = ''reg'' \<and> 16 \<le> length data)"
    "\<not> (reserved_active s \<and> (nm = ''reg'' \<or> nm = ''alloc-ranges'') \<and> 16 \<le> length data)"
  shows "\<exists>s'. memory_prop cap m d nm p (length data) s = Some s' \<and> mm_inv s' \<and> mm_memory s' = mm_memory s \<and>
    memory_active s' = memory_active s"
proof (cases "chosen_active s")
  case True
  define t where "t = (if nm = ''linux,initrd-start'' then s\<lparr>initrd_start := Some (unat (read_be64 m p))\<rparr>
    else if nm = ''linux,initrd-end'' then s\<lparr>initrd_end := Some (unat (read_be64 m p))\<rparr> else s)"
  have t: "mm_inv t" "mm_memory t = mm_memory s" "memory_active t = memory_active s"
    using assms(1-3) unat_read_be64[of m p data 0]
    by (auto simp: t_def mm_inv_def prop_sane_def split: if_split_asm)
  have *: "memory_prop cap m d nm p (length data) s = (case (initrd_start t, initrd_end t) of
      (Some start, Some e) \<Rightarrow> do {
        aligned_end \<leftarrow> align_up e;
        Some (t\<lparr>mm_reserved := hpush cap \<lparr>r_start = align_down start, r_end = aligned_end\<rparr> (mm_reserved t),
          INITRD_START := start, INITRD_END := e, initrd_start := None, initrd_end := None\<rparr>)
      } | _ \<Rightarrow> Some t)"
    unfolding t_def using assms(4,5) True by (simp only: memory_prop_def if_False if_True Let_def)
  show ?thesis
  proof (cases "initrd_start t = None \<or> initrd_end t = None")
    case True
    then show ?thesis using t unfolding * by (auto split: option.split)
  next
    case False
    then obtain a e where ae: "initrd_start t = Some a" "initrd_end t = Some e" by auto
    then have "align_up e = Some ((e + 4095) div 4096 * 4096)"
      using t(1) by (intro align_up_total) (simp add: mm_inv_def)
    then show ?thesis using t unfolding * ae by (simp add: mm_inv_def)
  qed
next
  case False
  have v: "read_be32 m p = 2" if "nm = ''#address-cells'' \<or> nm = ''#size-cells''"
    using that assms(1,2) read_be32_val[of m p data] by (auto simp: prop_sane_def)
  show ?thesis using assms(3-5) False v
    by (cases "nm = ''#address-cells''"; cases "nm = ''#size-cells''")
      (simp_all only: memory_prop_def if_False if_True simp_thms guard_assert_def bind.bind_lunit HOL.if_cancel, auto)
qed

definition prop_memory :: "bool \<Rightarrow> region option \<Rightarrow> string \<Rightarrow> u8 list \<Rightarrow> region option" where
  "prop_memory act acc nm data = (if act \<and> nm = ''reg'' \<and> 16 \<le> length data
     then Some \<lparr>r_start = be_val (take 8 data), r_end = be_val (take 8 data) + be_val (take 8 (drop 8 data))\<rparr> else acc)"

lemma memory_prop_ok:
  assumes "holds m p data" "prop_sane nm data" "mm_inv s"
  shows "\<exists>s'. memory_prop cap m d nm p (length data) s = Some s' \<and> mm_inv s' \<and>
    mm_memory s' = prop_memory (memory_active s) (mm_memory s) nm data \<and> memory_active s' = memory_active s"
proof (cases "memory_active s \<and> nm = ''reg'' \<and> 16 \<le> length data")
  case True
  then show ?thesis using memory_prop_reg[OF assms(1), of s cap d] assms(2,3) by (simp add: prop_memory_def mm_inv_def)
next
  case n: False
  then have e: "prop_memory (memory_active s) (mm_memory s) nm data = mm_memory s"
    unfolding prop_memory_def by (rule if_not_P)
  show ?thesis
  proof (cases "reserved_active s \<and> (nm = ''reg'' \<or> nm = ''alloc-ranges'') \<and> 16 \<le> length data")
    case True
    then obtain rs where "memory_prop cap m d nm p (length data) s = Some (s\<lparr>mm_reserved := rs\<rparr>)"
      using memory_prop_reserved[OF assms(1,2), of s cap d] n assms(3) by blast
    then show ?thesis using assms(3) unfolding e by (simp add: mm_inv_def)
  next
    case False
    show ?thesis unfolding e by (rule memory_prop_other[OF assms n False])
  qed
qed

lemma memory_begin:
  "\<exists>s'. memory_callback cap m BeginNode d (Some nm) None s = Some s' \<and> mm_inv s' = mm_inv s \<and> mm_memory s' = mm_memory s \<and>
     memory_active s' = (memory_active s \<or> d = 1 \<and> starts_with nm ''memory@'')"
proof (cases "nm = ''reserved-memory'' \<or> nm = ''chosen''")
  case True
  then have "\<not> starts_with nm ''memory@''" by (auto simp: starts_with_def)
  then show ?thesis using True by (auto simp: memory_callback_def mm_inv_def)
next
  case False
  then show ?thesis by (simp add: memory_callback_def mm_inv_def)
qed

lemma run_memory:
  assumes "holds m p (enc_block items)" "list_all item_sane items" "mm_inv s"
  shows "\<exists>s'. run_items (memory_callback cap m) p d items s = Some s' \<and>
    mm_memory s' = mem_of d (memory_active s) (mm_memory s) items"
  using assms
proof (induction items arbitrary: p d s)
  case Nil
  then show ?case by (simp add: memory_callback_def)
next
  case (Cons it r)
  let ?q = "p + length (enc_item it)"
  have h: "holds m p (enc_item it)" "holds m ?q (enc_block r)" "list_all item_sane r" "item_sane it"
    using Cons.prems by (simp_all add: enc_block_def add.assoc)
  note IH = Cons.IH[OF h(2,3)]
  show ?case
  proof (cases it)
    case (IBegin nm)
    obtain t where "memory_callback cap m BeginNode d (Some (to_str nm)) None s = Some t" "mm_inv t"
      "mm_memory t = mm_memory s" "memory_active t = (memory_active s \<or> d = 1 \<and> starts_with (to_str nm) ''memory@'')"
      using memory_begin[of cap m d "to_str nm" s] Cons.prems(3) by blast
    then show ?thesis using IH[of t "d + 1"] IBegin by (simp add: Let_def)
  next
    case IEnd
    obtain t where "memory_callback cap m EndNode (d - 1) None None s = Some t" "mm_inv t"
      "mm_memory t = mm_memory s" "memory_active t = (memory_active s \<and> d - 1 \<noteq> 1)"
      using Cons.prems(3) by (cases "d - 1 = 1") (simp_all add: memory_callback_def mm_inv_def)
    then show ?thesis using IH[of t "d - 1"] IEnd by (simp add: Let_def)
  next
    case (IProp off nm data)
    have hd: "holds m (p + 12) data" using h(1) unfolding IProp enc_item.simps holds_append by (simp add: add.assoc)
    obtain t where t: "memory_prop cap m d (to_str nm) (p + 12) (length data) s = Some t" "mm_inv t"
      "mm_memory t = prop_memory (memory_active s) (mm_memory s) (to_str nm) data" "memory_active t = memory_active s"
      using memory_prop_ok[OF hd, of "to_str nm" s cap d] h(4) IProp Cons.prems(3) by auto
    then have "memory_callback cap m Prop d (Some []) (Some (to_str nm, p + 12, length data)) s = Some t"
      by (simp add: memory_callback_def)
    then show ?thesis using IH[of t d] t(2-4) IProp by (simp add: Let_def prop_memory_def)
  next
    case INop
    then show ?thesis using IH[of s d] Cons.prems(3) by (simp add: Let_def memory_callback_def)
  qed
qed


text \<open>A blob at address 64: header, strings and a root node with the address cells and one memory node.\<close>

definition demo_items :: "item list" where
  "demo_items = [IBegin [], IProp 4 (as_bytes ''#address-cells'') (be32 2), INop,
     IBegin (as_bytes ''memory@80000000''), IProp 0 (as_bytes ''reg'') (be32 0 @ be32 0x80000000 @ be32 0 @ be32 0x1000000),
     IEnd, IEnd]"

definition demo_strings :: "u8 list" where
  "demo_strings = as_bytes ''reg'' @ [0] @ as_bytes ''#address-cells'' @ [0] @ [0]"

definition demo_blob :: "u8 list" where
  "demo_blob = be32 0xd00dfeed @ be32 (60 + length (enc_block demo_items)) @ be32 60 @ be32 40 @ replicate 24 0 @
     demo_strings @ enc_block demo_items"

definition demo_dtb_mem :: mem where
  "demo_dtb_mem = store_bytes demo_blob (\<lambda>_. 0) 64"

lemma demo_strings_length: "length demo_strings = 20"
  by (simp add: demo_strings_def as_bytes_def)

lemma demo_holds:
  "holds demo_dtb_mem 64 (be32 0xd00dfeed)" "holds demo_dtb_mem 72 (be32 60)" "holds demo_dtb_mem 76 (be32 40)"
  "holds demo_dtb_mem 104 demo_strings" "holds demo_dtb_mem 124 (enc_block demo_items)"
proof -
  have "holds demo_dtb_mem 64 demo_blob" by (simp add: holds_def demo_dtb_mem_def)
  then show "holds demo_dtb_mem 64 (be32 0xd00dfeed)" "holds demo_dtb_mem 72 (be32 60)" "holds demo_dtb_mem 76 (be32 40)"
    "holds demo_dtb_mem 104 demo_strings" "holds demo_dtb_mem 124 (enc_block demo_items)"
    unfolding demo_blob_def by (simp_all add: demo_strings_length)
qed

lemma demo_parse:
  "parse_dtb demo_dtb_mem 64 = Some \<lparr>dtb_total_size = unat (read_be32 demo_dtb_mem 68), struct_ptr = 124, strings_ptr = 104\<rparr>"
  using read_be32_holds[OF demo_holds(1)] unat_read_be32[OF demo_holds(2)] unat_read_be32[OF demo_holds(3)]
  by (simp add: parse_dtb_def FDT_MAGIC_def guard_assert_def)

lemma demo_ok: "list_all (item_ok demo_dtb_mem 104) demo_items"
proof -
  have "holds demo_dtb_mem 104 (as_bytes ''reg'' @ [0])" "holds demo_dtb_mem 108 (as_bytes ''#address-cells'' @ [0])"
    using demo_holds(4) unfolding demo_strings_def holds_append by (simp_all add: as_bytes_def)
  then show ?thesis by (simp add: demo_items_def as_bytes_def del: holds_append)
qed

lemma demo_facts:
  "list_all item_sane demo_items" "length (enc_block demo_items) = 88"
  "mem_of 0 False None demo_items = Some \<lparr>r_start = 0x80000000, r_end = 0x81000000\<rparr>"
  by code_simp+


end
