(* ===== verification/Kernel_Memory_Map.thy ===== *)
theory Kernel_Memory_Map
  imports Page_Table Dtb Heap_Allocator
begin

text \<open>
  The kernel's address space (\<open>src/kernel_memory_map.rs\<close>): its construction at boot from the memory range of the
  device tree, the kernel's own stores through it, and the growth of the kernel heap. The start of
  \<open>page_allocator::init\<close>, which reads the device tree, is here too. Linker symbols are a parameter; cache and
  translation fences have no effect on the modelled memory.
\<close>

unbundle bit_operations_syntax

section \<open>State\<close>

definition HIGH_HALF_PHYS_START :: usize where "HIGH_HALF_PHYS_START = 0xffffffff00000000"
definition KERNEL_STACK_START :: usize where "KERNEL_STACK_START = HIGH_HALF_PHYS_START + 0xffe00000"
definition KERNEL_STACK_STARTING_SIZE :: usize where "KERNEL_STACK_STARTING_SIZE = 0x10000"
definition TRAMPOLINE_TRAP_FRAME :: usize where "TRAMPOLINE_TRAP_FRAME = HIGH_HALF_PHYS_START + 0xffe00000"
definition TRAP_FRAME_SIZE :: usize where "TRAP_FRAME_SIZE = 0x1000"
definition KERNEL_HEAP_SIZE :: usize where "KERNEL_HEAP_SIZE = 4 * PAGE_SIZE"

lemmas kernel_layout = HIGH_HALF_PHYS_START_def KERNEL_STACK_START_def KERNEL_STACK_STARTING_SIZE_def
  TRAMPOLINE_TRAP_FRAME_def TRAP_FRAME_SIZE_def KERNEL_HEAP_START_def KERNEL_HEAP_SIZE_def

record kernel_map =
  km_machine :: machine
  KERNEL_PAGE_MAPPER :: usize  \<comment> \<open>the root table\<close>
  LAST_L1_PTE :: usize
  KERNEL_HEAP_END :: usize
  km_satp :: u64
  CPU_TYPE :: u8

text \<open>The symbols of the linker script.\<close>

record kernel_image =
  text_start :: usize
  text_end :: usize
  rodata_start :: usize
  rodata_end :: usize
  data_start :: usize
  data_end :: usize
  bss_start :: usize
  bss_end :: usize
  proc_tramp_start :: usize
  proc_tramp_lma :: usize
  proc_tramp_end :: usize

abbreviation (input) km_mem :: "kernel_map \<Rightarrow> mem" where
  "km_mem k \<equiv> mmem (km_machine k)"

text \<open>\<open>with_page_mapper\<close> runs an operation of the mapper on the kernel's root table.\<close>

definition with_page_mapper :: "(machine \<Rightarrow> usize \<Rightarrow> machine option) \<Rightarrow> kernel_map \<Rightarrow> kernel_map option" where
  "with_page_mapper f k = map_option (\<lambda>st. k\<lparr>km_machine := st\<rparr>) (f (km_machine k) (KERNEL_PAGE_MAPPER k))"

definition init_page_mapper :: "kernel_map \<Rightarrow> kernel_map option" where
  "init_page_mapper k = do {
     (st, root) \<leftarrow> mapper_new (km_machine k);
     Some (k\<lparr>km_machine := st, KERNEL_PAGE_MAPPER := root\<rparr>)
   }"

definition kernel_virt_to_phys :: "kernel_map \<Rightarrow> usize \<Rightarrow> usize option" where
  "kernel_virt_to_phys k virt = virt_to_phys (km_mem k) (KERNEL_PAGE_MAPPER k) virt"

text \<open>Stores of kernel code, byte by byte through the kernel's own tables; an unmapped address is a fault.\<close>

fun kernel_store :: "usize \<Rightarrow> mem \<Rightarrow> usize \<Rightarrow> u8 list \<Rightarrow> mem option" where
  "kernel_store root m v [] = Some m"
| "kernel_store root m v (b # bs) = do { p \<leftarrow> virt_to_phys m root v; kernel_store root (m(p := b)) (v + 1) bs }"

section \<open>The parts of the map\<close>

definition RW_FLAGS :: page_flags where
  "RW_FLAGS = PF_READ OR PF_WRITE OR PF_ACCESSED OR PF_DIRTY"

definition thead_mem_flags :: "u8 \<Rightarrow> page_flags" where
  "thead_mem_flags cpu = (if get_cpu_type cpu = LicheeRVNano then THEAD_MEMORY else pf_empty)"

definition identity_map_memory :: "region \<Rightarrow> kernel_map \<Rightarrow> kernel_map option" where
  "identity_map_memory memory = with_page_mapper (\<lambda>st root.
     map_range st root (r_start memory) (r_start memory) (r_end memory)
       (PF_READ OR PF_WRITE OR PF_EXECUTE OR PF_ACCESSED OR PF_DIRTY) Size2M)"

definition map_mmio :: "usize \<Rightarrow> usize \<Rightarrow> page_flags \<Rightarrow> kernel_map \<Rightarrow> kernel_map option" where
  "map_mmio start e flags = with_page_mapper (\<lambda>st root. map_range st root start start e flags Size4K)"

definition map_devices :: "kernel_map \<Rightarrow> kernel_map option" where
  "map_devices k =
     (case get_cpu_type (CPU_TYPE k) of
        Qemu \<Rightarrow> do {
          k \<leftarrow> map_mmio 0x10000000 0x1000a000 RW_FLAGS k;
          map_mmio 0x0c000000 0x0c400000 RW_FLAGS k
        }
      | LicheeRVNano \<Rightarrow> do {
          let thead_flags = THEAD_SO;
          k \<leftarrow> map_mmio 0x04140000 (0x04140000 + PAGE_SIZE) (RW_FLAGS OR thead_flags) k;
          k \<leftarrow> map_mmio 0x70000000 0x70400000 (RW_FLAGS OR thead_flags) k;
          map_mmio 0x04310000 (0x04310000 + PAGE_SIZE) (RW_FLAGS OR thead_flags) k
        }
      | UnknownCpu \<Rightarrow> Some k)"

definition map_segment :: "usize \<Rightarrow> usize \<Rightarrow> page_flags \<Rightarrow> kernel_map \<Rightarrow> kernel_map option" where
  "map_segment start e flags k = do {
     phys_start \<leftarrow> usub start HIGH_HALF_PHYS_START;
     e \<leftarrow> align_up e;
     with_page_mapper (\<lambda>st root. map_range st root start phys_start e flags Size4K) k
   }"

definition map_kernel_segments :: "kernel_image \<Rightarrow> kernel_map \<Rightarrow> kernel_map option" where
  "map_kernel_segments im k = do {
     k \<leftarrow> map_segment (text_start im) (text_end im) (PF_READ OR PF_EXECUTE OR PF_ACCESSED) k;
     k \<leftarrow> map_segment (rodata_start im) (rodata_end im) (PF_READ OR PF_ACCESSED) k;
     k \<leftarrow> map_segment (data_start im) (data_end im) (RW_FLAGS OR thead_mem_flags (CPU_TYPE k)) k;
     map_segment (bss_start im) (bss_end im) (RW_FLAGS OR thead_mem_flags (CPU_TYPE k)) k
   }"

definition map_kernel_stack :: "kernel_map \<Rightarrow> kernel_map option" where
  "map_kernel_stack k = do {
     kernel_stack_end \<leftarrow> usub KERNEL_STACK_START KERNEL_STACK_STARTING_SIZE;
     with_page_mapper (\<lambda>st root. allocate_and_map_pages st root kernel_stack_end KERNEL_STACK_STARTING_SIZE
       (RW_FLAGS OR thead_mem_flags (CPU_TYPE k))) k
   }"

definition map_and_initialize_kernel_heap :: "kernel_map \<Rightarrow> kernel_map option" where
  "map_and_initialize_kernel_heap k = with_page_mapper (\<lambda>st root.
     allocate_and_map_pages st root KERNEL_HEAP_START KERNEL_HEAP_SIZE (RW_FLAGS OR thead_mem_flags (CPU_TYPE k))) k"

definition map_last_l1_pte :: "kernel_image \<Rightarrow> kernel_map \<Rightarrow> kernel_map option" where
  "map_last_l1_pte im k = do {
     e \<leftarrow> align_up (proc_tramp_end im);
     k \<leftarrow> with_page_mapper (\<lambda>st root. map_range st root (proc_tramp_start im) (proc_tramp_lma im) e
       (PF_READ OR PF_EXECUTE OR PF_ACCESSED OR PF_GLOBAL) Size4K) k;
     k \<leftarrow> with_page_mapper (\<lambda>st root. allocate_and_map_pages st root TRAMPOLINE_TRAP_FRAME TRAP_FRAME_SIZE
       (RW_FLAGS OR thead_mem_flags (CPU_TYPE k))) k;
     Some (k\<lparr>LAST_L1_PTE := l1_page_table_from_phys (km_mem k) (KERNEL_PAGE_MAPPER k) TRAMPOLINE_TRAP_FRAME\<rparr>)
   }"

definition allocate_and_map_process_load_area_range :: "usize \<Rightarrow> usize \<Rightarrow> page_flags \<Rightarrow> kernel_map \<Rightarrow> kernel_map option" where
  "allocate_and_map_process_load_area_range start sz flags =
     with_page_mapper (\<lambda>st root. allocate_and_map_pages st root start sz flags)"

text \<open>The fields \<open>kernel_satp\<close> and \<open>is_lichee_rvnano\<close> of the trampoline frame are its third and fourth words.\<close>

definition switch_to_kernel_map :: "kernel_map \<Rightarrow> kernel_map option" where
  "switch_to_kernel_map k = do {
     let root = KERNEL_PAGE_MAPPER k;
     let satp = satp_value root;
     m \<leftarrow> kernel_store root (km_mem k) (TRAMPOLINE_TRAP_FRAME + 16) (to_le 8 (unat satp));
     m \<leftarrow> kernel_store root m (TRAMPOLINE_TRAP_FRAME + 24)
       (to_le 8 (if get_cpu_type (CPU_TYPE k) = LicheeRVNano then 1 else 0));
     Some (k\<lparr>km_satp := satp, km_machine := (km_machine k)\<lparr>mmem := m\<rparr>\<rparr>)
   }"

text \<open>\<open>init\<close>: the map, and the heap allocator on the mapped heap.\<close>

definition kernel_map_init :: "kernel_image \<Rightarrow> region \<Rightarrow> kernel_map \<Rightarrow> heap \<Rightarrow> (kernel_map \<times> heap) option" where
  "kernel_map_init im memory k h = do {
     k \<leftarrow> init_page_mapper k;
     k \<leftarrow> identity_map_memory memory k;
     k \<leftarrow> map_devices k;
     k \<leftarrow> map_kernel_segments im k;
     k \<leftarrow> map_kernel_stack k;
     k \<leftarrow> map_and_initialize_kernel_heap k;
     k \<leftarrow> map_last_l1_pte im k;
     k \<leftarrow> switch_to_kernel_map k;
     h \<leftarrow> heap_init h KERNEL_HEAP_START KERNEL_HEAP_SIZE;
     Some (k, h)
   }"

text \<open>The result is the old end and the size, or \<open>None\<close> when the end would overflow.\<close>

definition grow_kernel_heap :: "usize \<Rightarrow> kernel_map \<Rightarrow> (kernel_map \<times> (usize \<times> usize) option) option" where
  "grow_kernel_heap n k = do {
     sz \<leftarrow> align_up n;
     let old_end = KERNEL_HEAP_END k;
     (case uadd old_end sz of
        None \<Rightarrow> Some (k, None)
      | Some new_end \<Rightarrow> do {
          k \<leftarrow> with_page_mapper (\<lambda>st root. allocate_and_map_pages st root old_end sz
            (RW_FLAGS OR thead_mem_flags (CPU_TYPE k))) k;
          Some (k\<lparr>KERNEL_HEAP_END := new_end\<rparr>, Some (old_end, sz))
        })
   }"

section \<open>Boot\<close>

text \<open>\<open>page_allocator::init\<close> from the device tree blob, with the new values of the two initial RAM disk statics.\<close>

definition page_allocator_init_dtb ::
  "machine \<Rightarrow> usize \<Rightarrow> usize \<Rightarrow> usize \<Rightarrow> usize \<Rightarrow> (machine \<times> region \<times> usize \<times> usize) option" where
  "page_allocator_init_dtb st dtb_ptr image_phys_end i0 e0 = do {
     dtb_context \<leftarrow> parse_dtb (mmem st) dtb_ptr;
     (memory, reserved, i, e) \<leftarrow> collect_memory_map MAX_RESERVED_MEMORY (mmem st) dtb_ptr [] i0 e0;
     memory \<leftarrow> memory;
     (st, memory) \<leftarrow> page_allocator_init dtb_ptr (dtb_total_size dtb_context) image_phys_end memory reserved st;
     Some (st, memory, i, e)
   }"

section \<open>Flags\<close>

lemma thead_bits: "thead_mem_flags cpu AND ppn_bits = 0" "THEAD_SO AND ppn_bits = 0"
  by (auto simp: thead_mem_flags_def THEAD_MEMORY_def THEAD_SO_def pf_empty_def ppn_bits_def push_bit_eq_mult)

lemma rw_bits: "RW_FLAGS AND ppn_bits = 0"
  by (simp add: RW_FLAGS_def pf_defs ppn_bits_def push_bit_eq_mult)

lemma heap_flags:
  "(RW_FLAGS OR thead_mem_flags cpu) AND ppn_bits = 0"
  "pf_intersects (RW_FLAGS OR thead_mem_flags cpu) (PF_READ OR PF_WRITE OR PF_EXECUTE)"
proof -
  show "(RW_FLAGS OR thead_mem_flags cpu) AND ppn_bits = 0"
    using thead_bits(1) rw_bits by (simp add: bit.conj_disj_distrib2)
  have "bit PF_READ 1" by (simp add: PF_READ_def bit_simps)
  then show "pf_intersects (RW_FLAGS OR thead_mem_flags cpu) (PF_READ OR PF_WRITE OR PF_EXECUTE)"
    unfolding rwx_iff RW_FLAGS_def bit_or_iff by blast
qed

lemma align_up_pages: "align_up n = Some sz \<Longrightarrow> \<exists>c. sz = 4096 * c \<and> c = (n + 4095) div 4096"
  by (simp add: align_up_Some_iff)

section \<open>Properties\<close>

text \<open>
  C9: growing the kernel heap by \<open>n\<close> bytes. With three free frames per page and room below the top of the address
  space, \<open>grow_kernel_heap\<close> does not panic, returns the old end with the size rounded up to pages and moves the end
  by that much; the kernel's address space stays well formed; every address of the new part of the heap is
  mapped to a frame of its own page that was free; no other translation of the kernel and no byte of a frame
  in use changes.
\<close>

theorem grow_kernel_heap_maps:
  assumes "vm_inv_d D (km_machine k) (KERNEL_PAGE_MAPPER k) F" "3 * c \<le> card F" "c \<le> 2 ^ 27" "c = (n + 4095) div 4096"
    and "4096 dvd KERNEL_HEAP_END k" "KERNEL_HEAP_END k + 4096 * c < usize_bound" "n + 4096 < usize_bound"
    and "\<forall>i < c. no_superpage (km_mem k) (KERNEL_PAGE_MAPPER k) (KERNEL_HEAP_END k + 4096 * i)"
  shows "\<exists>k' F' ph. grow_kernel_heap n k = Some (k', Some (KERNEL_HEAP_END k, 4096 * c)) \<and>
    KERNEL_HEAP_END k' = KERNEL_HEAP_END k + 4096 * c \<and> n \<le> 4096 * c \<and> F' \<subseteq> F \<and> ph ` {..<c} \<subseteq> F \<and> inj_on ph {..<c} \<and>
    vm_inv_d (D \<union> ph ` {..<c}) (km_machine k') (KERNEL_PAGE_MAPPER k') F' \<and>
    (\<forall>v. KERNEL_HEAP_END k \<le> v \<longrightarrow> v < KERNEL_HEAP_END k' \<longrightarrow>
       kernel_virt_to_phys k' v = Some (ph ((v - KERNEL_HEAP_END k) div 4096) + v mod 4096)) \<and>
    (\<forall>v. (\<forall>i < c. vpns v \<noteq> vpns (KERNEL_HEAP_END k + 4096 * i)) \<longrightarrow> kernel_virt_to_phys k' v = kernel_virt_to_phys k v) \<and>
    (\<forall>x \<in> bytes_of D. km_mem k' x = km_mem k x)"
proof -
  let ?fl = "RW_FLAGS OR thead_mem_flags (CPU_TYPE k)" and ?r = "KERNEL_PAGE_MAPPER k" and ?e = "KERNEL_HEAP_END k"
  obtain st' F' ph where r: "allocate_and_map_pages_impl (km_machine k) ?r ?e (4096 * c) ?fl False = Some st'"
    "F' \<subseteq> F" "card F \<le> card F' + 3 * c" "ph ` {..<c} \<subseteq> F" "vm_inv_d (D \<union> ph ` {..<c}) st' ?r F'"
    "pages_given (km_machine k) st' ?r ?e ?fl False D 0 c ph"
    and t: "\<forall>v. ?e \<le> v \<longrightarrow> v < ?e + 4096 * c \<longrightarrow>
       virt_to_phys (mmem st') ?r v = Some (ph ((v - ?e) div 4096) + v mod 4096) \<and>
       (False \<longrightarrow> mmem st' (ph ((v - ?e) div 4096) + v mod 4096) = 0)"
    "\<forall>v. (\<forall>i < c. vpns v \<noteq> vpns (?e + 4096 * i)) \<longrightarrow> virt_to_phys (mmem st') ?r v = virt_to_phys (km_mem k) ?r v"
    by (rule alloc_pages_translate[OF assms(1-3,5,6) heap_flags(2,1) assms(8), where z = False]) (rule that)
  define k' where "k' = k\<lparr>km_machine := st', KERNEL_HEAP_END := ?e + 4096 * c\<rparr>"
  have "grow_kernel_heap n k = Some (k', Some (?e, 4096 * c))"
    using r(1) assms(4,6,7) align_up_Some_iff[of n "4096 * c"]
    by (simp add: grow_kernel_heap_def uadd_def with_page_mapper_def allocate_and_map_pages_def k'_def Let_def mult.commute)
  moreover have "n \<le> 4096 * c" using round_up_props[of 4096 n] assms(4) by (simp add: mult.commute)
  moreover have "inj_on ph {..<c} \<and> (\<forall>x \<in> bytes_of D. mmem st' x = km_mem k x)"
    using r(6) by (simp add: pages_given_def lessThan_atLeast0)
  ultimately show ?thesis using r(2,4,5) t by (intro exI[of _ k'] exI[of _ F'] exI[of _ ph]) (simp add: k'_def kernel_virt_to_phys_def)
qed

text \<open>A kernel map over a pool of four free frames.\<close>

definition demo_frames :: "usize set" where
  "demo_frames = {0x80200000, 0x80201000, 0x80202000, 0x80203000}"

definition demo_kernel_map :: kernel_map where
  "demo_kernel_map = \<lparr>km_machine = demo_pool, KERNEL_PAGE_MAPPER = 0, LAST_L1_PTE = 0,
     KERNEL_HEAP_END = KERNEL_HEAP_START + KERNEL_HEAP_SIZE, km_satp = 0, CPU_TYPE = 1\<rparr>"

theorem grow_kernel_heap_maps_witness:
  "\<exists>k k' p. init_page_mapper demo_kernel_map = Some k \<and>
     grow_kernel_heap 100 k = Some (k', Some (0xffffffffc0004000, 4096)) \<and>
     KERNEL_HEAP_END k' = 0xffffffffc0005000 \<and> kernel_virt_to_phys k' 0xffffffffc0004010 = Some p"
proof -
  have inv: "pa_inv demo_pool demo_frames" unfolding demo_frames_def by (rule demo_pool_inv)
  obtain st root where st: "mapper_new demo_pool = Some (st, root)" "root \<in> demo_frames" "vm_inv st root (demo_frames - {root})"
    "\<forall>v. no_superpage (mmem st) root v"
    by (rule mapper_new_spec[OF inv]) (auto simp: demo_frames_def)
  define k where "k = demo_kernel_map\<lparr>km_machine := st, KERNEL_PAGE_MAPPER := root\<rparr>"
  have e: "KERNEL_HEAP_END k = 0xffffffffc0004000" by (simp add: k_def demo_kernel_map_def kernel_layout PAGE_SIZE_def)
  have vm: "vm_inv_d {} (km_machine k) (KERNEL_PAGE_MAPPER k) (demo_frames - {root})"
    using st(3) by (simp add: k_def vm_inv_def)
  have c: "3 * 1 \<le> card (demo_frames - {root})" using st(2) by (auto simp: demo_frames_def)
  have h: "(1 :: nat) \<le> 2 ^ 27" "(1 :: nat) = (100 + 4095) div 4096" "4096 dvd KERNEL_HEAP_END k"
    "KERNEL_HEAP_END k + 4096 * 1 < usize_bound" "(100 :: nat) + 4096 < usize_bound"
    "\<forall>i < 1. no_superpage (km_mem k) (KERNEL_PAGE_MAPPER k) (KERNEL_HEAP_END k + 4096 * i)"
    using st(4) unfolding e by (simp_all add: usize_bound_def k_def)
  obtain k' ph where "grow_kernel_heap 100 k = Some (k', Some (KERNEL_HEAP_END k, 4096 * 1))"
    "KERNEL_HEAP_END k' = KERNEL_HEAP_END k + 4096 * 1"
    "\<forall>v. KERNEL_HEAP_END k \<le> v \<longrightarrow> v < KERNEL_HEAP_END k' \<longrightarrow>
       kernel_virt_to_phys k' v = Some (ph ((v - KERNEL_HEAP_END k) div 4096) + v mod 4096)"
    using grow_kernel_heap_maps[OF vm c h] by blast
  moreover have "init_page_mapper demo_kernel_map = Some k"
    using st(1) by (simp add: init_page_mapper_def k_def demo_kernel_map_def)
  ultimately show ?thesis unfolding e by (intro exI[of _ k] exI[of _ k']) simp
qed

end
