(* ===== verification/Process_Loader.thy ===== *)
theory Process_Loader
  imports Kernel_Memory_Map Syscalls
begin

text \<open>
  Starting a user process: the ELF reader (\<open>src/read_elf.rs\<close>), the construction of the process's address space from
  an executable (\<open>src/process_memory_map.rs\<close>) and \<open>spawn_process\<close> (\<open>src/kthread/user_process.rs\<close>). The segments are
  loaded through a window of the kernel's address space, whose second-level table is then handed over to
  the process.
\<close>

unbundle bit_operations_syntax

section \<open>ELF headers\<close>

record elf64_header =
  e_ident :: "u8 list"
  e_type :: u16
  e_machine :: u16
  e_version :: u32
  e_entry :: u64
  e_phoff :: u64
  e_shoff :: u64
  e_flags :: u32
  e_ehsize :: u16
  e_phentsize :: u16
  e_phnum :: u16
  e_shentsize :: u16
  e_shnum :: u16
  e_shstrndx :: u16

record elf64_program_header =
  p_type :: u32
  p_flags :: u32
  p_offset :: u64
  p_vaddr :: u64
  p_paddr :: u64
  p_filesz :: u64
  p_memsz :: u64
  p_align :: u64

definition PT_LOAD :: u32 where "PT_LOAD = 1"

text \<open>A field of a \<open>repr(C)\<close> structure that is read from bytes.\<close>

definition field :: "u8 list \<Rightarrow> nat \<Rightarrow> nat \<Rightarrow> nat" where
  "field bs off n = le_nat (take n (drop off bs))"

definition elf64_header_of :: "u8 list \<Rightarrow> elf64_header" where
  "elf64_header_of bs = \<lparr>e_ident = take 16 bs, e_type = word_of_nat (field bs 16 2), e_machine = word_of_nat (field bs 18 2),
     e_version = word_of_nat (field bs 20 4), e_entry = word_of_nat (field bs 24 8), e_phoff = word_of_nat (field bs 32 8),
     e_shoff = word_of_nat (field bs 40 8), e_flags = word_of_nat (field bs 48 4), e_ehsize = word_of_nat (field bs 52 2),
     e_phentsize = word_of_nat (field bs 54 2), e_phnum = word_of_nat (field bs 56 2), e_shentsize = word_of_nat (field bs 58 2),
     e_shnum = word_of_nat (field bs 60 2), e_shstrndx = word_of_nat (field bs 62 2)\<rparr>"

definition elf64_program_header_of :: "u8 list \<Rightarrow> elf64_program_header" where
  "elf64_program_header_of bs = \<lparr>p_type = word_of_nat (field bs 0 4), p_flags = word_of_nat (field bs 4 4),
     p_offset = word_of_nat (field bs 8 8), p_vaddr = word_of_nat (field bs 16 8), p_paddr = word_of_nat (field bs 24 8),
     p_filesz = word_of_nat (field bs 32 8), p_memsz = word_of_nat (field bs 40 8), p_align = word_of_nat (field bs 48 8)\<rparr>"

definition read_elf64_header :: "device \<Rightarrow> vfs \<Rightarrow> open_file \<Rightarrow> (open_file \<times> (error + elf64_header)) option" where
  "read_elf64_header dev v f = map_option (\<lambda>(f, r). (f, map_sum id elf64_header_of r)) (vfs_read_exact dev v f 64)"

definition read_program_header :: "device \<Rightarrow> vfs \<Rightarrow> open_file \<Rightarrow> (open_file \<times> (error + elf64_program_header)) option" where
  "read_program_header dev v f = map_option (\<lambda>(f, r). (f, map_sum id elf64_program_header_of r)) (vfs_read_exact dev v f 56)"

fun program_headers_loop ::
  "device \<Rightarrow> vfs \<Rightarrow> nat \<Rightarrow> open_file \<Rightarrow> elf64_program_header list \<Rightarrow> (open_file \<times> (error + elf64_program_header list)) option" where
  "program_headers_loop dev v 0 f result = Some (f, Inr result)"
| "program_headers_loop dev v (Suc n) f result = do {
     (f, r) \<leftarrow> read_program_header dev v f;
     (case r of Inl e \<Rightarrow> Some (f, Inl e) | Inr phdr \<Rightarrow> program_headers_loop dev v n f (result @ [phdr]))
   }"

definition read_program_headers ::
  "device \<Rightarrow> vfs \<Rightarrow> open_file \<Rightarrow> elf64_header \<Rightarrow> (open_file \<times> (error + elf64_program_header list)) option" where
  "read_program_headers dev v f header = do {
     f \<leftarrow> vfs_seek v f (Start (unat (e_phoff header)));
     program_headers_loop dev v (unat (e_phnum header)) f []
   }"

section \<open>Loading the segments\<close>

definition PROCESS_LOAD_AREA :: usize where "PROCESS_LOAD_AREA = 0xffffffc000000000"
definition PROCESS_LOAD_AREA_ENTRY :: nat where "PROCESS_LOAD_AREA_ENTRY = 0x100"
definition PROCESS_STACK_START :: usize where "PROCESS_STACK_START = 0xffe00000"
definition PROCESS_STACK_STARTING_SIZE :: usize where "PROCESS_STACK_STARTING_SIZE = 0x4000"

definition LOAD_FLAGS :: page_flags where
  "LOAD_FLAGS = PF_READ OR PF_WRITE OR PF_EXECUTE OR PF_ACCESSED OR PF_DIRTY"

text \<open>One turn of the loop, with the file, the kernel's address space, \<open>base_vaddr\<close> and \<open>heap_start\<close>.\<close>

type_synonym load_state = "open_file \<times> kernel_map \<times> usize \<times> usize"

definition load_segment :: "device \<Rightarrow> vfs \<Rightarrow> elf64_program_header \<Rightarrow> load_state \<Rightarrow> (string + load_state) option" where
  "load_segment dev v ph s =
     (if p_type ph = PT_LOAD then do {
        let (f, k, base_vaddr, heap_start) = s;
        let offset = unat (p_offset ph);
        let virt_addr = unat (p_vaddr ph);
        let mem_size = unat (p_memsz ph);
        let file_size = unat (p_filesz ph);
        let base_vaddr = (if offset = 0 then virt_addr else base_vaddr);
        virt_addr_start \<leftarrow> uadd virt_addr PROCESS_LOAD_AREA;
        e \<leftarrow> uadd virt_addr mem_size;
        virt_addr_end \<leftarrow> align_up e;
        let virt_addr_load_start = align_down virt_addr_start;
        virt_addr_load_end \<leftarrow> uadd virt_addr_end PROCESS_LOAD_AREA;
        let heap_start = (if heap_start < virt_addr_end then virt_addr_end else heap_start);
        sz \<leftarrow> usub virt_addr_load_end virt_addr_load_start;
        k \<leftarrow> allocate_and_map_process_load_area_range virt_addr_load_start sz LOAD_FLAGS k;
        f \<leftarrow> vfs_seek v f (Start offset);
        (f, r) \<leftarrow> vfs_read_exact dev v f file_size;
        (case r of
           Inl _ \<Rightarrow> Some (Inl ''Failed to read ELF segment data'')
         | Inr data \<Rightarrow> do {
             m \<leftarrow> kernel_store (KERNEL_PAGE_MAPPER k) (km_mem k) virt_addr_start data;
             z \<leftarrow> uadd virt_addr_start file_size;
             n \<leftarrow> usub mem_size file_size;
             m \<leftarrow> kernel_store (KERNEL_PAGE_MAPPER k) m z (replicate n 0);
             Some (Inr (f, k\<lparr>km_machine := (km_machine k)\<lparr>mmem := m\<rparr>\<rparr>, base_vaddr, heap_start))
           })
      }
      else Some (Inr s))"

fun load_segments :: "device \<Rightarrow> vfs \<Rightarrow> elf64_program_header list \<Rightarrow> load_state \<Rightarrow> (string + load_state) option" where
  "load_segments dev v [] s = Some (Inr s)"
| "load_segments dev v (ph # phs) s = try_bind (load_segment dev v ph s) (load_segments dev v phs)"

definition load_elf :: "device \<Rightarrow> vfs \<Rightarrow> open_file \<Rightarrow> elf64_header \<Rightarrow> kernel_map \<Rightarrow> (string + load_state) option" where
  "load_elf dev v f header k = do {
     (f, r) \<leftarrow> read_program_headers dev v f header;
     (case r of Inl _ \<Rightarrow> None | Inr program_headers \<Rightarrow> load_segments dev v program_headers (f, k, usize_bound - 1, 0))
   }"

section \<open>The process's address space\<close>

definition switch_entry :: "usize \<Rightarrow> nat \<Rightarrow> mem \<Rightarrow> mem" where
  "switch_entry l2_table j m =
     (let e = read_pte m l2_table j in if pte_is_valid e then write_pte m l2_table j (pte_set_user_flag e) else m)"

definition switch_table :: "usize \<Rightarrow> nat \<Rightarrow> mem \<Rightarrow> mem" where
  "switch_table table i m =
     (let l1_entry = read_pte m table i in
      if pte_is_valid l1_entry then fold (switch_entry (pte_addr l1_entry)) [0..<512] m else m)"

definition switch_pages_to_user :: "usize \<Rightarrow> mem \<Rightarrow> mem" where
  "switch_pages_to_user table m = fold (switch_table table) [0..<512] m"

text \<open>Handing the loaded table over: the process gets it as entry 0, the kernel's entry is cleared.\<close>

definition hand_over :: "usize \<Rightarrow> usize \<Rightarrow> mem \<Rightarrow> mem" where
  "hand_over kernel_root root_table m =
     (let table = pte_addr (read_pte m kernel_root PROCESS_LOAD_AREA_ENTRY);
          m = switch_pages_to_user table m;
          m = write_pte m root_table 0 (pte_set table PF_VALID)
      in write_pte m kernel_root PROCESS_LOAD_AREA_ENTRY 0)"

text \<open>The initial stack: words are pushed downwards in the first stack page.\<close>

definition push_word :: "nat \<Rightarrow> mem \<times> usize \<Rightarrow> (mem \<times> usize) option" where
  "push_word value s = do { sp \<leftarrow> usub (snd s) 8; Some (store 8 (fst s) sp value, sp) }"

definition push_aux :: "nat \<times> nat \<Rightarrow> mem \<times> usize \<Rightarrow> (mem \<times> usize) option" where
  "push_aux kv s = do { s \<leftarrow> push_word (snd kv) s; push_word (fst kv) s }"

definition aux_vector :: "elf64_header \<Rightarrow> nat \<Rightarrow> (nat \<times> nat) list" where
  "aux_vector header phdr_addr = [(0, 0), (23, 0), (7, 0), (6, PAGE_SIZE), (4, unat (e_phentsize header)),
     (5, unat (e_phnum header)), (3, phdr_addr)]"

definition initial_stack :: "elf64_header \<Rightarrow> nat \<Rightarrow> mem \<Rightarrow> usize \<Rightarrow> (mem \<times> usize) option" where
  "initial_stack header phdr_addr m sp = do {
     s \<leftarrow> ofold push_aux (aux_vector header phdr_addr) (m, sp);
     s \<leftarrow> push_word 0 s;
     s \<leftarrow> push_word 0 s;
     s \<leftarrow> push_word 0 s;
     push_word 1 s
   }"

definition USER_RW :: page_flags where
  "USER_RW = PF_READ OR PF_WRITE OR PF_ACCESSED OR PF_DIRTY OR PF_USER"

text \<open>The part of \<open>init_from_elf\<close> that builds the stack and the shared last table; the result has the stack pointer.\<close>

definition init_stack :: "elf64_header \<Rightarrow> nat \<Rightarrow> usize \<Rightarrow> usize \<Rightarrow> machine \<Rightarrow> (machine \<times> usize) option" where
  "init_stack header phdr_addr root last_l1_pte st = do {
     process_stack_end \<leftarrow> usub PROCESS_STACK_START PAGE_SIZE;
     (st, p) \<leftarrow> alloc st;
     first_stack_page \<leftarrow> p;
     top \<leftarrow> uadd first_stack_page PAGE_SIZE;
     (m, sp) \<leftarrow> initial_stack header phdr_addr (mmem st) top;
     used \<leftarrow> usub top sp;
     user_sp \<leftarrow> usub PROCESS_STACK_START used;
     st \<leftarrow> map_range (st\<lparr>mmem := m\<rparr>) root process_stack_end first_stack_page PROCESS_STACK_START USER_RW Size4K;
     remaining \<leftarrow> usub process_stack_end (PROCESS_STACK_STARTING_SIZE - PAGE_SIZE);
     st \<leftarrow> allocate_and_map_pages st root remaining (PROCESS_STACK_STARTING_SIZE - PAGE_SIZE) USER_RW;
     st \<leftarrow> set_l1_page_table_for_phys st root TRAMPOLINE_TRAP_FRAME last_l1_pte;
     Some (st, user_sp)
   }"

definition init_from_elf ::
  "device \<Rightarrow> vfs \<Rightarrow> open_file \<Rightarrow> kernel_map \<Rightarrow> process_context \<Rightarrow> process_trap_frame \<Rightarrow>
   (kernel_map \<times> process_context \<times> process_trap_frame) option" where
  "init_from_elf dev v f k ctx tf = do {
     (f, r) \<leftarrow> read_elf64_header dev v f;
     header \<leftarrow> (case r of Inl _ \<Rightarrow> None | Inr h \<Rightarrow> Some h);
     l \<leftarrow> load_elf dev v f header k;
     (f, k, base_vaddr, heap_start) \<leftarrow> (case l of Inl _ \<Rightarrow> None | Inr s \<Rightarrow> Some s);
     let m = hand_over (KERNEL_PAGE_MAPPER k) (ctx_page_map ctx) (km_mem k);
     phdr_addr \<leftarrow> uadd (unat (e_phoff header)) base_vaddr;
     (st, user_sp) \<leftarrow> init_stack header phdr_addr (ctx_page_map ctx) (LAST_L1_PTE k) ((km_machine k)\<lparr>mmem := m\<rparr>);
     Some (k\<lparr>km_machine := st\<rparr>, ctx\<lparr>heap_begin := heap_start, heap_end := heap_start\<rparr>,
       tf\<lparr>tf_pc := unat (e_entry header),
          tf_registers := (tf_registers tf)[10 := 0, 9 := 1, 1 := word_of_nat user_sp]\<rparr>)
   }"

section \<open>Spawning\<close>

definition zero_trap_frame :: process_trap_frame where
  "zero_trap_frame = \<lparr>tf_registers = replicate 31 0, tf_pc = 0, tf_sepc = 0, tf_sstatus = 0, tf_stval = 0, tf_scause = 0, tf_satp = 0\<rparr>"

definition TRAP_FRAME_BYTES :: u64 where "TRAP_FRAME_BYTES = 37 * 8"

definition open_console :: "device \<Rightarrow> (inode_ref \<Rightarrow> nat) \<Rightarrow> vfs \<Rightarrow> (vfs \<times> open_file) option" where
  "open_console dev sc v = do {
     (v, r) \<leftarrow> vfs_open dev sc v ''/dev/console'';
     (case r of Inl _ \<Rightarrow> None | Inr f \<Rightarrow> Some (v, f))
   }"

text \<open>
  The process context and its trap frame are results of their own (in the code the context is owned by the thread
  and the frame lies at the top of the thread's stack); the thread has what the scheduler reads of them. The
  addresses of the new stack and of \<open>user_thread_entry\<close> and the identity of the context are parameters.
\<close>

definition spawn_process ::
  "environment \<Rightarrow> u64 \<Rightarrow> u64 \<Rightarrow> nat \<Rightarrow> vfs \<Rightarrow> sched \<Rightarrow> kernel_map \<Rightarrow> string \<Rightarrow>
   (vfs \<times> sched \<times> kernel_map \<times> (string + usize \<times> process_context \<times> process_trap_frame)) option" where
  "spawn_process env entry stack_base pid v s k path = do {
     (v, r) \<leftarrow> vfs_open (e_device env) (e_strong_count env) v path;
     (case r of
        Inl _ \<Rightarrow> Some (v, s, k, Inl ''failed to open file'')
      | Inr f \<Rightarrow> do {
          let (s, t) = thread_new s stack_base entry;
          let trap_frame_ptr = t_stack_base t + word_of_nat (t_stack_len t) - TRAP_FRAME_BYTES;
          let t = t\<lparr>t_context := (t_context t)\<lparr>tc_sp := trap_frame_ptr\<rparr>\<rparr>;
          (st, ctx) \<leftarrow> context_new (km_machine k);
          (k, ctx, tf) \<leftarrow> init_from_elf (e_device env) v f (k\<lparr>km_machine := st\<rparr>) ctx zero_trap_frame;
          (v, c0) \<leftarrow> open_console (e_device env) (e_strong_count env) v;
          (v, c1) \<leftarrow> open_console (e_device env) (e_strong_count env) v;
          (v, c2) \<leftarrow> open_console (e_device env) (e_strong_count env) v;
          let ctx = ctx\<lparr>ctx_files := ctx_files ctx @ [Some c0, Some c1, Some c2]\<rparr>;
          let t = t\<lparr>t_process := Some \<lparr>pr_id = pid, pr_trap_frame = trap_frame_ptr,
            pr_user_sp = tf_registers tf ! 1, pr_user_t0 = tf_registers tf ! 4\<rparr>\<rparr>;
          let (s, thread_id) = thread_add s t;
          Some (v, s, k, Inr (thread_id, ctx, tf))
        })
   }"

end
