(* ===== verification/Spec2Isabelle.thy ===== *)
theory Spec2Isabelle
  imports Page_Table Spsc_Ring Threads Trap_Asm Trap_Handlers Heap_Allocator Block_Layer Dispatcher Uart Ramfs Ext2 Vfs Uaccess Syscalls Initramfs Dtb Kernel_Memory_Map Process_Loader
begin

text \<open>
  A model of nano-os, a RISC-V kernel in Rust, and theorems about it. Paths below are relative to the crate's
  directory \<open>src/\<close>; the shared structures are in \<open>types/src/lib.rs\<close> and the generated assembly offsets in
  \<open>build.rs\<close>.

  \<^bold>\<open>The program.\<close> The firmware hands over a device tree. The kernel finds the memory in it, builds a page
  allocator on the memory that is free, maps itself, and starts a heap in its own address space. It unpacks an
  initial RAM file system, registers drivers and mounts file systems; kernel threads drain the UART and
  dispatch disk reads. A user process is a kernel thread with an address space that the ELF loader builds; it
  enters the kernel through a trampoline, and system calls work on its memory and its open files.

  \<^bold>\<open>Conventions.\<close> \<open>usize\<close> is \<open>nat\<close> with checked operations (\<open>uadd\<close>, \<open>usub\<close>, \<open>umul\<close>: \<open>None\<close> where the code
  panics on overflow); bit patterns, registers and fixed-width fields are words. An operation that may panic or not
  return gives an \<open>option\<close>, with \<open>None\<close> for both; a Rust \<open>Result\<close> is a sum with the error on the left. RAM is a
  function from physical addresses to bytes, and structures the code keeps in RAM (free pages, page tables, the
  device tree) are read from and written to that function. Statics are fields of state records that the
  operations take and return.

  \<^bold>\<open>Theories, bottom up.\<close>

  \<^item> \<open>Nano_Prelude\<close>, \<open>Bytes\<close>: the conventions above, checked arithmetic, slices, the \<open>?\<close> operator; little-endian
  encoding and RAM (\<open>bytes.rs\<close>).

  \<^item> \<open>Memory_Regions\<close> (\<open>memory.rs\<close>): alignment and \<open>compute_usable_regions\<close> with its clipping, sorting, merging and
  carving on bounded vectors. The result covers exactly the RAM outside the reserved regions.

  \<^item> \<open>Page_Allocator\<close> (\<open>page_allocator.rs\<close>): the free list inside the free pages. The locale \<open>frame_allocator\<close> is what
  clients may assume of it (the invariant \<open>pa_inv\<close> with the set of free frames); it is interpreted on the code.

  \<^item> \<open>Page_Table\<close> (\<open>page_mapper.rs\<close>): Sv39 tables in RAM. \<open>vm_inv_d\<close> states that the tables reachable from a root form
  a tree that is disjoint from the free frames and from frames holding data; mapping and allocating operations keep it,
  translate as asked, and change no other translation.

  \<^item> \<open>Dtb\<close> (\<open>dtb.rs\<close>): the walk over the blob, compared with a writer of the format, and the memory map it yields.

  \<^item> \<open>Heap_Allocator\<close> (\<open>kernel_allocator/\<close>): the boundary-tag allocator; \<open>heap_rep\<close> relates the headers to a list of
  blocks. Allocation and deallocation are correct with one exception, the three-way split, shown as a theorem.

  \<^item> \<open>Kernel_Memory_Map\<close> (\<open>kernel_memory_map.rs\<close>): the kernel's address space at boot, heap growth.

  \<^item> \<open>Spsc_Ring\<close> (\<open>collections/spsc_ring.rs\<close>): the ring refines a queue, alone and under every interleaving of one
  producer and one consumer, whose atomic steps are an inductive relation.

  \<^item> \<open>Threads\<close> (\<open>thread.rs\<close>, \<open>kthread/idle.rs\<close>): threads, messages and the scheduler as a step relation with an
  invariant; context switches preserve registers, ready threads run.

  \<^item> \<open>Trap_Asm\<close>, \<open>Trap_Handlers\<close> (\<open>kernel_trap.rs\<close>, \<open>trap.rs\<close>, \<open>process_trampoline.rs\<close>, \<open>amo.rs\<close>, \<open>riscv.rs\<close>,
  \<open>build.rs\<close>): the assembly as instruction lists for a small interpreter, with round trips through save
  and restore; the handlers and the emulation of atomic instructions.

  \<^item> \<open>Block_Layer\<close>, \<open>Dispatcher\<close> (\<open>block/\<close>, \<open>collections/lru.rs\<close>): cache, partitions, volumes and the thread that
  serialises the reads. The device driver is a parameter.

  \<^item> \<open>Uart\<close> (\<open>drivers/uart.rs\<close>, \<open>kthread/uart_writer.rs\<close>): the driver with its interrupt handler on a device
  with a transmit FIFO, and the writer thread.

  \<^item> \<open>File_Api\<close>, \<open>Ramfs\<close>, \<open>Ext2\<close>, \<open>Vfs\<close>, \<open>Initramfs\<close> (\<open>file.rs\<close>, \<open>fs/\<close>, \<open>vfs.rs\<close>, \<open>dev/\<close>): inodes are indices into a
  store; the file systems, mounting and path resolution, device registries, CPIO unpacking. The locale
  \<open>file_reader\<close> is what reading to a given length needs of a file system's \<open>read\<close>; it is interpreted for all
  three file systems at once.

  \<^item> \<open>Uaccess\<close>, \<open>Syscalls\<close> (\<open>syscall/\<close>, \<open>process.rs\<close>): copying through a process's page table and every system call,
  from the trap to the return.

  \<^item> \<open>Process_Loader\<close> (\<open>read_elf.rs\<close>, \<open>process_memory_map.rs\<close>, \<open>kthread/user_process.rs\<close>): ELF headers, loading
  of segments, the process's address space and its first stack.

  \<^bold>\<open>Loops.\<close> Loops over data end by structural recursion or a measure. Loops that need not end (directory iteration,
  strings and tokens of a device tree) are partial functions; for directories termination on any disk is proved, for
  the device tree on every well-formed blob. No definition uses fuel.

  \<^bold>\<open>Parameters.\<close> The disk, the reference counts of inodes, linker symbols, the addresses of new stacks and what other
  threads do while the caller is not running are parameters.

  \<^bold>\<open>Not modelled.\<close> Device registers other than the UART's (\<open>drivers/plic.rs\<close>, \<open>drivers/virtio_blk.rs\<close>, \<open>drivers/sd.rs\<close>):
  their meaning is the hardware's. The boot assembly, \<open>rust_main\<close> and the menu of \<open>kernel_main\<close>: they order calls of
  modelled operations around prints. Printing, the demonstrations, the test runner, traces, \<open>print_dtb\<close> and the
  dumps of page tables: output only. Caches, fences and the translation buffer: RAM is always
  coherent in the model. Bytes of heap allocations and the stacks of threads: the heap model has the headers
  only. The wait of a new process for the file systems: a loop around a modelled yield.
\<close>

end
